(* ===== verification/Prelude.thy ===== *)
theory Prelude
  imports Main "HOL-Library.Word"
begin

text \<open>
  The vocabulary the component theories share.

  \<^item> Machine integers: \<open>uint8_t\<close>, \<open>uint16_t\<close>,
    \<open>uint32_t\<close>, \<open>uint64_t\<close> and \<open>unsigned __int128\<close> are words;
    an \<open>int8_t\<close> is an \<open>8 word\<close> read through \<open>sint\<close>. A C++
    \<open>int\<close> whose overflow is undefined behaviour is an \<open>int\<close>, and every
    addition or subtraction on it goes through \<open>i32\<close>, which faults outside the 32-bit
    range (the build does not pass \<open>-fwrapv\<close>).
  \<^item> Failures: a result is \<open>fault + 'a\<close>. A fault is an exception the code throws
    or an operation the C++ standard leaves undefined.
  \<^item> Loops: \<open>rfold\<close> is a counted loop whose body may fault;
    \<open>run_while\<close> is an unbounded loop with fuel, where \<open>None\<close> is "not
    finished within the fuel".
\<close>

unbundle bit_operations_syntax

named_theorems res_simps \<open>unfolding of the result monad\<close>

section \<open>Machine types\<close>

type_synonym u8 = "8 word"
type_synonym u16 = "16 word"
type_synonym u32 = "32 word"
type_synonym u64 = "64 word"
type_synonym u128 = "128 word"
type_synonym i8 = "8 word"

section \<open>Results\<close>

datatype fault =
    Signed_Overflow
  | Out_Of_Bounds
  | Shift_Too_Wide
  | Thrown string

type_synonym 'a res = "fault + 'a"

fun rbind :: "'a res \<Rightarrow> ('a \<Rightarrow> 'b res) \<Rightarrow> 'b res" where
  "rbind (Inl e) f = Inl e"
| "rbind (Inr x) f = f x"

lemma rbind_Inr_iff [res_simps]:
  "rbind m f = Inr y \<longleftrightarrow> (\<exists>x. m = Inr x \<and> f x = Inr y)"
  by (cases m) auto

lemma rbind_Inl_iff [res_simps]:
  "rbind m f = Inl e \<longleftrightarrow> m = Inl e \<or> (\<exists>x. m = Inr x \<and> f x = Inl e)"
  by (cases m) auto

lemma rbind_assoc: "rbind (rbind m f) g = rbind m (\<lambda>x. rbind (f x) g)"
  by (cases m) auto

lemma rbind_Inr_right [simp]: "rbind m Inr = m"
  by (cases m) auto

lemma rbind_cong [fundef_cong]:
  "m = m' \<Longrightarrow> (\<And>x. m' = Inr x \<Longrightarrow> f x = g x) \<Longrightarrow> rbind m f = rbind m' g"
  by (cases m') auto

text \<open>
  \<open>ensures m P\<close>: the computation does not fault and its value satisfies
  \<open>P\<close>. It distributes over \<open>rbind\<close>, so that a proof about a block of code
  is a walk through its statements.
\<close>

definition ensures :: "'a res \<Rightarrow> ('a \<Rightarrow> bool) \<Rightarrow> bool" where
  "ensures m P \<longleftrightarrow> (case m of Inl _ \<Rightarrow> False | Inr x \<Rightarrow> P x)"

lemma ensures_simps [simp]:
  "ensures (Inr x) P \<longleftrightarrow> P x"
  "\<not> ensures (Inl e) P"
  "ensures (rbind m f) P \<longleftrightarrow> ensures m (\<lambda>x. ensures (f x) P)"
  by (auto simp: ensures_def split: sum.splits)

lemma ensures_iff: "ensures m P \<longleftrightarrow> (\<exists>x. m = Inr x \<and> P x)"
  by (cases m) auto

lemma ensures_mono: "ensures m P \<Longrightarrow> (\<And>x. P x \<Longrightarrow> Q x) \<Longrightarrow> ensures m Q"
  by (auto simp: ensures_iff)

lemma ensures_conj: "ensures m P \<Longrightarrow> ensures m Q \<Longrightarrow> ensures m (\<lambda>x. P x \<and> Q x)"
  by (auto simp: ensures_iff)

lemma ensures_prod_case [simp]:
  "ensures (case z of (x, y) \<Rightarrow> f x y) P \<longleftrightarrow> (case z of (x, y) \<Rightarrow> ensures (f x y) P)"
  by (cases z) simp

definition ok :: "'a res \<Rightarrow> bool" where
  "ok m \<longleftrightarrow> ensures m (\<lambda>_. True)"

lemma ok_simps [simp]: "ok (Inr x)" "\<not> ok (Inl e)"
  by (auto simp: ok_def)

lemma ok_iff: "ok m \<longleftrightarrow> (\<exists>x. m = Inr x)"
  by (cases m) auto

text \<open>Element access as \<open>operator[]\<close> of a vector or an array: undefined out of range.\<close>

definition at :: "'a list \<Rightarrow> nat \<Rightarrow> 'a res" where
  "at xs i = (if i < length xs then Inr (xs ! i) else Inl Out_Of_Bounds)"

lemma at_Inr [simp]: "i < length xs \<Longrightarrow> at xs i = Inr (xs ! i)"
  by (simp add: at_def)

lemma at_Inr_iff: "at xs i = Inr x \<longleftrightarrow> i < length xs \<and> x = xs ! i"
  by (auto simp: at_def)

lemma ensures_at [simp]: "ensures (at xs i) P \<longleftrightarrow> i < length xs \<and> P (xs ! i)"
  by (simp add: at_def)

lemma at_Inl [simp]: "length xs \<le> i \<Longrightarrow> at xs i = Inl Out_Of_Bounds"
  by (simp add: at_def)

section \<open>Signed 32-bit arithmetic\<close>

definition in_i32 :: "int \<Rightarrow> bool" where
  "in_i32 v \<longleftrightarrow> - 2147483648 \<le> v \<and> v \<le> 2147483647"

definition i32 :: "int \<Rightarrow> int res" where
  "i32 v = (if in_i32 v then Inr v else Inl Signed_Overflow)"

lemma i32_Inr [simp]: "in_i32 v \<Longrightarrow> i32 v = Inr v"
  by (simp add: i32_def)

lemma i32_Inr_iff: "i32 v = Inr w \<longleftrightarrow> in_i32 v \<and> w = v"
  by (auto simp: i32_def)

lemma ensures_i32 [simp]: "ensures (i32 v) P \<longleftrightarrow> in_i32 v \<and> P v"
  by (simp add: i32_def)

lemma in_i32_mono: "in_i32 a \<Longrightarrow> in_i32 b \<Longrightarrow> a \<le> v \<Longrightarrow> v \<le> b \<Longrightarrow> in_i32 v"
  by (auto simp: in_i32_def)

lemma mod_neg: "- m \<le> v \<Longrightarrow> v < 0 \<Longrightarrow> v mod m = v + m" for v m :: int
  using mod_pos_pos_trivial [of "v + m" m] by simp

lemma unat_bound: "unat (w :: 'a::len word) < 2 ^ LENGTH('a)"
  by (rule unsigned_less)

lemma unat_drop_bit: "unat (drop_bit n w) = unat w div 2 ^ n" for w :: "'a::len word"
proof -
  have "unat (drop_bit n w) = drop_bit n (unat w)"
    by (simp only: unsigned_drop_bit_eq take_bit_nat_eq_self [OF unat_bound])
  then show ?thesis by (simp only: drop_bit_eq_div)
qed

section \<open>Counted loops\<close>

fun rfold :: "('a \<Rightarrow> 's \<Rightarrow> 's res) \<Rightarrow> 'a list \<Rightarrow> 's \<Rightarrow> 's res" where
  "rfold f [] s = Inr s"
| "rfold f (x # xs) s = rbind (f x s) (rfold f xs)"

lemma rfold_append: "rfold f (xs @ ys) s = rbind (rfold f xs s) (rfold f ys)"
proof (induction xs arbitrary: s)
  case (Cons x xs)
  then show ?case by (cases "f x s") auto
qed simp

lemma rfold_cong [fundef_cong]:
  assumes "xs = ys" and "s = t" and "\<And>x u. x \<in> set ys \<Longrightarrow> f x u = g x u"
  shows "rfold f xs s = rfold g ys t"
proof -
  from assms(3) have "rfold f ys t = rfold g ys t"
  proof (induction ys arbitrary: t)
    case (Cons y ys)
    then show ?case by (cases "g y t") auto
  qed simp
  with assms(1,2) show ?thesis by simp
qed

text \<open>A loop whose body never faults from a state of the invariant is a pure fold.\<close>

lemma rfold_pure:
  assumes "I s" and "\<And>x u. x \<in> set xs \<Longrightarrow> I u \<Longrightarrow> f x u = Inr (g x u) \<and> I (g x u)"
  shows "rfold f xs s = Inr (fold g xs s) \<and> I (fold g xs s)"
  using assms by (induction xs arbitrary: s) auto

text \<open>A loop whose iterations append to a list.\<close>

lemma rfold_extend:
  "(\<And>x s. x \<in> set xs \<Longrightarrow> f x s = Inr (s @ g x)) \<Longrightarrow> rfold f xs s = Inr (s @ concat (map g xs))"
  by (induction xs arbitrary: s) simp_all

text \<open>A counted loop with an invariant indexed by the iteration.\<close>

lemma rfold_upt:
  assumes "P 0 s" and "\<And>i u. i < n \<Longrightarrow> P i u \<Longrightarrow> ensures (f i u) (P (Suc i))"
  shows "ensures (rfold f [0..<n] s) (P n)"
  using assms(2)
proof (induction n)
  case 0
  with assms(1) show ?case by simp
next
  case (Suc n)
  then have "ensures (rfold f [0..<n] s) (P n)" by simp
  then have "ensures (rfold f [0..<n] s) (\<lambda>u. ensures (f n u) (P (Suc n)))"
    by (rule ensures_mono) (simp add: Suc.prems)
  then show ?case by (simp add: rfold_append)
qed

text \<open>A counted loop whose state after each iteration is known.\<close>

lemma rfold_steps:
  assumes "m \<le> n" and "\<And>i. m \<le> i \<Longrightarrow> i < n \<Longrightarrow> f i (P i) = Inr (P (Suc i))"
  shows "rfold f [m..<n] (P m) = Inr (P n)"
  using assms
proof (induction n)
  case (Suc n)
  then show ?case by (cases "m = Suc n") (auto simp: rfold_append)
qed simp

text \<open>A loop over the indices of a list that only reads the element at the index.\<close>

lemma rfold_nth:
  "n \<le> length xs \<Longrightarrow> rfold (\<lambda>i. f (xs ! i)) [0..<n] s = rfold f (take n xs) s"
proof (induction n)
  case (Suc n)
  then show ?case by (auto simp: rfold_append take_Suc_conv_app_nth intro!: rbind_cong)
qed simp

section \<open>Unbounded loops\<close>

fun run_while :: "('s \<Rightarrow> bool) \<Rightarrow> ('s \<Rightarrow> 's res) \<Rightarrow> nat \<Rightarrow> 's \<Rightarrow> 's res option" where
  "run_while b f 0 s = None"
| "run_while b f (Suc n) s =
     (if b s then (case f s of Inl e \<Rightarrow> Some (Inl e) | Inr t \<Rightarrow> run_while b f n t)
      else Some (Inr s))"

lemma run_while_stop [simp]: "\<not> b s \<Longrightarrow> run_while b f (Suc n) s = Some (Inr s)"
  by simp

lemma run_while_mono:
  "run_while b f n s = Some r \<Longrightarrow> run_while b f (n + k) s = Some r"
proof (induction n arbitrary: s)
  case (Suc n)
  then show ?case by (auto split: if_splits sum.splits)
qed simp

lemma run_while_le:
  "run_while b f n s = Some r \<Longrightarrow> n \<le> m \<Longrightarrow> run_while b f m s = Some r"
  using run_while_mono [of b f n s r "m - n"] by simp

text \<open>The result does not depend on the fuel.\<close>

lemma run_while_unique:
  "run_while b f n s = Some r \<Longrightarrow> run_while b f m s = Some q \<Longrightarrow> r = q"
  by (metis nle_le option.inject run_while_le)

text \<open>Partial correctness: an invariant that every step keeps without a fault.\<close>

lemma run_while_safe:
  assumes "run_while b f n s = Some r" and "I s"
    and "\<And>u. I u \<Longrightarrow> b u \<Longrightarrow> ensures (f u) I"
  shows "ensures r (\<lambda>t. I t \<and> \<not> b t)"
  using assms(1,2)
proof (induction n arbitrary: s)
  case (Suc n)
  show ?case
  proof (cases "b s")
    case True
    with assms(3) Suc.prems obtain v where "f s = Inr v" "I v" by (auto simp: ensures_iff)
    with Suc True show ?thesis by auto
  next
    case False
    with Suc.prems show ?thesis by auto
  qed
qed simp

text \<open>A measure that every step under the invariant decreases bounds the fuel.\<close>

lemma run_while_terminates:
  fixes \<mu> :: "'s \<Rightarrow> nat"
  assumes "I s" and "\<mu> s < n"
    and "\<And>u. I u \<Longrightarrow> b u \<Longrightarrow> ensures (f u) (\<lambda>v. I v \<and> \<mu> v < \<mu> u)"
  shows "\<exists>t. run_while b f n s = Some (Inr t) \<and> I t \<and> \<not> b t"
  using assms(1,2)
proof (induction n arbitrary: s)
  case (Suc n)
  show ?case
  proof (cases "b s")
    case True
    with assms(3) Suc.prems obtain v where "f s = Inr v" "I v" "\<mu> v < \<mu> s"
      by (auto simp: ensures_iff)
    with Suc.IH [of v] Suc.prems True show ?thesis by auto
  next
    case False
    with Suc.prems show ?thesis by auto
  qed
qed simp

text \<open>A set of states the loop cannot leave is a proof that it runs forever.\<close>

lemma run_while_diverges:
  assumes "I s" and "\<And>u. I u \<Longrightarrow> b u \<and> ensures (f u) I"
  shows "run_while b f n s = None"
  using assms(1)
proof (induction n arbitrary: s)
  case (Suc n)
  with assms(2) [of s] show ?case by (auto simp: ensures_iff)
qed simp

section \<open>Vectors and blocks\<close>

text \<open>Stores and unaligned vector loads and stores: undefined past the end.\<close>

definition upd :: "'a list \<Rightarrow> nat \<Rightarrow> 'a \<Rightarrow> 'a list res" where
  "upd xs i v = (if i < length xs then Inr (xs[i := v]) else Inl Out_Of_Bounds)"

definition loadu :: "'a list \<Rightarrow> nat \<Rightarrow> nat \<Rightarrow> 'a list res" where
  "loadu xs i n = (if i + n \<le> length xs then Inr (take n (drop i xs)) else Inl Out_Of_Bounds)"

definition storeu :: "'a list \<Rightarrow> nat \<Rightarrow> 'a list \<Rightarrow> 'a list res" where
  "storeu xs i ys =
     (if i + length ys \<le> length xs then Inr (take i xs @ ys @ drop (i + length ys) xs)
      else Inl Out_Of_Bounds)"

lemma upd_Inr [simp]: "i < length xs \<Longrightarrow> upd xs i v = Inr (xs[i := v])"
  by (simp add: upd_def)

lemma ensures_upd [simp]: "ensures (upd xs i v) P \<longleftrightarrow> i < length xs \<and> P (xs[i := v])"
  by (simp add: upd_def)

lemma loadu_Inr: "i + n \<le> length xs \<Longrightarrow> loadu xs i n = Inr (map (\<lambda>k. xs ! (i + k)) [0..<n])"
  by (auto simp: loadu_def intro!: nth_equalityI)

lemma storeu_Inr:
  "i + length ys \<le> length xs \<Longrightarrow>
   storeu xs i ys = Inr (map (\<lambda>k. if i \<le> k \<and> k < i + length ys then ys ! (k - i) else xs ! k) [0..<length xs])"
  by (auto simp: storeu_def nth_append min_def intro!: nth_equalityI)

lemma map2_map: "length xs = length ys \<Longrightarrow> map2 f xs ys = map (\<lambda>k. f (xs ! k) (ys ! k)) [0..<length ys]"
  by (auto intro!: nth_equalityI)

section \<open>Characters and lists\<close>

lemma byte_of_char [simp]: "char_of (unat (of_char c :: u8)) = c"
proof -
  have "unat (of_nat (of_char c) :: u8) = of_char c"
    by (simp only: unsigned_of_nat) (simp add: take_bit_nat_eq_self)
  moreover have "(of_nat (of_char c) :: u8) = of_char c" by (simp add: of_char_def)
  ultimately show ?thesis by simp
qed

definition left_pad :: "nat \<Rightarrow> 'a \<Rightarrow> 'a list \<Rightarrow> 'a list" where
  "left_pad n c xs = replicate (n - length xs) c @ xs"

lemma length_left_pad [simp]: "length (left_pad n c xs) = max n (length xs)"
  by (simp add: left_pad_def)

lemma set_left_pad: "set (left_pad n c xs) \<subseteq> insert c (set xs)"
  by (auto simp: left_pad_def)

text \<open>\<open>isspace\<close> in the C locale.\<close>

definition is_space :: "char \<Rightarrow> bool" where
  "is_space c \<longleftrightarrow> (let n = of_char c :: nat in n = 32 \<or> 9 \<le> n \<and> n \<le> 13)"

text \<open>\<open>std::string::find\<close>: the first position not before \<open>pos\<close> where \<open>pat\<close> occurs.\<close>

fun find_in :: "'a list \<Rightarrow> 'a list \<Rightarrow> nat \<Rightarrow> nat option" where
  "find_in pat [] i = (if pat = [] then Some i else None)"
| "find_in pat (c # s) i = (if take (length pat) (c # s) = pat then Some i else find_in pat s (Suc i))"

definition find_from :: "'a list \<Rightarrow> 'a list \<Rightarrow> nat \<Rightarrow> nat option" where
  "find_from pat s pos = (if pos \<le> length s then find_in pat (drop pos s) pos else None)"

text \<open>
  Paths: \<open>operator/\<close> of \<open>std::filesystem::path\<close> on POSIX, where an
  absolute right operand replaces the left one, and \<open>parent_path\<close>, which drops the last
  component with the slashes before it.
\<close>

definition path_append :: "string \<Rightarrow> string \<Rightarrow> string" where
  "path_append d p =
     (if take 1 p = ''/'' then p else if d = [] \<or> last d = CHR ''/'' then d @ p else d @ ''/'' @ p)"

definition parent_path :: "string \<Rightarrow> string" where
  "parent_path p =
     (let d = rev (dropWhile (\<lambda>c. c \<noteq> CHR ''/'') (rev p)); e = rev (dropWhile (\<lambda>c. c = CHR ''/'') (rev d))
      in if e = [] then d else e)"

lemma path_append_inj:
  "take 1 p \<noteq> ''/'' \<Longrightarrow> take 1 q \<noteq> ''/'' \<Longrightarrow> path_append d p = path_append d q \<longleftrightarrow> p = q"
  by (simp add: path_append_def)

definition substr :: "'a list \<Rightarrow> nat \<Rightarrow> nat \<Rightarrow> 'a list" where
  "substr s pos n = take n (drop pos s)"

lemma find_in_bounds: "find_in pat s i = Some k \<Longrightarrow> i \<le> k \<and> k + length pat \<le> i + length s"
proof (induction s arbitrary: i)
  case (Cons c s)
  show ?case
  proof (cases "take (length pat) (c # s) = pat")
    case True
    then have "length pat \<le> length (c # s)" by (metis length_take min.cobounded1)
    with True Cons.prems show ?thesis by simp
  next
    case False
    with Cons show ?thesis by fastforce
  qed
qed (simp split: if_splits)

lemma list_eq_take_drop:
  "take n xs = take n ys \<Longrightarrow> drop n xs = drop n ys \<Longrightarrow> xs = ys"
  by (metis append_take_drop_id)

end
