(* ===== verification/Battle.thy ===== *)
theory Battle
  imports Prelude
begin

text \<open>
  Creatures, items and the grid battle of \<open>item.hpp\<close> and \<open>battle.hpp\<close>
  (class \<open>BattleEngine\<close>). The board is a function of the coordinates; every read of the
  array \<open>board_[x][y]\<close> goes through \<open>board_read\<close>, which faults outside the
  8 by 8 grid. \<open>fight\<close> is a \<open>run_while\<close> over \<open>fight_step\<close>,
  one iteration of the loop; the state record holds the loop's local variables.
\<close>

section \<open>Items and creatures\<close>

record Item =
  item_id :: u32
  item_power :: int
  item_defense :: int
  item_stamina :: int

record CreatureStats =
  cid :: u32
  power :: int
  defense :: int
  stamina :: int
  items :: "Item list"

definition attach_item :: "CreatureStats \<Rightarrow> Item \<Rightarrow> CreatureStats" where
  "attach_item c item = c\<lparr>items := items c @ [item]\<rparr>"

fun erase_first :: "u32 \<Rightarrow> Item list \<Rightarrow> Item list" where
  "erase_first k [] = []"
| "erase_first k (it # its) = (if item_id it = k then its else it # erase_first k its)"

definition detach_item :: "CreatureStats \<Rightarrow> u32 \<Rightarrow> CreatureStats" where
  "detach_item c k = c\<lparr>items := erase_first k (items c)\<rparr>"

definition total_power :: "CreatureStats \<Rightarrow> int res" where
  "total_power c = rfold (\<lambda>i v. i32 (v + item_power i)) (items c) (power c)"

definition total_defense :: "CreatureStats \<Rightarrow> int res" where
  "total_defense c = rfold (\<lambda>i v. i32 (v + item_defense i)) (items c) (defense c)"

definition total_stamina :: "CreatureStats \<Rightarrow> int res" where
  "total_stamina c = rfold (\<lambda>i v. i32 (v + item_stamina i)) (items c) (stamina c)"

section \<open>The board\<close>

datatype Tile = EMPTY | WALL | HAZARD

type_synonym position = "int \<times> int"
type_synonym board = "position \<Rightarrow> Tile"

definition in_grid :: "position \<Rightarrow> bool" where
  "in_grid p \<longleftrightarrow> 0 \<le> fst p \<and> fst p < 8 \<and> 0 \<le> snd p \<and> snd p < 8"

definition clear_board :: board where
  "clear_board = (\<lambda>_. EMPTY)"

definition set_tile :: "board \<Rightarrow> int \<Rightarrow> int \<Rightarrow> Tile \<Rightarrow> board" where
  "set_tile bd x y t = (if x \<ge> 0 \<and> x < 8 \<and> y \<ge> 0 \<and> y < 8 then bd((x, y) := t) else bd)"

definition tile_at :: "board \<Rightarrow> int \<Rightarrow> int \<Rightarrow> Tile" where
  "tile_at bd x y = (if x \<ge> 0 \<and> x < 8 \<and> y \<ge> 0 \<and> y < 8 then bd (x, y) else WALL)"

definition board_read :: "board \<Rightarrow> position \<Rightarrow> Tile res" where
  "board_read bd p = (if in_grid p then Inr (bd p) else Inl Out_Of_Bounds)"

section \<open>One iteration of the loop of fight\<close>

record fight_state =
  posA :: position
  posB :: position
  hpA :: int
  hpB :: int
  staA :: int
  staB :: int
  blockA :: int
  blockB :: int
  a_turn :: bool

definition try_move :: "board \<Rightarrow> position \<Rightarrow> position \<Rightarrow> int \<Rightarrow> (bool \<times> position \<times> int) res" where
  "try_move bd n frm hp =
     (if fst n < 0 \<or> fst n \<ge> 8 \<or> snd n < 0 \<or> snd n \<ge> 8 then Inr (False, frm, hp)
      else rbind (board_read bd n) (\<lambda>t.
        if t = WALL then Inr (False, frm, hp)
        else if t = HAZARD then rbind (i32 (hp - 1)) (\<lambda>hp'. Inr (True, n, hp'))
        else Inr (True, n, hp)))"

definition direction :: "position \<Rightarrow> position \<Rightarrow> int \<times> int" where
  "direction frm to =
     (if fst frm < fst to then (1, 0)
      else if fst frm > fst to then (- 1, 0)
      else if snd frm < snd to then (0, 1)
      else if snd frm > snd to then (0, - 1)
      else (0, 0))"

definition step_towards :: "board \<Rightarrow> position \<Rightarrow> position \<Rightarrow> int \<Rightarrow> (position \<times> int) res" where
  "step_towards bd frm to hp =
     (let (dx, dy) = direction frm to in
      rbind (try_move bd (fst frm + dx, snd frm + dy) frm hp) (\<lambda>(moved, p, h).
        if \<not> moved then
          if dx \<noteq> 0 \<and> snd frm \<noteq> snd to then
            rbind (try_move bd (fst frm, snd frm + (if snd frm < snd to then 1 else - 1)) frm hp)
              (\<lambda>(_, p, h). Inr (p, h))
          else if dy \<noteq> 0 \<and> fst frm \<noteq> fst to then
            rbind (try_move bd (fst frm + (if fst frm < fst to then 1 else - 1), snd frm) frm hp)
              (\<lambda>(_, p, h). Inr (p, h))
          else Inr (p, h)
        else Inr (p, h)))"

definition distance :: "position \<Rightarrow> position \<Rightarrow> int" where
  "distance p q = \<bar>fst p - fst q\<bar> + \<bar>snd p - snd q\<bar>"

definition hit :: "int \<Rightarrow> int \<Rightarrow> int \<Rightarrow> (int \<times> int) res" where
  \<comment> \<open>the damage of one attack against the defender's \<open>block\<close> and the remaining health\<close>
  "hit dmg block hp =
     rbind (if block > 0 then rbind (i32 (dmg - block)) (\<lambda>d. Inr (if d < 0 then 0 else d, 0))
            else Inr (dmg, block))
       (\<lambda>(d, block'). rbind (i32 (hp - d)) (\<lambda>hp'. Inr (hp', block')))"

definition fight_on :: "fight_state \<Rightarrow> bool" where
  "fight_on s \<longleftrightarrow> hpA s > 0 \<and> hpB s > 0 \<and> (staA s > 0 \<or> staB s > 0)"

definition fight_step ::
    "board \<Rightarrow> CreatureStats \<Rightarrow> CreatureStats \<Rightarrow> fight_state \<Rightarrow> fight_state res" where
  "fight_step bd a b s =
     rbind
       (if a_turn s then
          if distance (posA s) (posB s) \<le> 1 then
            if staA s > 0 then
              rbind (total_power a) (\<lambda>dmg.
              rbind (hit dmg (blockB s) (hpB s)) (\<lambda>(hp, bl).
              rbind (i32 (staA s - 1)) (\<lambda>st.
                Inr (s\<lparr>hpB := hp, blockB := bl, staA := st\<rparr>))))
            else rbind (i32 (blockA s + 1)) (\<lambda>bl. Inr (s\<lparr>blockA := bl\<rparr>))
          else rbind (step_towards bd (posA s) (posB s) (hpA s)) (\<lambda>(p, hp).
            Inr (s\<lparr>posA := p, hpA := hp\<rparr>))
        else
          if distance (posA s) (posB s) \<le> 1 then
            if staB s > 0 then
              rbind (total_power b) (\<lambda>dmg.
              rbind (hit dmg (blockA s) (hpA s)) (\<lambda>(hp, bl).
              rbind (i32 (staB s - 1)) (\<lambda>st.
                Inr (s\<lparr>hpA := hp, blockA := bl, staB := st\<rparr>))))
            else rbind (i32 (blockB s + 1)) (\<lambda>bl. Inr (s\<lparr>blockB := bl\<rparr>))
          else rbind (step_towards bd (posB s) (posA s) (hpB s)) (\<lambda>(p, hp).
            Inr (s\<lparr>posB := p, hpB := hp\<rparr>)))
       (\<lambda>t. Inr (t\<lparr>a_turn := \<not> a_turn t\<rparr>))"

definition hazard_cost :: "board \<Rightarrow> position \<Rightarrow> int \<Rightarrow> int res" where
  "hazard_cost bd p hp =
     rbind (board_read bd p) (\<lambda>t. if t = HAZARD then i32 (hp - 1) else Inr hp)"

definition fight_start ::
    "board \<Rightarrow> CreatureStats \<Rightarrow> CreatureStats \<Rightarrow> u32 \<Rightarrow> fight_state res" where
  "fight_start bd a b seed =
     rbind (total_defense a) (\<lambda>hpA0. rbind (total_defense b) (\<lambda>hpB0.
     rbind (total_stamina a) (\<lambda>staA0. rbind (total_stamina b) (\<lambda>staB0.
       let s = (if seed \<noteq> 0 then seed else cid a XOR cid b) in
       rbind (hazard_cost bd (0, 0) hpA0) (\<lambda>hpA1. rbind (hazard_cost bd (7, 7) hpB0) (\<lambda>hpB1.
         Inr \<lparr>posA = (0, 0), posB = (7, 7), hpA = hpA1, hpB = hpB1, staA = staA0, staB = staB0,
              blockA = 0, blockB = 0, a_turn = (s AND 1 = 0)\<rparr>))))))"

definition fight_winner :: "CreatureStats \<Rightarrow> CreatureStats \<Rightarrow> fight_state \<Rightarrow> u32" where
  "fight_winner a b s = (if hpA s \<ge> hpB s then cid a else cid b)"

definition fight ::
    "nat \<Rightarrow> board \<Rightarrow> CreatureStats \<Rightarrow> CreatureStats \<Rightarrow> u32 \<Rightarrow> u32 res option" where
  "fight fuel bd a b seed =
     (case fight_start bd a b seed of
        Inl e \<Rightarrow> Some (Inl e)
      | Inr s \<Rightarrow> map_option (\<lambda>r. rbind r (\<lambda>t. Inr (fight_winner a b t)))
                   (run_while fight_on (fight_step bd a b) fuel s))"

section \<open>Moves\<close>

lemma try_move_ok:
  assumes "in_grid frm" and "0 < hp" and "in_i32 hp"
  shows "ensures (try_move bd n frm hp) (\<lambda>(m, p, h). in_grid p \<and> hp - 1 \<le> h \<and> h \<le> hp)"
proof -
  from assms(2,3) have "in_i32 (hp - 1)" by (auto simp: in_i32_def)
  with assms show ?thesis by (auto simp: try_move_def board_read_def in_grid_def)
qed

lemma try_move_open:
  assumes "bd n \<noteq> WALL" and "in_grid n" and "0 < hp" and "in_i32 hp"
  shows "ensures (try_move bd n frm hp) (\<lambda>(m, p, h). m \<and> p = n \<and> hp - 1 \<le> h \<and> h \<le> hp)"
proof -
  from assms(3,4) have "in_i32 (hp - 1)" by (auto simp: in_i32_def)
  with assms show ?thesis by (auto simp: try_move_def board_read_def in_grid_def)
qed

lemma step_towards_ok:
  assumes "in_grid frm" and "0 < hp" and "in_i32 hp"
  shows "ensures (step_towards bd frm to hp) (\<lambda>(p, h). in_grid p \<and> hp - 1 \<le> h \<and> h \<le> hp)"
proof -
  obtain dx dy where d: "direction frm to = (dx, dy)" by fastforce
  note t = try_move_ok [OF assms, of bd]
  show ?thesis
    unfolding step_towards_def d Let_def split ensures_simps
    by (rule ensures_mono [OF t]) (auto intro!: ensures_mono [OF t])
qed

lemma direction_closer:
  assumes "in_grid frm" and "in_grid to" and "direction frm to = (dx, dy)" and "frm \<noteq> to"
  shows "in_grid (fst frm + dx, snd frm + dy)"
    and "distance (fst frm + dx, snd frm + dy) to = distance frm to - 1"
  using assms by (auto simp: direction_def distance_def in_grid_def prod_eq_iff split: if_splits)

lemma step_towards_open:
  assumes "\<forall>p. bd p \<noteq> WALL" and "in_grid frm" and "in_grid to" and "distance frm to > 1"
    and "0 < hp" and "in_i32 hp"
  shows "ensures (step_towards bd frm to hp) (\<lambda>(p, h).
    in_grid p \<and> distance p to = distance frm to - 1 \<and> hp - 1 \<le> h \<and> h \<le> hp)"
proof -
  obtain dx dy where d: "direction frm to = (dx, dy)" by fastforce
  from assms(4) have "frm \<noteq> to" by (auto simp: distance_def)
  note c = direction_closer [OF assms(2,3) d this]
  note t = try_move_open [OF _ c(1) assms(5,6), of bd frm] 
  show ?thesis
    unfolding step_towards_def d Let_def split ensures_simps
    by (rule ensures_mono [OF t]) (use assms(1) c in auto)
qed

lemma distance_sym: "distance p q = distance q p"
  by (simp add: distance_def)

lemma hit_ok:
  assumes "0 \<le> dmg" and "in_i32 dmg" and "0 < hp" and "in_i32 hp" and "0 \<le> bl" and "bl \<le> 1"
  shows "ensures (hit dmg bl hp) (\<lambda>(h, bl'). bl' = 0 \<and> hp - dmg \<le> h \<and> h \<le> hp \<and> in_i32 h)"
  using assms by (auto simp: hit_def in_i32_def)


section \<open>The invariant of the loop\<close>

definition strength :: "CreatureStats \<Rightarrow> int \<Rightarrow> bool" where
  "strength c p \<longleftrightarrow> total_power c = Inr p \<and> 0 \<le> p \<and> in_i32 p"

definition fight_inv :: "fight_state \<Rightarrow> bool" where
  "fight_inv s \<longleftrightarrow>
     in_grid (posA s) \<and> in_grid (posB s) \<and>
     in_i32 (hpA s) \<and> in_i32 (hpB s) \<and> in_i32 (staA s) \<and> in_i32 (staB s) \<and>
     0 \<le> blockA s \<and> blockA s \<le> 1 \<and> 0 \<le> blockB s \<and> blockB s \<le> 1 \<and>
     (0 < blockA s \<longrightarrow> \<not> a_turn s \<and> distance (posA s) (posB s) \<le> 1 \<and> staA s \<le> 0) \<and>
     (0 < blockB s \<longrightarrow> a_turn s \<and> distance (posA s) (posB s) \<le> 1 \<and> staB s \<le> 0)"

lemma in_i32_hit: "in_i32 p \<Longrightarrow> 0 \<le> p \<Longrightarrow> in_i32 hp \<Longrightarrow> 0 < hp \<Longrightarrow> hp - p \<le> h \<Longrightarrow> h \<le> hp \<Longrightarrow> in_i32 h"
  by (auto simp: in_i32_def)

lemma fight_step_A:
  assumes inv: "fight_inv s" and on: "fight_on s" and "a_turn s" and a: "strength a p"
  shows "ensures (fight_step bd a b s) (\<lambda>t. fight_inv t \<and> \<not> a_turn t \<and>
    (if distance (posA s) (posB s) \<le> 1
     then posA t = posA s \<and> posB t = posB s \<and> staB t = staB s \<and>
       (if 0 < staA s then staA t = staA s - 1 else staA t = staA s)
     else posB t = posB s \<and> staA t = staA s \<and> staB t = staB s \<and>
       ((\<forall>p. bd p \<noteq> WALL) \<longrightarrow> distance (posA t) (posB t) = distance (posA s) (posB s) - 1)))"
proof (cases "distance (posA s) (posB s) \<le> 1")
  case True
  show ?thesis
  proof (cases "0 < staA s")
    case st: True
    have h: "ensures (hit p (blockB s) (hpB s))
        (\<lambda>(h, bl'). bl' = 0 \<and> hpB s - p \<le> h \<and> h \<le> hpB s \<and> in_i32 h)"
      using inv on a by (intro hit_ok) (auto simp: fight_inv_def fight_on_def strength_def)
    have "in_i32 (staA s - 1)" using inv st by (auto simp: fight_inv_def in_i32_def)
    then show ?thesis
      using True st inv a \<open>a_turn s\<close>
      by (auto simp: fight_step_def strength_def fight_inv_def intro!: ensures_mono [OF h])
  next
    case False
    then show ?thesis
      using True inv on \<open>a_turn s\<close>
      by (auto simp: fight_step_def fight_inv_def fight_on_def in_i32_def)
  qed
next
  case False
  have g: "in_grid (posA s)" "in_grid (posB s)" "0 < hpA s" "in_i32 (hpA s)"
    using inv on by (auto simp: fight_inv_def fight_on_def)
  have m: "ensures (step_towards bd (posA s) (posB s) (hpA s)) (\<lambda>(p, h). in_grid p \<and>
      in_i32 h \<and> ((\<forall>p. bd p \<noteq> WALL) \<longrightarrow> distance p (posB s) = distance (posA s) (posB s) - 1))"
  proof (cases "\<forall>p. bd p \<noteq> WALL")
    case True
    from step_towards_open [OF this g(1,2) _ g(3,4)] False g(3,4) show ?thesis
      by (auto elim!: ensures_mono simp: in_i32_def)
  next
    case w: False
    show ?thesis
      by (rule ensures_mono [OF step_towards_ok [OF g(1,3,4)]])
         (use w g(3,4) in \<open>auto simp: in_i32_def\<close>)
  qed
  then show ?thesis
    using False inv \<open>a_turn s\<close>
    by (auto simp: fight_step_def fight_inv_def intro!: ensures_mono [OF m])
qed


text \<open>
  The two halves of the loop body are mirror images: exchanging the creatures turns one
  into the other. Facts about the half of creature A carry over to creature B.
\<close>

definition mirror :: "fight_state \<Rightarrow> fight_state" where
  "mirror s = \<lparr>posA = posB s, posB = posA s, hpA = hpB s, hpB = hpA s, staA = staB s,
     staB = staA s, blockA = blockB s, blockB = blockA s, a_turn = (\<not> a_turn s)\<rparr>"

lemma mirror_sel [simp]:
  "posA (mirror s) = posB s" "posB (mirror s) = posA s" "hpA (mirror s) = hpB s"
  "hpB (mirror s) = hpA s" "staA (mirror s) = staB s" "staB (mirror s) = staA s"
  "blockA (mirror s) = blockB s" "blockB (mirror s) = blockA s" "a_turn (mirror s) = (\<not> a_turn s)"
  by (simp_all add: mirror_def)

lemma mirror_mirror [simp]: "mirror (mirror s) = s"
  by (simp add: mirror_def)

lemma fight_step_mirror:
  "ensures (fight_step bd a b s) P \<longleftrightarrow> ensures (fight_step bd b a (mirror s)) (\<lambda>t. P (mirror t))"
  by (cases s) (simp add: fight_step_def distance_sym mirror_def case_prod_beta)

lemma fight_inv_mirror [simp]: "fight_inv (mirror s) = fight_inv s"
  by (auto simp: fight_inv_def distance_sym)

lemma fight_on_mirror [simp]: "fight_on (mirror s) = fight_on s"
  by (auto simp: fight_on_def)

lemma fight_step_B:
  assumes "fight_inv s" and "fight_on s" and "\<not> a_turn s" and "strength b p"
  shows "ensures (fight_step bd a b s) (\<lambda>t. fight_inv t \<and> a_turn t \<and>
    (if distance (posA s) (posB s) \<le> 1
     then posA t = posA s \<and> posB t = posB s \<and> staA t = staA s \<and>
       (if 0 < staB s then staB t = staB s - 1 else staB t = staB s)
     else posA t = posA s \<and> staA t = staA s \<and> staB t = staB s \<and>
       ((\<forall>p. bd p \<noteq> WALL) \<longrightarrow> distance (posA t) (posB t) = distance (posA s) (posB s) - 1)))"
  unfolding fight_step_mirror [of bd a]
  by (rule ensures_mono [OF fight_step_A [of "mirror s" b p bd a]])
     (use assms in \<open>auto simp: distance_sym\<close>)


section \<open>The start of a fight\<close>

definition combatant :: "CreatureStats \<Rightarrow> int \<Rightarrow> int \<Rightarrow> int \<Rightarrow> bool" where
  "combatant c p d st \<longleftrightarrow> strength c p \<and>
     total_defense c = Inr d \<and> in_i32 d \<and> in_i32 (d - 1) \<and>
     total_stamina c = Inr st \<and> in_i32 st"

lemma hazard_cost_ok:
  "in_grid p \<Longrightarrow> in_i32 hp \<Longrightarrow> in_i32 (hp - 1) \<Longrightarrow>
     ensures (hazard_cost bd p hp) (\<lambda>h. in_i32 h \<and> h = (if bd p = HAZARD then hp - 1 else hp))"
  by (auto simp: hazard_cost_def board_read_def)

lemma corners [simp]: "in_grid (0, 0)" "in_grid (7, 7)"
  by (simp_all add: in_grid_def)

lemma fight_start_ok:
  assumes "combatant a pa da sa" and "combatant b pb db sb"
  shows "ensures (fight_start bd a b seed) (\<lambda>s. fight_inv s \<and> posA s = (0, 0) \<and> posB s = (7, 7) \<and>
    hpA s = (if bd (0, 0) = HAZARD then da - 1 else da) \<and>
    hpB s = (if bd (7, 7) = HAZARD then db - 1 else db) \<and> staA s = sa \<and> staB s = sb \<and>
    blockA s = 0 \<and> blockB s = 0 \<and>
    a_turn s = ((if seed \<noteq> 0 then seed else cid a XOR cid b) AND 1 = 0))"
  using assms
  by (auto simp: fight_start_def combatant_def fight_inv_def
      intro!: ensures_mono [OF hazard_cost_ok [of "(0, 0)" da bd]]
        ensures_mono [OF hazard_cost_ok [of "(7, 7)" db bd]])

lemma fight_cases:
  assumes "fight_start bd a b seed = Inr s"
  shows "fight fuel bd a b seed =
    map_option (\<lambda>r. rbind r (\<lambda>t. Inr (fight_winner a b t))) (run_while fight_on (fight_step bd a b) fuel s)"
  using assms by (simp add: fight_def)

section \<open>Safety: no fault on any board\<close>

lemma fight_step_inv:
  assumes "strength a pa" and "strength b pb" and "fight_inv s" and "fight_on s"
  shows "ensures (fight_step bd a b s) fight_inv"
proof (cases "a_turn s")
  case True
  show ?thesis
    by (rule ensures_mono [OF fight_step_A [OF assms(3,4) True assms(1)]]) simp
next
  case False
  show ?thesis
    by (rule ensures_mono [OF fight_step_B [OF assms(3,4) False assms(2)]]) simp
qed

section \<open>Termination\<close>

definition fight_measure :: "fight_state \<Rightarrow> nat" where
  "fight_measure s = nat (2 * distance (posA s) (posB s)) + 2 * nat (staA s) + 2 * nat (staB s) +
     (if (if a_turn s then staA s else staB s) \<le> 0 then 1 else 0)"

lemma fight_step_decreases:
  assumes "strength a pa" and "strength b pb" and "\<forall>p. bd p \<noteq> WALL" and "fight_inv s" and "fight_on s"
  shows "ensures (fight_step bd a b s) (\<lambda>t. fight_inv t \<and> fight_measure t < fight_measure s)"
proof (cases "a_turn s")
  case True
  show ?thesis
    by (rule ensures_mono [OF fight_step_A [OF assms(4,5) True assms(1)]])
       (use assms(3,5) True in \<open>auto simp: fight_measure_def fight_on_def split: if_splits\<close>)
next
  case False
  show ?thesis
    by (rule ensures_mono [OF fight_step_B [OF assms(4,5) False assms(2)]])
       (use assms(3,5) False in \<open>auto simp: fight_measure_def fight_on_def split: if_splits\<close>)
qed

lemma fight_ends:
  assumes "combatant a pa da sa" and "combatant b pb db sb" and "\<forall>p. bd p \<noteq> WALL"
    and "30 + 2 * nat sa + 2 * nat sb \<le> fuel"
  shows "\<exists>w. fight fuel bd a b seed = Some (Inr w) \<and> w \<in> {cid a, cid b}"
proof -
  from fight_start_ok [OF assms(1,2), of bd seed] obtain s
    where s: "fight_start bd a b seed = Inr s" "fight_inv s"
      and m: "fight_measure s < fuel"
    using assms(4) by (auto simp: ensures_iff fight_measure_def distance_def)
  have st: "strength a pa" "strength b pb" using assms(1,2) by (simp_all add: combatant_def)
  have "\<exists>t. run_while fight_on (fight_step bd a b) fuel s = Some (Inr t) \<and> fight_inv t \<and> \<not> fight_on t"
    using s(2) m fight_step_decreases [OF st assms(3)] by (rule run_while_terminates)
  then show ?thesis
    by (auto simp: fight_cases [OF s(1)] fight_winner_def)
qed

section \<open>Walled-in creatures\<close>

definition walled_A :: "board \<Rightarrow> bool" where
  "walled_A bd \<longleftrightarrow> bd (1, 0) = WALL \<and> bd (0, 1) = WALL"

definition walled_B :: "board \<Rightarrow> bool" where
  "walled_B bd \<longleftrightarrow> bd (6, 7) = WALL \<and> bd (7, 6) = WALL"

lemma walled_A_stays:
  assumes "walled_A bd" and "in_grid p" and "p \<noteq> (0, 0)"
  shows "step_towards bd (0, 0) p hp = Inr ((0, 0), hp)"
  using assms
  by (auto simp: step_towards_def try_move_def board_read_def direction_def walled_A_def in_grid_def
      prod_eq_iff)

lemma walled_B_stays:
  assumes "walled_B bd"
  shows "step_towards bd (7, 7) (0, 0) hp = Inr ((7, 7), hp)"
  using assms
  by (auto simp: step_towards_def try_move_def board_read_def direction_def walled_B_def in_grid_def)

definition kept_out :: "position \<Rightarrow> bool" where
  "kept_out p \<longleftrightarrow> in_grid p \<and> distance (0, 0) p > 1"

lemma try_move_kept_out:
  assumes "walled_A bd" and "\<forall>p. bd p \<noteq> HAZARD" and "kept_out frm"
    and "\<bar>fst n - fst frm\<bar> + \<bar>snd n - snd frm\<bar> \<le> 1"
  shows "ensures (try_move bd n frm hp) (\<lambda>(m, p, h). kept_out p \<and> h = hp)"
proof (cases "in_grid n \<and> distance (0, 0) n \<le> 1")
  case True
  then have "n = (0, 1) \<or> n = (1, 0)"
    using assms(3,4) by (cases n; cases frm) (auto simp: in_grid_def distance_def kept_out_def)
  then show ?thesis
    using assms by (auto simp: try_move_def board_read_def in_grid_def walled_A_def)
next
  case False
  then show ?thesis
    using assms assms(2) [rule_format, of n]
    by (auto simp: try_move_def board_read_def in_grid_def kept_out_def)
qed

lemma step_towards_kept_out:
  assumes "walled_A bd" and "\<forall>p. bd p \<noteq> HAZARD" and "kept_out frm"
  shows "ensures (step_towards bd frm to hp) (\<lambda>(p, h). kept_out p \<and> h = hp)"
proof -
  obtain dx dy where d: "direction frm to = (dx, dy)" by fastforce
  then have "\<bar>dx\<bar> + \<bar>dy\<bar> \<le> 1" by (auto simp: direction_def split: if_splits)
  then show ?thesis
    unfolding step_towards_def d Let_def split ensures_simps
    by (intro ensures_mono [OF try_move_kept_out [OF assms]])
       (auto intro!: ensures_mono [OF try_move_kept_out [OF assms]])
qed


text \<open>
  While creature A cannot leave its corner and nobody can stand next to it, no attack
  happens and no health is lost, so the loop never ends.
\<close>

definition besieged :: "fight_state \<Rightarrow> bool" where
  "besieged s \<longleftrightarrow> posA s = (0, 0) \<and> kept_out (posB s) \<and> fight_on s"

lemma besieged_step:
  assumes "walled_A bd" and "\<forall>p. bd p \<noteq> HAZARD" and "besieged s"
  shows "ensures (fight_step bd a b s) besieged"
proof (cases "a_turn s")
  case True
  have "step_towards bd (posA s) (posB s) (hpA s) = Inr (posA s, hpA s)"
    using walled_A_stays [OF assms(1), of "posB s" "hpA s"] assms(3)
    by (cases "posB s = (0, 0)") (auto simp: besieged_def kept_out_def distance_def)
  with True assms(3) show ?thesis
    by (auto simp: fight_step_def besieged_def kept_out_def fight_on_def)
next
  case False
  have k: "kept_out (posB s)" using assms(3) by (simp add: besieged_def)
  show ?thesis
    using False assms(3) k
    by (auto simp: fight_step_def besieged_def kept_out_def fight_on_def
        intro!: ensures_mono [OF step_towards_kept_out [OF assms(1,2) k]])
qed

definition both_walled :: "fight_state \<Rightarrow> bool" where
  "both_walled s \<longleftrightarrow> posA s = (0, 0) \<and> posB s = (7, 7) \<and> fight_on s"

lemma both_walled_step:
  assumes "walled_A bd" and "walled_B bd" and "both_walled s"
  shows "ensures (fight_step bd a b s) both_walled"
  using assms walled_A_stays [OF assms(1), of "(7, 7)"] walled_B_stays [OF assms(2)]
  by (auto simp: fight_step_def both_walled_def fight_on_def distance_def)

lemma kept_out_far [simp]: "kept_out (7, 7)"
  by (simp add: kept_out_def in_grid_def distance_def)

lemma fight_start_diverges:
  assumes "fight_start bd a b seed = Inr s" and "I s"
    and "\<And>u. I u \<Longrightarrow> fight_on u \<and> ensures (fight_step bd a b u) I"
  shows "fight fuel bd a b seed = None"
  using run_while_diverges [of I s fight_on "fight_step bd a b" fuel] assms(2,3)
  by (simp add: fight_cases [OF assms(1)])

section \<open>The layouts of the design document\<close>

text \<open>
  \<open>docs/BattlefieldDesign.md\<close>, section 6.1 "Wall Corridor", row by row with the origin in
  the top-left corner (the layout is symmetric under a rotation of the board by 180 degrees).
\<close>

definition layout :: "string list \<Rightarrow> board" where
  "layout rows p =
     (if in_grid p then
        (let c = rows ! nat (snd p) ! nat (fst p)
         in if c = CHR ''W'' then WALL else if c = CHR ''H'' then HAZARD else EMPTY)
      else EMPTY)"

definition wall_corridor :: board where
  "wall_corridor = layout
     [''WWWWWWWW'', ''W......W'', ''W.WWWW.W'', ''W......W'',
      ''W......W'', ''W.WWWW.W'', ''W......W'', ''WWWWWWWW'']"

definition corner_forts :: board where
  "corner_forts = layout
     [''WWWWWWWW'', ''W......W'', ''W.H..H.W'', ''W......W'',
      ''W..WW..W'', ''W......W'', ''W.H..H.W'', ''WWWWWWWW'']"

lemma wall_corridor_walled: "walled_A wall_corridor" "walled_B wall_corridor"
  by (simp_all add: walled_A_def walled_B_def wall_corridor_def layout_def in_grid_def)

lemma corner_forts_walled: "walled_A corner_forts" "walled_B corner_forts"
  by (simp_all add: walled_A_def walled_B_def corner_forts_def layout_def in_grid_def)

lemma layout_corner:
  "hd (hd rows) = CHR ''W'' \<Longrightarrow> rows \<noteq> [] \<Longrightarrow> hd rows \<noteq> [] \<Longrightarrow> layout rows (0, 0) = WALL"
  by (simp add: layout_def hd_conv_nth)

section \<open>The approach on an open board\<close>

lemma clear_board_step:
  assumes "in_grid (x, y)" and "in_grid (x', y')"
  shows "step_towards clear_board (x, y) (x', y') hp = Inr
     ((if x < x' then (x + 1, y) else if x > x' then (x - 1, y)
       else if y < y' then (x, y + 1) else if y > y' then (x, y - 1) else (x, y)), hp)"
  using assms by (auto simp: step_towards_def direction_def try_move_def board_read_def clear_board_def in_grid_def)

lemma run_while_Suc:
  "b s \<Longrightarrow> f s = Inr t \<Longrightarrow> run_while b f (Suc n) s = run_while b f n t"
  by simp

lemma plus_13: "n + 13 = Suc (Suc (Suc (Suc (Suc (Suc (Suc (Suc (Suc (Suc (Suc (Suc (Suc n))))))))))))" for n :: nat
  by simp

lemma approach:
  assumes "posA s = (0, 0)" and "posB s = (7, 7)" and "fight_on s"
  shows "run_while fight_on (fight_step clear_board a b) (n + 13) s =
    run_while fight_on (fight_step clear_board a b) n
      (s\<lparr>posA := if a_turn s then (4, 3) else (3, 3), posB := if a_turn s then (4, 4) else (3, 4),
         a_turn := \<not> a_turn s\<rparr>)"
proof -
  obtain hA hB sA sB bA bB t where s: "s = \<lparr>posA = (0, 0), posB = (7, 7), hpA = hA, hpB = hB, staA = sA,
      staB = sB, blockA = bA, blockB = bB, a_turn = t\<rparr>"
    using assms by (cases s) auto
  have g: "0 < hA" "0 < hB" "0 < sA \<or> 0 < sB" using assms(3) by (auto simp: s fight_on_def)
  show ?thesis
    using g by (cases t)
      (simp_all only: plus_13 s, simp_all add: fight_on_def fight_step_def clear_board_step distance_def in_grid_def)
qed

section \<open>The duel a fight comes down to\<close>

text \<open>
  The abstract fight has no board and no machine arithmetic: two duelists take turns, the one
  to move strikes if it has stamina left and guards otherwise, and a guard absorbs one point
  of the next blow.
\<close>

record duelist =
  health :: int
  breath :: int
  guard :: int

definition duel_turn :: "int \<Rightarrow> duelist \<Rightarrow> duelist \<Rightarrow> duelist \<times> duelist" where
  "duel_turn p x y =
     (if 0 < breath x
      then (x\<lparr>breath := breath x - 1\<rparr>, y\<lparr>health := health y - max 0 (p - guard y), guard := 0\<rparr>)
      else (x\<lparr>guard := guard x + 1\<rparr>, y))"

fun duel :: "nat \<Rightarrow> int \<Rightarrow> int \<Rightarrow> duelist \<Rightarrow> duelist \<Rightarrow> bool \<Rightarrow> bool option" where
  "duel 0 p q x y t = None"
| "duel (Suc n) p q x y t =
     (if 0 < health x \<and> 0 < health y \<and> (0 < breath x \<or> 0 < breath y)
      then if t then (case duel_turn p x y of (x', y') \<Rightarrow> duel n p q x' y' False)
           else (case duel_turn q y x of (y', x') \<Rightarrow> duel n p q x' y' True)
      else Some (health y \<le> health x))"

definition duelA :: "fight_state \<Rightarrow> duelist" where
  "duelA s = \<lparr>health = hpA s, breath = staA s, guard = blockA s\<rparr>"

definition duelB :: "fight_state \<Rightarrow> duelist" where
  "duelB s = \<lparr>health = hpB s, breath = staB s, guard = blockB s\<rparr>"

lemma hit_eq:
  assumes "0 \<le> dmg" and "in_i32 dmg" and "0 < hp" and "in_i32 hp" and "0 \<le> bl" and "bl \<le> 1"
  shows "hit dmg bl hp = Inr (hp - max 0 (dmg - bl), 0)"
  using assms by (auto simp: hit_def in_i32_def i32_def)

lemma duel_step_A:
  assumes "fight_inv s" and "fight_on s" and "a_turn s" and "distance (posA s) (posB s) \<le> 1"
    and "strength a p"
  shows "ensures (fight_step bd a b s) (\<lambda>t. duel_turn p (duelA s) (duelB s) = (duelA t, duelB t) \<and>
    \<not> a_turn t \<and> posA t = posA s \<and> posB t = posB s)"
proof -
  have "hit p (blockB s) (hpB s) = Inr (hpB s - max 0 (p - blockB s), 0)"
    by (rule hit_eq) (use assms in \<open>auto simp: fight_inv_def fight_on_def strength_def\<close>)
  then show ?thesis
    using assms by (auto simp: fight_step_def strength_def duel_turn_def duelA_def duelB_def fight_inv_def in_i32_def)
qed

lemma duelA_mirror [simp]: "duelA (mirror s) = duelB s" "duelB (mirror s) = duelA s"
  by (simp_all add: duelA_def duelB_def)

lemma duel_step_B:
  assumes "fight_inv s" and "fight_on s" and "\<not> a_turn s" and "distance (posA s) (posB s) \<le> 1"
    and "strength b p"
  shows "ensures (fight_step bd a b s) (\<lambda>t. duel_turn p (duelB s) (duelA s) = (duelB t, duelA t) \<and>
    a_turn t \<and> posA t = posA s \<and> posB t = posB s)"
  unfolding fight_step_mirror [of bd a]
  by (rule ensures_mono [OF duel_step_A [of "mirror s" b p bd a]])
     (use assms in \<open>auto simp: distance_sym\<close>)

lemma duel_simulation:
  assumes "strength a p" and "strength b q"
  shows "fight_inv s \<Longrightarrow> distance (posA s) (posB s) \<le> 1 \<Longrightarrow>
    map_option (\<lambda>r. rbind r (\<lambda>t. Inr (fight_winner a b t)))
      (run_while fight_on (fight_step bd a b) n s) =
    map_option (\<lambda>w. Inr (if w then cid a else cid b)) (duel n p q (duelA s) (duelB s) (a_turn s))"
proof (induction n arbitrary: s)
  case (Suc n)
  show ?case
  proof (cases "fight_on s")
    case on: True
    have D: "0 < health (duelA s)" "0 < health (duelB s)" "0 < breath (duelA s) \<or> 0 < breath (duelB s)"
      using on by (auto simp: fight_on_def duelA_def duelB_def)
    note inv = fight_step_inv [OF assms Suc.prems(1) on, of bd]
    show ?thesis
    proof (cases "a_turn s")
      case True
      from ensures_conj [OF inv duel_step_A [OF Suc.prems(1) on True Suc.prems(2) assms(1)]]
      obtain t where "fight_step bd a b s = Inr t" "fight_inv t" "\<not> a_turn t"
        "duel_turn p (duelA s) (duelB s) = (duelA t, duelB t)" "posA t = posA s" "posB t = posB s"
        by (auto simp: ensures_iff)
      then show ?thesis using Suc.IH [of t] Suc.prems on True D by simp
    next
      case False
      from ensures_conj [OF inv duel_step_B [OF Suc.prems(1) on False Suc.prems(2) assms(2)]]
      obtain t where "fight_step bd a b s = Inr t" "fight_inv t" "a_turn t"
        "duel_turn q (duelB s) (duelA s) = (duelB t, duelA t)" "posA t = posA s" "posB t = posB s"
        by (auto simp: ensures_iff)
      then show ?thesis using Suc.IH [of t] Suc.prems on False D by simp
    qed
  next
    case False
    then show ?thesis
      by (auto simp: fight_on_def duelA_def duelB_def fight_winner_def)
  qed
qed simp

section \<open>Properties\<close>

definition basic :: "u32 \<Rightarrow> int \<Rightarrow> int \<Rightarrow> int \<Rightarrow> CreatureStats" where
  "basic i p d st = \<lparr>cid = i, power = p, defense = d, stamina = st, items = []\<rparr>"

lemma combatant_basic [simp]:
  "combatant (basic i p d st) p d st \<longleftrightarrow>
     0 \<le> p \<and> in_i32 p \<and> in_i32 d \<and> in_i32 (d - 1) \<and> in_i32 st"
  by (auto simp: combatant_def strength_def basic_def total_power_def total_defense_def
      total_stamina_def)

text \<open>
  C24: on any board, a fight between creatures whose totals (and total defense minus one) fit an
  \<open>int\<close> and whose total power is not negative never overflows and never reads outside
  the board: whenever it returns, it returns the id of one of the two creatures.
\<close>

theorem fight_safe:
  assumes "combatant a pa da sa" and "combatant b pb db sb"
    and "fight fuel bd a b seed = Some r"
  shows "r = Inr (cid a) \<or> r = Inr (cid b)"
proof -
  from fight_start_ok [OF assms(1,2), of bd seed] obtain s
    where s: "fight_start bd a b seed = Inr s" "fight_inv s" by (auto simp: ensures_iff)
  from assms(3) obtain q where q: "run_while fight_on (fight_step bd a b) fuel s = Some q"
    and r: "r = rbind q (\<lambda>t. Inr (fight_winner a b t))"
    by (auto simp: fight_cases [OF s(1)])
  have st: "strength a pa" "strength b pb" using assms(1,2) by (simp_all add: combatant_def)
  have "ensures q (\<lambda>t. fight_inv t \<and> \<not> fight_on t)"
    using q s(2) fight_step_inv [OF st] by (rule run_while_safe)
  then show ?thesis
    using r by (auto simp: ensures_iff fight_winner_def)
qed

lemma fight_safe_witness:
  "fight 100 corner_forts (basic 1 5 0 3) (basic 2 4 9 2) 7 = Some (Inr 2) \<and>
   (Inr 2 = (Inr (cid (basic 1 5 0 3)) :: u32 res) \<or> Inr 2 = (Inr (cid (basic 2 4 9 2)) :: u32 res))"
proof -
  have f: "fight 100 corner_forts (basic 1 5 0 3) (basic 2 4 9 2) 7 = Some (Inr 2)" by code_simp
  have "combatant (basic 1 5 0 3) 5 0 3" "combatant (basic 2 4 9 2) 4 9 2"
    by (simp_all add: in_i32_def)
  from fight_safe [OF this f] f show ?thesis by blast
qed

text \<open>
  C1: on a board without walls every fight ends: \<open>30 + 2 * (staminaA + staminaB)\<close> iterations
  are enough (28 for the approach across the grid, two for every attack), whatever the hazards.
\<close>

theorem fight_terminates:
  assumes "combatant a pa da sa" and "combatant b pb db sb" and "\<forall>p. bd p \<noteq> WALL"
    and "30 + 2 * nat sa + 2 * nat sb \<le> fuel"
  shows "\<exists>w. fight fuel bd a b seed = Some (Inr w) \<and> w \<in> {cid a, cid b}"
  using assms by (rule fight_ends)

lemma fight_terminates_witness:
  "\<exists>w. fight 40 (set_tile clear_board 1 0 HAZARD) (basic 1 1 1 1) (basic 2 1 1 1) 0 = Some (Inr w) \<and>
     w \<in> {cid (basic 1 1 1 1), cid (basic 2 1 1 1)}"
  by (rule fight_terminates [of _ 1 1 1 _ 1 1 1])
     (simp_all add: in_i32_def set_tile_def clear_board_def)

text \<open>
  C38: a board can make a fight run forever. If the two neighbours of creature A's starting
  corner are walls and either there is no hazard or creature B's corner is walled in too, then
  a fight in which both creatures start with health and one of them with stamina never returns:
  the fuel runs out, however much there is.
\<close>

theorem fight_walled_in_diverges:
  assumes "combatant a pa da sa" and "combatant b pb db sb" and "walled_A bd"
    and "(\<forall>p. bd p \<noteq> HAZARD) \<or> walled_B bd \<and> bd (0, 0) \<noteq> HAZARD \<and> bd (7, 7) \<noteq> HAZARD"
    and "0 < da" and "0 < db" and "0 < sa \<or> 0 < sb"
  shows "fight fuel bd a b seed = None"
proof -
  from fight_start_ok [OF assms(1,2), of bd seed] assms(4-7) obtain s
    where s: "fight_start bd a b seed = Inr s" "posA s = (0, 0)" "posB s = (7, 7)" "fight_on s"
    by (auto simp: ensures_iff fight_on_def)
  show ?thesis
  proof (cases "\<forall>p. bd p \<noteq> HAZARD")
    case True
    have "besieged s" using s by (simp add: besieged_def)
    with s(1) show ?thesis
      by (rule fight_start_diverges) (use besieged_step [OF assms(3) True] besieged_def in blast)
  next
    case False
    with assms(4) have B: "walled_B bd" by blast
    have "both_walled s" using s by (simp add: both_walled_def)
    with s(1) show ?thesis
      by (rule fight_start_diverges) (use both_walled_step [OF assms(3) B] both_walled_def in blast)
  qed
qed

lemma fight_walled_in_diverges_witness:
  "\<forall>fuel. fight fuel wall_corridor (basic 1 10 8 6) (basic 2 10 8 6) 0 = None \<and>
     fight fuel corner_forts (basic 1 10 8 6) (basic 2 10 8 6) 0 = None"
proof -
  have c: "combatant (basic 1 10 8 6) 10 8 6" "combatant (basic 2 10 8 6) 10 8 6"
    by (simp_all add: in_i32_def)
  have w: "wall_corridor (0, 0) = WALL" "wall_corridor (7, 7) = WALL"
    "corner_forts (0, 0) = WALL" "corner_forts (7, 7) = WALL"
    by (simp_all add: wall_corridor_def corner_forts_def layout_def in_grid_def)
  show ?thesis
    using fight_walled_in_diverges [OF c wall_corridor_walled(1)]
      fight_walled_in_diverges [OF c corner_forts_walled(1)] wall_corridor_walled corner_forts_walled w
    by simp
qed

text \<open>
  C2: on an empty board the fight is the abstract duel. The approach takes exactly 13 moves and
  costs nothing, so the creature that does not hold the starting turn strikes first.
\<close>

theorem fight_refines_duel:
  assumes "combatant a pa da sa" and "combatant b pb db sb"
    and "0 < da" and "0 < db" and "0 < sa \<or> 0 < sb"
  shows "fight (n + 13) clear_board a b seed =
    map_option (\<lambda>w. Inr (if w then cid a else cid b))
      (duel n pa pb \<lparr>health = da, breath = sa, guard = 0\<rparr> \<lparr>health = db, breath = sb, guard = 0\<rparr>
        ((if seed \<noteq> 0 then seed else cid a XOR cid b) AND 1 \<noteq> 0))"
proof -
  from fight_start_ok [OF assms(1,2), of clear_board seed] assms(3-5) obtain s
    where s: "fight_start clear_board a b seed = Inr s" "fight_inv s" "posA s = (0, 0)" "posB s = (7, 7)"
      "fight_on s" "duelA s = \<lparr>health = da, breath = sa, guard = 0\<rparr>"
      "duelB s = \<lparr>health = db, breath = sb, guard = 0\<rparr>"
      "a_turn s = ((if seed \<noteq> 0 then seed else cid a XOR cid b) AND 1 = 0)"
      "blockA s = 0" "blockB s = 0"
    by (auto simp: ensures_iff fight_on_def duelA_def duelB_def clear_board_def)
  define t where "t = s\<lparr>posA := if a_turn s then (4, 3) else (3, 3),
    posB := if a_turn s then (4, 4) else (3, 4), a_turn := \<not> a_turn s\<rparr>"
  have t: "fight_inv t" "distance (posA t) (posB t) \<le> 1" "duelA t = duelA s" "duelB t = duelB s"
    using s by (auto simp: t_def fight_inv_def in_grid_def distance_def duelA_def duelB_def)
  have st: "strength a pa" "strength b pb" using assms(1,2) by (simp_all add: combatant_def)
  have "fight (n + 13) clear_board a b seed =
      map_option (\<lambda>r. rbind r (\<lambda>t. Inr (fight_winner a b t)))
        (run_while fight_on (fight_step clear_board a b) n t)"
    by (simp only: fight_cases [OF s(1)] approach [OF s(3-5)] t_def)
  also have "\<dots> = map_option (\<lambda>w. Inr (if w then cid a else cid b))
      (duel n pa pb (duelA t) (duelB t) (a_turn t))"
    by (rule duel_simulation [OF st t(1,2)])
  finally show ?thesis using s t by (simp add: t_def)
qed

lemma fight_refines_duel_witness:
  "fight (3 + 13) clear_board (basic 1 9 4 1) (basic 2 9 4 1) 2 =
     map_option (\<lambda>w. Inr (if w then 1 else 2))
       (duel 3 9 9 \<lparr>health = 4, breath = 1, guard = 0\<rparr> \<lparr>health = 4, breath = 1, guard = 0\<rparr> False) \<and>
   fight (3 + 13) clear_board (basic 1 9 4 1) (basic 2 9 4 1) 2 = Some (Inr 2)"
proof -
  have c: "combatant (basic 1 9 4 1) 9 4 1" "combatant (basic 2 9 4 1) 9 4 1"
    by (simp_all add: in_i32_def)
  have d: "duel 3 9 9 \<lparr>health = 4, breath = 1, guard = 0\<rparr> \<lparr>health = 4, breath = 1, guard = 0\<rparr> False = Some False"
    by code_simp
  show ?thesis
    using fight_refines_duel [OF c, of 3 2] d by (simp add: basic_def)
qed

end
