(* ===== verification/Battle_Animation.thy ===== *)
theory Battle_Animation
  imports Battle
begin

text \<open>
  The battle animation of \<open>include/neuropet/battle_animation.hpp\<close>: a duel without a
  board whose turns are drawn from a 32-bit xorshift generator, recorded frame by frame, and the
  replay that checks the frames. The loop of \<open>run\<close> is a \<open>run_while\<close>; the
  frames recorded so far are part of its state.
\<close>

section \<open>Recording\<close>

record BattleFrame =
  attacker_is_a :: bool
  hp_a :: int
  hp_b :: int
  stamina_a :: int
  stamina_b :: int

definition xorshift :: "u32 \<Rightarrow> u32" where
  "xorshift s =
     (let s = s XOR push_bit 13 s; s = s XOR drop_bit 17 s; s = s XOR push_bit 5 s in s)"

record anim_state =
  rng :: u32
  a_turn :: bool
  aHP :: int
  bHP :: int
  aSta :: int
  bSta :: int
  frames :: "BattleFrame list"

definition anim_on :: "anim_state \<Rightarrow> bool" where
  "anim_on s \<longleftrightarrow> aHP s > 0 \<and> bHP s > 0 \<and> (aSta s > 0 \<or> bSta s > 0)"

definition record_frame :: "bool \<Rightarrow> anim_state \<Rightarrow> anim_state" where
  "record_frame is_a s = s\<lparr>frames := frames s @
     [\<lparr>attacker_is_a = is_a, hp_a = aHP s, hp_b = bHP s, stamina_a = aSta s, stamina_b = bSta s\<rparr>]\<rparr>"

definition next_turn :: "anim_state \<Rightarrow> anim_state" where
  "next_turn s = (let r = xorshift (rng s) in s\<lparr>rng := r, a_turn := bit r 0\<rparr>)"

definition a_attacks :: "CreatureStats \<Rightarrow> anim_state \<Rightarrow> anim_state res" where
  "a_attacks a s =
     rbind (total_power a) (\<lambda>p. rbind (i32 (bHP s - p)) (\<lambda>hp. rbind (i32 (aSta s - 1)) (\<lambda>st.
     Inr (s\<lparr>bHP := hp, aSta := st\<rparr>))))"

definition b_attacks :: "CreatureStats \<Rightarrow> anim_state \<Rightarrow> anim_state res" where
  "b_attacks b s =
     rbind (total_power b) (\<lambda>p. rbind (i32 (aHP s - p)) (\<lambda>hp. rbind (i32 (bSta s - 1)) (\<lambda>st.
     Inr (s\<lparr>aHP := hp, bSta := st\<rparr>))))"

definition anim_step :: "CreatureStats \<Rightarrow> CreatureStats \<Rightarrow> anim_state \<Rightarrow> anim_state res" where
  "anim_step a b s =
     rbind (if a_turn s \<and> aSta s > 0 then rbind (a_attacks a s) (\<lambda>s. Inr (record_frame True s))
            else if \<not> a_turn s \<and> bSta s > 0 then rbind (b_attacks b s) (\<lambda>s. Inr (record_frame False s))
            else Inr s) (\<lambda>s. Inr (next_turn s))"

definition anim_start :: "CreatureStats \<Rightarrow> CreatureStats \<Rightarrow> u32 \<Rightarrow> anim_state res" where
  "anim_start a b seed =
     (let state = (if seed \<noteq> 0 then seed else cid a XOR cid b) in
      rbind (total_defense a) (\<lambda>ha. rbind (total_defense b) (\<lambda>hb.
      rbind (total_stamina a) (\<lambda>sa. rbind (total_stamina b) (\<lambda>sb.
      Inr (next_turn \<lparr>rng = state, a_turn = False, aHP = ha, bHP = hb, aSta = sa, bSta = sb, frames = []\<rparr>))))))"

definition run :: "nat \<Rightarrow> CreatureStats \<Rightarrow> CreatureStats \<Rightarrow> u32 \<Rightarrow> (BattleFrame list \<times> u32) res option" where
  \<comment> \<open>the animator's members after \<open>run\<close>: its frames and the winner\<close>
  "run fuel a b seed =
     (case anim_start a b seed of
        Inl e \<Rightarrow> Some (Inl e)
      | Inr s \<Rightarrow> map_option (\<lambda>r. rbind r (\<lambda>t. Inr (frames t, if aHP t \<ge> bHP t then cid a else cid b)))
                  (run_while anim_on (anim_step a b) fuel s))"

section \<open>Replaying\<close>

fun replay_frames ::
    "CreatureStats \<Rightarrow> CreatureStats \<Rightarrow> BattleFrame list \<Rightarrow> int \<Rightarrow> int \<Rightarrow> int \<Rightarrow> int \<Rightarrow> u32 res" where
  "replay_frames a b [] ha hb sa sb = Inr (if ha \<ge> hb then cid a else cid b)"
| "replay_frames a b (f # fs) ha hb sa sb =
     (if attacker_is_a f then
        if sa \<le> 0 then Inr 0
        else rbind (total_power a) (\<lambda>p. rbind (i32 (hb - p)) (\<lambda>hb. rbind (i32 (sa - 1)) (\<lambda>sa.
          if hp_a f \<noteq> ha \<or> hp_b f \<noteq> hb \<or> stamina_a f \<noteq> sa \<or> stamina_b f \<noteq> sb then Inr 0
          else replay_frames a b (if ha \<le> 0 \<or> hb \<le> 0 \<or> sa \<le> 0 \<and> sb \<le> 0 then [] else fs) ha hb sa sb)))
      else
        if sb \<le> 0 then Inr 0
        else rbind (total_power b) (\<lambda>p. rbind (i32 (ha - p)) (\<lambda>ha. rbind (i32 (sb - 1)) (\<lambda>sb.
          if hp_a f \<noteq> ha \<or> hp_b f \<noteq> hb \<or> stamina_a f \<noteq> sa \<or> stamina_b f \<noteq> sb then Inr 0
          else replay_frames a b (if ha \<le> 0 \<or> hb \<le> 0 \<or> sa \<le> 0 \<and> sb \<le> 0 then [] else fs) ha hb sa sb))))"

definition replay :: "CreatureStats \<Rightarrow> CreatureStats \<Rightarrow> BattleFrame list \<Rightarrow> u32 res" where
  "replay a b fs =
     rbind (total_defense a) (\<lambda>ha. rbind (total_defense b) (\<lambda>hb.
     rbind (total_stamina a) (\<lambda>sa. rbind (total_stamina b) (\<lambda>sb.
     replay_frames a b fs ha hb sa sb))))"

section \<open>The generator\<close>

text \<open>
  \<open>xorshift\<close> is linear over exclusive or, and the low bits of its next 32 outputs determine the
  state: \<open>low_bits_inverse\<close> recovers it from them. Both sides are linear, so it is enough to
  check this for 32 states that span all words; they are the first states from 1, whose next
  outputs are in the same table. It follows that a state that is not 0 cannot keep the low bit
  0 for 32 draws, nor keep it 1 for 33.
\<close>

definition linear :: "(u32 \<Rightarrow> u32) \<Rightarrow> bool" where
  "linear f \<longleftrightarrow> (\<forall>x y. f (x XOR y) = f x XOR f y)"

lemma linearD: "linear f \<Longrightarrow> f (x XOR y) = f x XOR f y"
  by (simp add: linear_def)

lemma linear_0: "linear f \<Longrightarrow> f 0 = 0"
  using linearD [of f 0 0] by simp

lemma xor_swap: "(a XOR b) XOR (c XOR d) = (a XOR c) XOR (b XOR d)" for a b c d :: u32
  by (simp add: xor.assoc xor.left_commute)

lemma linear_xor: "linear f \<Longrightarrow> linear g \<Longrightarrow> linear (\<lambda>x. f x XOR g x)"
  unfolding linear_def by (simp add: xor_swap)

lemma linear_comp: "linear f \<Longrightarrow> linear g \<Longrightarrow> linear (\<lambda>x. f (g x))"
  by (simp add: linear_def)

lemma linear_basics: "linear (push_bit n)" "linear (drop_bit n)" "linear (\<lambda>x. x)" "linear (\<lambda>x. 0)"
  by (simp_all add: linear_def)

lemma linear_bit: "linear f \<Longrightarrow> linear (\<lambda>x. if bit (f x) i then d else 0)"
  by (auto simp: linear_def bit_xor_iff)

lemma xorshift_linear: "linear xorshift"
proof -
  have "linear (\<lambda>s. s XOR push_bit n s)" "linear (\<lambda>s. s XOR drop_bit n s)" for n
    by (intro linear_xor linear_basics)+
  note l = linear_comp [OF this(1) [of 5] linear_comp [OF this(2) [of 17] this(1) [of 13]]]
  show ?thesis using l unfolding xorshift_def Let_def by simp
qed

text \<open>The combination of the words \<open>ds\<close> selected by the bits of \<open>y\<close>, or by the next draws from \<open>s\<close>.\<close>

fun select :: "u32 list \<Rightarrow> nat \<Rightarrow> u32 \<Rightarrow> u32" where
  "select [] i y = 0"
| "select (d # ds) i y = (if bit y i then d else 0) XOR select ds (Suc i) y"

fun recover :: "u32 list \<Rightarrow> u32 \<Rightarrow> u32" where
  "recover [] s = 0"
| "recover (d # ds) s = (if bit (xorshift s) 0 then d else 0) XOR recover ds (xorshift s)"

fun recover_from :: "u32 list \<Rightarrow> u32 list \<Rightarrow> u32" where
  "recover_from (d # ds) (t # ts) = (if bit t 0 then d else 0) XOR recover_from ds ts"
| "recover_from ds ts = 0"

fun orbit :: "u32 list \<Rightarrow> bool" where
  "orbit (s # t # ts) \<longleftrightarrow> xorshift s = t \<and> orbit (t # ts)"
| "orbit ts \<longleftrightarrow> True"

definition low_bits_inverse :: "u32 list" where
  "low_bits_inverse =
     [0x2ffd289c, 0x10008ba6, 0x2f7877a0, 0x520b939c, 0xc869ea80, 0x9715455f, 0x7ec2eed8, 0x750f963c,
      0x49eb9c81, 0x19b86f60, 0x323fe43c, 0x1dc2f27a, 0xfe23d75e, 0x92ac2f3b, 0x957e1b, 0x345a8e58,
      0x534ca697, 0xe74d8ed7, 0xa1eabec5, 0x86321d43, 0x39053bf5, 0xd86ebb3a, 0x4cb1cece, 0xdf76aa14,
      0xd3272334, 0xa53a257e, 0xc0d89b64, 0x360de2ce, 0xf1c783d0, 0x7457fc38, 0x196fad5a, 0xd733508b]"

definition first_states :: "u32 list" where
  "first_states =
     [0x1, 0x42021, 0x4080601, 0x9dcca8c5, 0x1255994f, 0x8ef917d1, 0x2c6f5bd0, 0x25b2331a,
      0x19f91cb2, 0x77877125, 0xadd02374, 0x9e6002cb, 0x591c9737, 0xb4b84b8a, 0x4e3f8ae, 0x536aff5,
      0xc9c495b1, 0x35219908, 0xc613db08, 0x13223391, 0xff571e19, 0x8e123a33, 0xe3d3edb9, 0x52f4d3eb,
      0xd9b3224f, 0x2a90af2, 0x5d1c3a29, 0x917797a5, 0x13e3cae4, 0x3d5088db, 0xa534213e, 0x36dc757,
      0xcb682814, 0x3332b01, 0xac343d28, 0x59b434e0, 0x3a2335f4, 0xcf2eecfa, 0x448511e2, 0x319d757e,
      0x796da607, 0x78093af1, 0xb5b19e1a, 0x48213943, 0x8e24b627, 0x4eb10b7, 0xb945bae9, 0xcd0b2145,
      0x8d596f54, 0xb6c45ead, 0x9f2de485, 0x5417fe3b, 0xd1c9b1b3, 0x180bebcc, 0xcb3977d5, 0x5db703b4,
      0x5fa77d4, 0x2b1a98d4, 0x7804be54, 0x16077fd3, 0xc651068d, 0x369a6c6d, 0x19e9cd26, 0x29eebd00]"

definition unit_combinations :: "u32 list" where
  "unit_combinations =
     [0x1, 0x9d696d47, 0xe482f256, 0xcd7cd8ac, 0x89fc6778, 0xb3227d21, 0x3dd282af, 0x9d54fc01,
      0xaf5c6626, 0xe06468ec, 0xbbc31771, 0xa69f358f, 0x63ed022e, 0x72421836, 0xea23ae18, 0xd2fa4a8c,
      0x393494bd, 0x2c3bf593, 0xc1606514, 0x7074593f, 0x62176236, 0xc1d3592e, 0xe5478b96, 0xf40d8af,
      0xe94ae516, 0xc41918d0, 0x2bd326a7, 0x271734ab, 0x8a8cded1, 0xc5581354, 0x910b9521, 0x7632ad1d]"

lemma recover_linear: "linear (recover ds)"
proof (induction ds)
  case (Cons d ds)
  have "linear (\<lambda>s. (if bit (xorshift s) 0 then d else 0) XOR recover ds (xorshift s))"
    by (intro linear_xor linear_bit linear_comp [OF Cons] xorshift_linear)
  then show ?case by (simp add: linear_def)
qed (simp add: linear_def)

lemma recover_orbit: "orbit (s # ts) \<Longrightarrow> length ds \<le> length ts \<Longrightarrow> recover ds s = recover_from ds ts"
proof (induction ds arbitrary: s ts)
  case (Cons d ds)
  then show ?case by (cases ts) auto
qed simp

lemma orbit_drop: "orbit ts \<Longrightarrow> orbit (drop k ts)"
proof (induction k arbitrary: ts)
  case (Suc k)
  show ?case
  proof (cases ts)
    case (Cons a as)
    with Suc.prems have "orbit as" by (cases as) auto
    with Cons Suc.IH show ?thesis by simp
  qed simp
qed simp

lemma select_fixed:
  assumes "linear f" and "\<forall>x\<in>set xs. f x = x"
  shows "f (select xs i c) = select xs i c"
  using assms(2) by (induction xs arbitrary: i) (auto simp: linearD [OF assms(1)] linear_0 [OF assms(1)])

lemma linear_identity:
  assumes "linear f" and "\<And>i. i < 32 \<Longrightarrow> f (push_bit i 1) = push_bit i 1"
  shows "f x = x"
proof -
  have "f (take_bit n x) = take_bit n x" if "n \<le> 32" for n
    using that
  proof (induction n)
    case 0
    show ?case using linear_0 [OF assms(1)] by simp
  next
    case (Suc n)
    have "take_bit (Suc n) x = take_bit n x XOR (if bit x n then push_bit n 1 else 0)"
      by (rule bit_word_eqI) (auto simp: bit_simps less_Suc_eq)
    with Suc assms show ?case by (auto simp: linearD [OF assms(1)] linear_0 [OF assms(1)])
  qed
  from this [of 32] show ?thesis by (simp add: take_bit_word_eq_self)
qed

lemma states_orbit: "orbit first_states"
  unfolding first_states_def by (simp add: xorshift_def)

lemma states_span: "map (select (take 32 first_states) 0) unit_combinations = map (\<lambda>i. push_bit i 1) [0..<32]"
  unfolding first_states_def unit_combinations_def by (simp add: upt_rec)

lemma states_recovered:
  "map (\<lambda>k. recover_from low_bits_inverse (drop (Suc k) first_states)) [0..<32] = take 32 first_states"
  unfolding first_states_def low_bits_inverse_def by (simp add: upt_rec)

lemma length_tables: "length first_states = 64" "length low_bits_inverse = 32" "length unit_combinations = 32"
  by (simp_all add: first_states_def low_bits_inverse_def unit_combinations_def)

lemma recover_state: "recover low_bits_inverse s = s"
proof (rule linear_identity [OF recover_linear])
  have "recover low_bits_inverse (first_states ! k) = first_states ! k" if "k < 32" for k
  proof -
    have "drop k first_states = first_states ! k # drop (Suc k) first_states"
      using that by (simp add: Cons_nth_drop_Suc length_tables)
    with orbit_drop [OF states_orbit, of k] have "orbit (first_states ! k # drop (Suc k) first_states)" by simp
    then have "recover low_bits_inverse (first_states ! k) = recover_from low_bits_inverse (drop (Suc k) first_states)"
      by (rule recover_orbit) (use that in \<open>simp add: length_tables\<close>)
    also have "\<dots> = first_states ! k"
      using arg_cong [OF states_recovered, of "\<lambda>xs. xs ! k"] that by (simp add: length_tables)
    finally show ?thesis .
  qed
  then have fixed: "\<forall>x\<in>set (take 32 first_states). recover low_bits_inverse x = x"
    by (auto simp: in_set_conv_nth length_tables)
  fix i :: nat assume "i < 32"
  then have "select (take 32 first_states) 0 (unit_combinations ! i) = push_bit i 1"
    using arg_cong [OF states_span, of "\<lambda>xs. xs ! i"] by (simp add: length_tables)
  with select_fixed [OF recover_linear fixed, of 0 "unit_combinations ! i"]
  show "recover low_bits_inverse (push_bit i 1) = push_bit i 1" by simp
qed

lemma recover_constant:
  assumes "\<And>k. k < length ds \<Longrightarrow> bit ((xorshift ^^ Suc k) s) 0 = b"
  shows "recover ds s = (if b then foldr (XOR) ds 0 else 0)"
  using assms
proof (induction ds arbitrary: s)
  case (Cons d ds)
  have "bit ((xorshift ^^ Suc k) (xorshift s)) 0 = b" if "k < length ds" for k
    using Cons.prems [of "Suc k"] that by (simp add: funpow_swap1)
  moreover have "bit (xorshift s) 0 = b" using Cons.prems [of 0] by simp
  ultimately show ?case using Cons.IH [of "xorshift s"] by auto
qed simp

lemma all_ones_state: "foldr (XOR) low_bits_inverse 0 = (0x1ba0efb6 :: u32)"
  by (simp add: low_bits_inverse_def)

text \<open>The only state followed by 32 odd draws is followed by exactly 32.\<close>

definition all_ones_run :: "u32 list" where
  "all_ones_run =
     [0x1ba0efb6, 0xcc93bf3d, 0xd5fc1267, 0xa1abee5f, 0x506c6d8f, 0x66618f41, 0xa6b91425, 0x383315b,
      0xd0a4126f, 0xfd2b87b, 0x436376b5, 0x9b0dcd8f, 0x753ba6f1, 0x3d554663, 0x26b4f94f, 0x8a35f5a1,
      0xa4b833c1, 0xfac81681, 0xfb111b2d, 0xd6ee35f7, 0x1a4b663f, 0xa71b1259, 0x6f5a4ed1, 0xf68fcfb1,
      0xe044e9ad, 0xd35f95b5, 0x1ccd8d61, 0x15e81f1, 0xfd79e161, 0xebe198ab, 0xc6660ef1, 0xf0bd888d,
      0x742d033b, 0x5d0b2ade]"

lemma orbit_nth: "orbit ts \<Longrightarrow> k < length ts \<Longrightarrow> (xorshift ^^ k) (hd ts) = ts ! k"
proof (induction k arbitrary: ts)
  case (Suc k)
  then obtain s t us where "ts = s # t # us" by (metis length_Suc_conv less_Suc_eq_0_disj list.exhaust list.size(3) not_less0)
  with Suc.prems Suc.IH [of "t # us"] show ?case by (auto simp: funpow_swap1)
qed (simp add: hd_conv_nth)

lemma all_ones_end: "\<not> bit ((xorshift ^^ Suc 32) 0x1ba0efb6) 0"
proof -
  have "orbit all_ones_run" by (simp add: all_ones_run_def xorshift_def)
  from orbit_nth [OF this, of "Suc 32"] show ?thesis by (simp add: all_ones_run_def)
qed

lemma turn_comes:
  assumes "s \<noteq> 0"
  shows "\<exists>k\<le>32. bit ((xorshift ^^ Suc k) s) 0 = b"
proof (rule ccontr)
  assume "\<not> ?thesis"
  then have c: "bit ((xorshift ^^ Suc k) s) 0 = (\<not> b)" if "k \<le> 32" for k using that by blast
  then have "s = (if b then 0 else foldr (XOR) low_bits_inverse 0)"
    using recover_constant [of low_bits_inverse s "\<not> b"] recover_state [of s] by (auto simp: length_tables)
  with assms have "\<not> b" "s = 0x1ba0efb6" by (auto simp: all_ones_state split: if_splits)
  with c [of 32] all_ones_end show False by simp
qed

lemma xorshift_nonzero: "s \<noteq> 0 \<Longrightarrow> xorshift s \<noteq> 0"
proof
  assume s: "s \<noteq> 0" "xorshift s = 0"
  have "(xorshift ^^ k) 0 = 0" for k by (induction k) (auto simp: linear_0 [OF xorshift_linear])
  with turn_comes [OF s(1), of True] s(2) show False by (auto simp: funpow_swap1)
qed

section \<open>Termination\<close>

definition wait :: "bool \<Rightarrow> u32 \<Rightarrow> nat" where
  \<comment> \<open>how many more draws until the low bit is \<open>t\<close>\<close>
  "wait t r = (LEAST n. bit ((xorshift ^^ n) r) 0 = t)"

lemma wait_bound: "r \<noteq> 0 \<Longrightarrow> wait t r \<le> 33"
proof -
  assume "r \<noteq> 0"
  from turn_comes [OF this, of t] obtain k where "k \<le> 32" "bit ((xorshift ^^ Suc k) r) 0 = t" by blast
  then show ?thesis unfolding wait_def using Least_le [of "\<lambda>n. bit ((xorshift ^^ n) r) 0 = t" "Suc k"] by simp
qed

lemma wait_step: "r \<noteq> 0 \<Longrightarrow> bit r 0 \<noteq> t \<Longrightarrow> wait t r = Suc (wait t (xorshift r))"
proof -
  assume r: "r \<noteq> 0" "bit r 0 \<noteq> t"
  from turn_comes [OF r(1), of t] obtain k where "bit ((xorshift ^^ Suc k) r) 0 = t" by blast
  then have "wait t r = Suc (LEAST n. bit ((xorshift ^^ Suc n) r) 0 = t)"
    unfolding wait_def by (rule Least_Suc) (use r in simp)
  then show ?thesis by (simp add: wait_def funpow_swap1)
qed

definition anim_inv :: "CreatureStats \<Rightarrow> CreatureStats \<Rightarrow> anim_state \<Rightarrow> bool" where
  "anim_inv a b s \<longleftrightarrow> rng s \<noteq> 0 \<and> a_turn s = bit (rng s) 0 \<and>
     in_i32 (aHP s) \<and> in_i32 (bHP s) \<and> in_i32 (aSta s) \<and> in_i32 (bSta s) \<and>
     ensures (total_power a) (\<lambda>p. 0 \<le> p \<and> in_i32 p) \<and> ensures (total_power b) (\<lambda>p. 0 \<le> p \<and> in_i32 p)"

definition anim_measure :: "anim_state \<Rightarrow> nat" where
  "anim_measure s = 34 * (nat (aSta s) + nat (bSta s)) +
     (if aSta s \<le> 0 then wait False (rng s) else if bSta s \<le> 0 then wait True (rng s) else 0)"

lemma next_turn_sel [simp]:
  "rng (next_turn s) = xorshift (rng s)" "a_turn (next_turn s) = bit (xorshift (rng s)) 0"
  "aHP (next_turn s) = aHP s" "bHP (next_turn s) = bHP s" "aSta (next_turn s) = aSta s"
  "bSta (next_turn s) = bSta s" "frames (next_turn s) = frames s"
  by (simp_all add: next_turn_def Let_def)

lemma record_frame_sel [simp]:
  "rng (record_frame t s) = rng s" "a_turn (record_frame t s) = a_turn s"
  "aHP (record_frame t s) = aHP s" "bHP (record_frame t s) = bHP s" "aSta (record_frame t s) = aSta s"
  "bSta (record_frame t s) = bSta s"
  by (simp_all add: record_frame_def)

lemma spent_measure:
  assumes "rng t \<noteq> 0" and "nat (aSta t) + nat (bSta t) < nat (aSta s) + nat (bSta s)"
  shows "anim_measure t < anim_measure s"
proof -
  have "34 * (nat (aSta t) + nat (bSta t)) + 34 \<le> 34 * (nat (aSta s) + nat (bSta s))" using assms(2) by simp
  moreover have "(if aSta t \<le> 0 then wait False (rng t) else if bSta t \<le> 0 then wait True (rng t) else 0) \<le> 33"
    using wait_bound [OF assms(1)] by simp
  ultimately show ?thesis unfolding anim_measure_def by linarith
qed

lemma in_i32_sub: "in_i32 x \<Longrightarrow> 0 < x \<Longrightarrow> in_i32 p \<Longrightarrow> 0 \<le> p \<Longrightarrow> in_i32 (x - p)"
  by (simp add: in_i32_def)

lemma anim_step_ok:
  assumes "anim_inv a b s" and "anim_on s"
  shows "ensures (anim_step a b s) (\<lambda>t. anim_inv a b t \<and> anim_measure t < anim_measure s)"
proof -
  note inv = assms(1)[unfolded anim_inv_def] and on = assms(2)[unfolded anim_on_def]
  obtain pa pb where p: "total_power a = Inr pa" "0 \<le> pa" "in_i32 pa" "total_power b = Inr pb" "0 \<le> pb" "in_i32 pb"
    using inv by (auto simp: ensures_iff)
  have x: "xorshift (rng s) \<noteq> 0" using inv xorshift_nonzero by blast
  have ii: "in_i32 1" "in_i32 (bHP s - pa)" "in_i32 (aHP s - pb)"
    using p inv on in_i32_sub by (auto simp: in_i32_def)
  show ?thesis
  proof (cases "a_turn s \<and> aSta s > 0")
    case True
    let ?t = "next_turn (record_frame True (s\<lparr>bHP := bHP s - pa, aSta := aSta s - 1\<rparr>))"
    have i: "in_i32 (aSta s - 1)" using True inv by (auto intro: in_i32_sub ii)
    then have "anim_step a b s = Inr ?t" using True p ii by (simp add: anim_step_def a_attacks_def)
    moreover have "anim_inv a b ?t" using inv x ii i by (simp add: anim_inv_def)
    moreover have "anim_measure ?t < anim_measure s" using True x by (intro spent_measure) auto
    ultimately show ?thesis by simp
  next
    case nA: False
    show ?thesis
    proof (cases "\<not> a_turn s \<and> bSta s > 0")
      case True
      let ?t = "next_turn (record_frame False (s\<lparr>aHP := aHP s - pb, bSta := bSta s - 1\<rparr>))"
      have i: "in_i32 (bSta s - 1)" using True inv by (auto intro: in_i32_sub ii)
      then have "anim_step a b s = Inr ?t" using True p ii by (simp add: anim_step_def b_attacks_def)
      moreover have "anim_inv a b ?t" using inv x ii i by (simp add: anim_inv_def)
      moreover have "anim_measure ?t < anim_measure s" using True x by (intro spent_measure) auto
      ultimately show ?thesis by simp
    next
      case False
      with nA inv x on show ?thesis
        unfolding anim_step_def anim_measure_def by (auto simp: anim_inv_def wait_step)
    qed
  qed
qed

lemma anim_start_ok:
  assumes "(if seed \<noteq> 0 then seed else cid a XOR cid b) \<noteq> 0"
    and "ensures (total_power a) (\<lambda>p. 0 \<le> p \<and> in_i32 p)" and "ensures (total_power b) (\<lambda>p. 0 \<le> p \<and> in_i32 p)"
    and "total_defense a = Inr ha" and "total_defense b = Inr hb"
    and "total_stamina a = Inr sa" and "total_stamina b = Inr sb"
    and "in_i32 ha" and "in_i32 hb" and "in_i32 sa" and "in_i32 sb"
  shows "\<exists>s. anim_start a b seed = Inr s \<and> anim_inv a b s \<and>
    anim_measure s \<le> 34 * (nat sa + nat sb) + 33"
proof -
  let ?r = "if seed \<noteq> 0 then seed else cid a XOR cid b"
  let ?s = "next_turn \<lparr>rng = ?r, a_turn = False, aHP = ha, bHP = hb, aSta = sa, bSta = sb, frames = []\<rparr>"
  have x: "xorshift ?r \<noteq> 0" by (rule xorshift_nonzero [OF assms(1)])
  moreover have "anim_start a b seed = Inr ?s" using assms by (simp add: anim_start_def Let_def)
  moreover have "anim_inv a b ?s" using assms x by (simp add: anim_inv_def)
  moreover have "anim_measure ?s \<le> 34 * (nat sa + nat sb) + 33"
    using wait_bound [OF x] by (simp add: anim_measure_def)
  ultimately show ?thesis by blast
qed

section \<open>Replaying what was recorded\<close>

lemma anim_step_cases:
  assumes "anim_step a b s = Inr u"
  obtains (a) p where "aSta s > 0" "total_power a = Inr p" "in_i32 (bHP s - p)" "in_i32 (aSta s - 1)"
      "u = next_turn (record_frame True (s\<lparr>bHP := bHP s - p, aSta := aSta s - 1\<rparr>))"
  | (b) p where "bSta s > 0" "total_power b = Inr p" "in_i32 (aHP s - p)" "in_i32 (bSta s - 1)"
      "u = next_turn (record_frame False (s\<lparr>aHP := aHP s - p, bSta := bSta s - 1\<rparr>))"
  | (pass) "u = next_turn s"
  using assms
  by (auto simp: anim_step_def a_attacks_def b_attacks_def res_simps i32_Inr_iff split: if_splits)

lemma frames_next [simp]:
  "frames (record_frame t s) = frames s @
     [\<lparr>attacker_is_a = t, hp_a = aHP s, hp_b = bHP s, stamina_a = aSta s, stamina_b = bSta s\<rparr>]"
  by (simp add: record_frame_def)

lemma replay_agrees:
  "run_while anim_on (anim_step a b) n s = Some (Inr t) \<Longrightarrow>
   \<exists>fs. frames t = frames s @ fs \<and>
     replay_frames a b fs (aHP s) (bHP s) (aSta s) (bSta s) = Inr (if aHP t \<ge> bHP t then cid a else cid b) \<and>
     (\<forall>k. replay_frames a b (take k fs) (aHP s) (bHP s) (aSta s) (bSta s) \<in> {Inr (cid a), Inr (cid b)})"
proof (induction n arbitrary: s)
  case (Suc n)
  show ?case
  proof (cases "anim_on s")
    case True
    with Suc.prems obtain u where u: "anim_step a b s = Inr u" "run_while anim_on (anim_step a b) n u = Some (Inr t)"
      by (auto split: sum.splits)
    from Suc.IH [OF u(2)] obtain fs where fs: "frames t = frames u @ fs"
      "replay_frames a b fs (aHP u) (bHP u) (aSta u) (bSta u) = Inr (if aHP t \<ge> bHP t then cid a else cid b)"
      "replay_frames a b (take k fs) (aHP u) (bHP u) (aSta u) (bSta u) \<in> {Inr (cid a), Inr (cid b)}" for k
      by blast
    have stop: "fs = []" if "\<not> anim_on u"
      using that u(2) fs(1) by (cases n) auto
    have on: "(if aHP u \<le> 0 \<or> bHP u \<le> 0 \<or> aSta u \<le> 0 \<and> bSta u \<le> 0 then [] else fs) = fs"
      "(if aHP u \<le> 0 \<or> bHP u \<le> 0 \<or> aSta u \<le> 0 \<and> bSta u \<le> 0 then [] else take k fs) = take k fs" for k
      using stop by (auto simp: anim_on_def)
    show ?thesis using u(1)
    proof (cases rule: anim_step_cases)
      case (a p)
      let ?f = "\<lparr>attacker_is_a = True, hp_a = aHP s, hp_b = bHP s - p, stamina_a = aSta s - 1, stamina_b = bSta s\<rparr>"
      have "replay_frames a b (take k (?f # fs)) (aHP s) (bHP s) (aSta s) (bSta s) \<in> {Inr (cid a), Inr (cid b)}" for k
        using a fs(3) [of "k - 1"] on(2) [of "k - 1"] by (cases k) simp_all
      moreover have "replay_frames a b (?f # fs) (aHP s) (bHP s) (aSta s) (bSta s) =
          Inr (if aHP t \<ge> bHP t then cid a else cid b)" "frames t = frames s @ ?f # fs"
        using a fs(1,2) on(1) by simp_all
      ultimately show ?thesis by blast
    next
      case (b p)
      let ?f = "\<lparr>attacker_is_a = False, hp_a = aHP s - p, hp_b = bHP s, stamina_a = aSta s, stamina_b = bSta s - 1\<rparr>"
      have "replay_frames a b (take k (?f # fs)) (aHP s) (bHP s) (aSta s) (bSta s) \<in> {Inr (cid a), Inr (cid b)}" for k
        using b fs(3) [of "k - 1"] on(2) [of "k - 1"] by (cases k) simp_all
      moreover have "replay_frames a b (?f # fs) (aHP s) (bHP s) (aSta s) (bSta s) =
          Inr (if aHP t \<ge> bHP t then cid a else cid b)" "frames t = frames s @ ?f # fs"
        using b fs(1,2) on(1) by simp_all
      ultimately show ?thesis by blast
    next
      case pass
      with fs show ?thesis by auto
    qed
  next
    case False
    with Suc.prems show ?thesis by (intro exI [of _ "[]"]) auto
  qed
qed simp

lemma frames_start: "anim_start a b seed = Inr s \<Longrightarrow> frames s = [] \<and>
  total_defense a = Inr (aHP s) \<and> total_defense b = Inr (bHP s) \<and>
  total_stamina a = Inr (aSta s) \<and> total_stamina b = Inr (bSta s)"
  by (auto simp: anim_start_def res_simps Let_def)

lemma anim_stuck:
  assumes "rng s = 0" and "\<not> a_turn s" and "bSta s \<le> 0" and "anim_on s"
  shows "run_while anim_on (anim_step a b) n s = None"
  by (rule run_while_diverges [of "\<lambda>u. rng u = 0 \<and> \<not> a_turn u \<and> bSta u \<le> 0 \<and> anim_on u"])
    (use assms in \<open>auto simp: anim_step_def anim_on_def linear_0 [OF xorshift_linear]\<close>)

section \<open>Properties\<close>

text \<open>
  C13: the animation ends: whenever the generator does not start from 0 and the totals fit an
  \<open>int\<close> with powers that are not negative, the loop stops within 34 draws per point of stamina
  plus 34, with a winner among the two creatures. The generator's low bit is what must not
  stall: it takes each value at least once in 33 draws.
\<close>

theorem animation_terminates:
  assumes "(if seed \<noteq> 0 then seed else cid a XOR cid b) \<noteq> 0"
    and "ensures (total_power a) (\<lambda>p. 0 \<le> p \<and> in_i32 p)" and "ensures (total_power b) (\<lambda>p. 0 \<le> p \<and> in_i32 p)"
    and "total_defense a = Inr ha" and "total_defense b = Inr hb"
    and "total_stamina a = Inr sa" and "total_stamina b = Inr sb"
    and "in_i32 ha" and "in_i32 hb" and "in_i32 sa" and "in_i32 sb"
  shows "\<exists>fs w. run (34 * (nat sa + nat sb) + 34) a b seed = Some (Inr (fs, w)) \<and> w \<in> {cid a, cid b}"
proof -
  from anim_start_ok [OF assms] obtain s where s: "anim_start a b seed = Inr s" "anim_inv a b s"
    "anim_measure s < 34 * (nat sa + nat sb) + 34" by fastforce
  have "\<exists>t. run_while anim_on (anim_step a b) (34 * (nat sa + nat sb) + 34) s = Some (Inr t) \<and> anim_inv a b t \<and> \<not> anim_on t"
    by (rule run_while_terminates [where \<mu> = anim_measure, OF s(2,3) anim_step_ok])
  with s(1) show ?thesis by (auto simp: run_def)
qed

lemma animation_terminates_witness:
  "\<exists>fs w. run (34 * (nat 2 + nat 3) + 34) (basic 1 2 9 2) (basic 2 3 9 3) 7 = Some (Inr (fs, w)) \<and> w \<in> {1, 2}"
  using animation_terminates [of 7 "basic 1 2 9 2" "basic 2 3 9 3" 9 9 2 3]
  by (simp add: basic_def total_power_def total_defense_def total_stamina_def in_i32_def)

text \<open>
  C14: \<open>replay\<close> certifies every animation: the frames recorded by \<open>run\<close>
  are accepted and give the winner that \<open>run\<close> computed.
\<close>

theorem animation_replays:
  assumes "run fuel a b seed = Some (Inr (fs, w))"
  shows "replay a b fs = Inr w"
proof -
  from assms obtain s t where s: "anim_start a b seed = Inr s"
    and t: "run_while anim_on (anim_step a b) fuel s = Some (Inr t)"
    and r: "fs = frames t" "w = (if aHP t \<ge> bHP t then cid a else cid b)"
    by (auto simp: run_def res_simps split: sum.splits)
  from replay_agrees [OF t] frames_start [OF s] r show ?thesis by (fastforce simp: replay_def)
qed

lemma animation_replays_witness:
  "\<exists>fs w. run 5 (basic 1 2 5 2) (basic 2 3 5 3) 4 = Some (Inr (fs, w)) \<and> length fs = 2 \<and>
     replay (basic 1 2 5 2) (basic 2 3 5 3) fs = Inr w"
proof -
  have "case run 5 (basic 1 2 5 2) (basic 2 3 5 3) 4 of Some (Inr (fs, w)) \<Rightarrow> length fs = 2 | _ \<Rightarrow> False"
    by code_simp
  then obtain fs w where "run 5 (basic 1 2 5 2) (basic 2 3 5 3) 4 = Some (Inr (fs, w))" "length fs = 2"
    by (auto split: option.splits sum.splits)
  with animation_replays [OF this(1)] show ?thesis by blast
qed

text \<open>
  \<open>replay\<close> does not ask that the battle is over: every prefix of a recorded animation is
  accepted and names a winner. The empty one crowns the creature with more defence; in the
  witness that is creature 1, although creature 2 won the recorded battle.
\<close>

theorem replay_accepts_prefix:
  assumes "run fuel a b seed = Some (Inr (fs, w))"
  shows "replay a b (take k fs) \<in> {Inr (cid a), Inr (cid b)}"
proof -
  from assms obtain s t where s: "anim_start a b seed = Inr s"
    and t: "run_while anim_on (anim_step a b) fuel s = Some (Inr t)" and r: "fs = frames t"
    by (auto simp: run_def res_simps split: sum.splits)
  from replay_agrees [OF t] frames_start [OF s] r show ?thesis by (fastforce simp: replay_def)
qed

lemma replay_accepts_prefix_witness:
  "\<exists>fs. run 5 (basic 1 2 5 2) (basic 2 3 5 3) 4 = Some (Inr (fs, 2)) \<and>
     replay (basic 1 2 5 2) (basic 2 3 5 3) (take 0 fs) = Inr 1 \<and>
     replay (basic 1 2 5 2) (basic 2 3 5 3) (take 1 fs) \<in> {Inr 1, Inr 2}"
proof -
  have "case run 5 (basic 1 2 5 2) (basic 2 3 5 3) 4 of Some (Inr (fs, w)) \<Rightarrow> w = 2 | _ \<Rightarrow> False"
    by code_simp
  then obtain fs where fs: "run 5 (basic 1 2 5 2) (basic 2 3 5 3) 4 = Some (Inr (fs, 2))"
    by (auto split: option.splits sum.splits)
  moreover have "replay (basic 1 2 5 2) (basic 2 3 5 3) (take 0 fs) = Inr 1"
    by (simp add: replay_def basic_def total_defense_def total_stamina_def)
  ultimately show ?thesis using replay_accepts_prefix [OF fs, of 1] by (auto simp: basic_def)
qed

text \<open>
  The animation can run forever: with seed 0 and equal ids the generator starts from 0 and
  stays there, so creature A never gets a turn; if creature B has no stamina and A has, nothing
  ever happens.
\<close>

theorem animation_stuck:
  assumes "cid a = cid b" and "total_defense a = Inr ha" and "total_defense b = Inr hb"
    and "total_stamina a = Inr sa" and "total_stamina b = Inr sb"
    and "0 < ha" and "0 < hb" and "0 < sa" and "sb \<le> 0"
  shows "run fuel a b 0 = None"
  using assms anim_stuck by (simp add: run_def anim_start_def Let_def linear_0 [OF xorshift_linear] anim_on_def)

lemma animation_stuck_witness: "\<forall>fuel. run fuel (basic 1 2 5 2) (basic 1 3 5 0) 0 = None"
  using animation_stuck [of "basic 1 2 5 2" "basic 1 3 5 0" 5 5 2 0]
  by (simp add: basic_def total_defense_def total_stamina_def)

end
