(* ===== verification/Eth_Encoding.thy ===== *)
theory Eth_Encoding
  imports Prelude
begin

text \<open>
  The calldata encoder of \<open>include/neuropet/eth_encoding.hpp\<close>: every argument becomes a
  string of lower-case hex digits. Strings are \<open>string\<close> (one \<open>char\<close> per byte), as
  \<open>std::string\<close> is. \<open>hex_val\<close> reads a digit string back as a number; it is the
  specification side, and \<open>abi_word\<close> is what Ethereum's ABI expects of a static argument:
  64 digits that denote its value modulo \<open>2 ^ 256\<close>.
\<close>

section \<open>Hex digits\<close>

definition hex_char :: "nat \<Rightarrow> char" where
  "hex_char d = ''0123456789abcdef'' ! d"

fun hex_nat :: "nat \<Rightarrow> string" where
  \<comment> \<open>\<open>std::hex\<close> and \<open>%x\<close>: no leading zeros, \<open>0\<close> for zero\<close>
  "hex_nat n = (if n < 16 then [hex_char n] else hex_nat (n div 16) @ [hex_char (n mod 16)])"

declare hex_nat.simps [simp del]

definition hex_digit :: "char \<Rightarrow> nat option" where
  "hex_digit c =
     (let n = of_char c :: nat in
      if 48 \<le> n \<and> n \<le> 57 then Some (n - 48)
      else if 97 \<le> n \<and> n \<le> 102 then Some (n - 87)
      else if 65 \<le> n \<and> n \<le> 70 then Some (n - 55)
      else None)"

definition is_hex :: "string \<Rightarrow> bool" where
  "is_hex s \<longleftrightarrow> (\<forall>c\<in>set s. hex_digit c \<noteq> None)"

definition hex_val :: "string \<Rightarrow> nat" where
  "hex_val s = foldl (\<lambda>v c. 16 * v + the (hex_digit c)) 0 s"

lemma nat_less_16_cases:
  "(d::nat) < 16 \<Longrightarrow> d \<in> {0,1,2,3,4,5,6,7,8,9,10,11,12,13,14,15}"
  by (simp only: insert_iff empty_iff simp_thms) arith

lemma hex_digit_char [simp]: "d < 16 \<Longrightarrow> hex_digit (hex_char d) = Some d"
  by (drule nat_less_16_cases) (auto simp: hex_char_def hex_digit_def)

lemma hex_digit_zero [simp]: "hex_digit (CHR ''0'') = Some 0"
  by (simp add: hex_digit_def)

lemma hex_digit_f [simp]: "hex_digit (CHR ''f'') = Some 15"
  by (simp add: hex_digit_def)

lemma is_hex_simps [simp]:
  "is_hex []" "is_hex (c # s) \<longleftrightarrow> hex_digit c \<noteq> None \<and> is_hex s"
  "is_hex (s @ t) \<longleftrightarrow> is_hex s \<and> is_hex t"
  by (auto simp: is_hex_def)

lemma is_hex_replicate [simp]: "is_hex (replicate n c) \<longleftrightarrow> n = 0 \<or> hex_digit c \<noteq> None"
  by (auto simp: is_hex_def)

lemma hex_val_Nil [simp]: "hex_val [] = 0"
  by (simp add: hex_val_def)

lemma hex_val_snoc [simp]: "hex_val (s @ [c]) = 16 * hex_val s + the (hex_digit c)"
  by (simp add: hex_val_def)

lemma hex_val_append: "hex_val (s @ t) = hex_val s * 16 ^ length t + hex_val t"
proof (induction t rule: rev_induct)
  case (snoc c t)
  then show ?case
    using hex_val_snoc [of "s @ t" c] by (simp add: algebra_simps)
qed simp

lemma hex_val_Cons:
  "hex_val (c # s) = the (hex_digit c) * 16 ^ length s + hex_val s"
  using hex_val_append [of "[c]" s] by (simp add: hex_val_def)

lemma hex_val_zeros [simp]: "hex_val (replicate n (CHR ''0'')) = 0"
  by (induction n) (auto simp: hex_val_Cons)

lemma hex_digit_bound: "hex_digit c = Some d \<Longrightarrow> d < 16"
  by (auto simp: hex_digit_def Let_def split: if_splits)

lemma hex_val_bound: "is_hex s \<Longrightarrow> hex_val s < 16 ^ length s"
proof (induction s rule: rev_induct)
  case (snoc c s)
  then obtain d where "hex_digit c = Some d" "d < 16" using hex_digit_bound by auto
  with snoc show ?case by auto
qed simp

lemma hex_nat_props: "is_hex (hex_nat n) \<and> hex_val (hex_nat n) = n"
proof (induction n rule: hex_nat.induct)
  case (1 n)
  show ?case
  proof (cases "n < 16")
    case True
    then show ?thesis by (simp add: hex_nat.simps [of n] hex_val_def)
  next
    case False
    with 1 show ?thesis by (simp add: hex_nat.simps [of n])
  qed
qed

lemmas is_hex_nat [simp] = hex_nat_props [THEN conjunct1]
  and hex_val_nat [simp] = hex_nat_props [THEN conjunct2]

lemma length_hex_nat: "n < 16 ^ k \<Longrightarrow> 0 < k \<Longrightarrow> length (hex_nat n) \<le> k"
proof (induction k arbitrary: n)
  case (Suc k)
  show ?case
  proof (cases "n < 16")
    case False
    then have "0 < k" using Suc.prems by (cases k) auto
    moreover have "n div 16 < 16 ^ k" using Suc.prems by (simp add: less_mult_imp_div_less mult.commute)
    ultimately show ?thesis using Suc.IH [of "n div 16"] False by (simp add: hex_nat.simps [of n])
  qed (simp add: hex_nat.simps [of n])
qed simp

lemma hex_nat_full: "16 ^ k \<le> n \<Longrightarrow> k < length (hex_nat n)"
proof (induction k arbitrary: n)
  case 0
  then show ?case by (simp add: hex_nat.simps [of n])
next
  case (Suc k)
  then have "16 \<le> n" by (meson le_trans one_le_numeral power_increasing power_one_right le_add1 plus_1_eq_Suc numeral_le_iff self_le_power zero_less_Suc)
  moreover have "16 ^ k \<le> n div 16" using Suc.prems by (simp add: less_eq_div_iff_mult_less_eq mult.commute)
  ultimately show ?case using Suc.IH [of "n div 16"] by (simp add: hex_nat.simps [of n])
qed

lemma left_pad_hex [simp]:
  "is_hex (left_pad n (CHR ''0'') s) \<longleftrightarrow> is_hex s"
  "hex_val (left_pad n (CHR ''0'') s) = hex_val s"
  by (auto simp: left_pad_def hex_val_append)

section \<open>The encoders\<close>

definition strip_0x :: "string \<Rightarrow> string" where
  "strip_0x hex = (if take 2 hex = ''0x'' \<or> take 2 hex = ''0X'' then drop 2 hex else hex)"

definition encode_uint32 :: "u32 \<Rightarrow> string" where
  "encode_uint32 v = left_pad 64 (CHR ''0'') (hex_nat (unat v))"

definition encode_int32 :: "int \<Rightarrow> string" where
  "encode_int32 v =
     (let u = word_of_int v :: u32; buf = left_pad 8 (CHR ''0'') (hex_nat (unat u))
      in replicate 56 (if v < 0 then CHR ''f'' else CHR ''0'') @ buf)"

definition encode_bytes32 :: "string \<Rightarrow> string" where
  "encode_bytes32 hex =
     (let h = strip_0x hex; h' = (if length h > 64 then drop (length h - 64) h else h)
      in replicate (64 - length h') (CHR ''0'') @ h')"

definition encode_uint256 :: "u64 \<Rightarrow> string" where
  \<comment> \<open>the argument is narrowed to the parameter type of \<open>encode_uint32\<close>\<close>
  "encode_uint256 v = encode_uint32 (ucast v)"

definition encode_bool :: "bool \<Rightarrow> string" where
  "encode_bool v = replicate 63 (CHR ''0'') @ [if v then CHR ''1'' else CHR ''0'']"

definition encode_bytes :: "string \<Rightarrow> string" where
  "encode_bytes hex =
     (let h = strip_0x hex; rem = length h mod 64;
          data = (if rem \<noteq> 0 then h @ replicate (64 - rem) (CHR ''0'') else h)
      in encode_uint256 (of_nat (length h div 2)) @ data)"

section \<open>What a static argument must look like\<close>

text \<open>
  The interface the transaction builders rely on: an encoder of values of one type, whose
  result is one ABI word. The client side is that the words of a concatenation can be read
  back one after the other.
\<close>

definition abi_word :: "string \<Rightarrow> nat \<Rightarrow> bool" where
  "abi_word s n \<longleftrightarrow> length s = 64 \<and> is_hex s \<and> hex_val s = n"

locale abi_static =
  fixes enc :: "'a \<Rightarrow> string" and val :: "'a \<Rightarrow> nat"
  assumes enc_word: "abi_word (enc x) (val x)"
begin

lemma length_enc [simp]: "length (enc x) = 64"
  using enc_word by (simp add: abi_word_def)

lemma is_hex_enc [simp]: "is_hex (enc x)"
  using enc_word by (simp add: abi_word_def)

lemma hex_val_enc [simp]: "hex_val (enc x) = val x"
  using enc_word by (simp add: abi_word_def)

lemma read_front [simp]: "hex_val (take 64 (enc x @ rest)) = val x" "drop 64 (enc x @ rest) = rest"
  by simp_all

lemma enc_inj: "enc x @ r = enc y @ s \<longleftrightarrow> enc x = enc y \<and> r = s"
  by simp

lemma enc_eq_val: "enc x = enc y \<Longrightarrow> val x = val y"
  by (metis hex_val_enc)

lemma val_bound: "val x < 2 ^ 256"
  using hex_val_bound [OF is_hex_enc, of x] by simp

end

lemma encode_uint32_word: "abi_word (encode_uint32 v) (unat v)"
proof -
  have "unat v < 16 ^ 8" using unat_bound [of v] by simp
  then have "length (hex_nat (unat v)) \<le> 8" by (rule length_hex_nat) simp
  then show ?thesis by (simp add: abi_word_def encode_uint32_def)
qed

interpretation uint32_abi: abi_static encode_uint32 unat
  by unfold_locales (rule encode_uint32_word)

lemma hex_val_fs: "hex_val (replicate n (CHR ''f'')) = 16 ^ n - 1"
proof (induction n)
  case (Suc n)
  have "(1::nat) \<le> 16 ^ n" by simp
  with Suc show ?case by (simp add: hex_val_Cons hex_digit_def)
qed simp

lemma encode_int32_word:
  assumes "in_i32 v"
  shows "abi_word (encode_int32 v) (nat (v mod 2 ^ 256))"
proof -
  define u :: u32 where "u = word_of_int v"
  have u: "unat u < 16 ^ 8" using unat_bound [of u] by simp
  then have len: "length (hex_nat (unat u)) \<le> 8" by (rule length_hex_nat) simp
  have uv: "int (unat u) = v mod 2 ^ 32"
    by (simp add: u_def unsigned_of_int take_bit_eq_mod)
  have split: "hex_val (encode_int32 v) =
      (if v < 0 then (16 ^ 56 - 1) * 16 ^ 8 + unat u else unat u)"
    using len by (simp add: encode_int32_def Let_def u_def [symmetric] hex_val_append hex_val_fs)
  have "int (hex_val (encode_int32 v)) = v mod 2 ^ 256"
  proof (cases "v < 0")
    case True
    with assms have v32: "v mod 2 ^ 32 = v + 2 ^ 32" and v256: "v mod 2 ^ 256 = v + 2 ^ 256"
      by (auto simp: in_i32_def intro!: mod_neg)
    show ?thesis using True split uv v32 v256 by simp
  next
    case False
    with assms have "v mod 2 ^ 32 = v" "v mod 2 ^ 256 = v" by (auto simp: in_i32_def)
    with False split uv show ?thesis by simp
  qed
  then have "hex_val (encode_int32 v) = nat (v mod 2 ^ 256)" by linarith
  moreover have "is_hex (encode_int32 v)" "length (encode_int32 v) = 64"
    using len by (simp_all add: encode_int32_def Let_def u_def [symmetric])
  ultimately show ?thesis by (simp add: abi_word_def)
qed

text \<open>
  A signed 32-bit argument is checked by its encoder's precondition, so the interface is
  met by the encoder restricted to the values a C++ \<open>int32_t\<close> has.
\<close>

interpretation int32_abi: abi_static "\<lambda>v. encode_int32 (sint (v :: u32))" "\<lambda>v. nat (sint v mod 2 ^ 256)"
proof unfold_locales
  fix v :: u32
  have "in_i32 (sint v)"
    using sint_ge [of v] sint_lt [of v] by (simp add: in_i32_def)
  then show "abi_word (encode_int32 (sint v)) (nat (sint v mod 2 ^ 256))"
    by (rule encode_int32_word)
qed

lemma encode_bool_word: "abi_word (encode_bool b) (if b then 1 else 0)"
  by (auto simp: abi_word_def encode_bool_def hex_digit_def hex_val_append hex_val_Cons)

interpretation bool_abi: abi_static encode_bool "\<lambda>b. if b then 1 else 0"
  by unfold_locales (rule encode_bool_word)

lemma encode_uint256_word: "abi_word (encode_uint256 v) (unat v mod 2 ^ 32)"
  using encode_uint32_word [of "ucast v"]
  by (simp add: encode_uint256_def unsigned_ucast_eq take_bit_eq_mod)

interpretation uint256_abi: abi_static encode_uint256 "\<lambda>v. unat v mod 2 ^ 32"
  by unfold_locales (rule encode_uint256_word)

text \<open>The encoder of the \<open>uint256\<close> arguments keeps the value exactly when it fits 32 bits.\<close>

lemma encode_uint256_exact:
  "hex_val (encode_uint256 v) = unat v \<longleftrightarrow> unat v < 2 ^ 32"
  by (simp add: mod_eq_self_iff_div_eq_0 div_eq_0_iff)

section \<open>Hex strings\<close>

lemma strip_0x_idem_hex: "is_hex h \<Longrightarrow> strip_0x h = h"
proof (cases "length h < 2")
  case False
  moreover assume "is_hex h"
  moreover obtain a b r where "h = a # b # r"
    using False by (metis One_nat_def Suc_1 length_Cons lessI less_Suc_eq_0_disj list.exhaust list.size(3) not_less_eq zero_less_Suc)
  moreover have "hex_digit (CHR ''x'') = None" "hex_digit (CHR ''X'') = None"
    by (simp_all add: hex_digit_def)
  ultimately show ?thesis by (auto simp: strip_0x_def)
qed (auto simp: strip_0x_def dest: arg_cong [where f = length])

lemma strip_0x_prefix [simp]: "strip_0x (''0x'' @ h) = h" "strip_0x (''0X'' @ h) = h"
  by (simp_all add: strip_0x_def numeral_2_eq_2)

lemma encode_bytes32_word:
  assumes "is_hex (strip_0x s)"
  shows "abi_word (encode_bytes32 s) (hex_val (strip_0x s) mod 2 ^ 256)"
proof -
  define h where "h = strip_0x s"
  define k where "k = length h - 64"
  have hx: "is_hex (drop k h)" "is_hex (take k h)"
    using assms by (auto simp: h_def is_hex_def dest: in_set_dropD in_set_takeD)
  have enc: "encode_bytes32 s = replicate (64 - length (drop k h)) (CHR ''0'') @ drop k h"
    by (auto simp: encode_bytes32_def Let_def h_def [symmetric] k_def)
  have len: "length (drop k h) \<le> 64" by (simp add: k_def)
  then have bound: "hex_val (drop k h) < 2 ^ 256"
    using hex_val_bound [OF hx(1)] power_increasing [OF len, of "16::nat"] by simp
  have "hex_val h = hex_val (take k h) * 16 ^ length (drop k h) + hex_val (drop k h)"
    by (metis append_take_drop_id hex_val_append)
  moreover have "k = 0 \<or> length (drop k h) = 64" by (auto simp: k_def)
  ultimately have "hex_val h mod 2 ^ 256 = hex_val (drop k h)"
    using bound by auto
  then show ?thesis
    using len hx by (simp add: abi_word_def enc hex_val_append h_def [symmetric])
qed

lemma pad_to_multiple: "n mod 64 \<noteq> 0 \<Longrightarrow> (n + (64 - n mod 64)) mod 64 = 0" for n :: nat
  by presburger

text \<open>
  A byte string: the number of bytes, then the digits padded with zeros to whole words.
\<close>

lemma encode_bytes_layout:
  assumes "is_hex h"
  shows "take 64 (encode_bytes h) = encode_uint256 (of_nat (length h div 2))"
    and "take (length h) (drop 64 (encode_bytes h)) = h"
    and "\<forall>c\<in>set (drop (64 + length h) (encode_bytes h)). c = CHR ''0''"
    and "length (encode_bytes h) mod 64 = 0"
    and "length (encode_bytes h) < 64 + length h + 64"
proof -
  define pad where "pad = (if length h mod 64 \<noteq> 0 then 64 - length h mod 64 else 0)"
  have eq: "encode_bytes h =
      encode_uint256 (of_nat (length h div 2)) @ h @ replicate pad (CHR ''0'')"
    using strip_0x_idem_hex [OF assms]
    by (simp add: encode_bytes_def Let_def pad_def)
  show "take 64 (encode_bytes h) = encode_uint256 (of_nat (length h div 2))"
    "take (length h) (drop 64 (encode_bytes h)) = h"
    "\<forall>c\<in>set (drop (64 + length h) (encode_bytes h)). c = CHR ''0''"
    by (simp_all add: eq)
  have "(length h + pad) mod 64 = 0" "pad < 64"
    using pad_to_multiple [of "length h"] by (auto simp: pad_def)
  then show "length (encode_bytes h) mod 64 = 0" "length (encode_bytes h) < 64 + length h + 64"
    by (simp_all add: eq)
qed

section \<open>Bytes as hex\<close>

text \<open>\<open>to_hex\<close> of \<open>proof_system.hpp\<close>: two digits a byte, the high nibble first.\<close>

definition to_hex :: "u8 list \<Rightarrow> string" where
  "to_hex data = concat (map (\<lambda>b. [hex_char (unat (drop_bit 4 b)), hex_char (unat (b AND 15))]) data)"

definition be_val :: "u8 list \<Rightarrow> nat" where
  "be_val bs = foldl (\<lambda>v b. 256 * v + unat b) 0 bs"

lemma be_val_simps [simp]: "be_val [] = 0" "be_val (bs @ [b]) = 256 * be_val bs + unat b"
  by (simp_all add: be_val_def)

lemma be_val_append: "be_val (xs @ ys) = be_val xs * 256 ^ length ys + be_val ys"
proof (induction ys rule: rev_induct)
  case (snoc y ys)
  then show ?case
    using be_val_simps(2) [of "xs @ ys" y] by (simp add: algebra_simps)
qed simp

lemma be_val_zeros [simp]: "be_val (replicate n 0) = 0"
proof (induction n)
  case (Suc n)
  have "be_val (replicate (Suc n) 0) = be_val (replicate n 0 @ [0])"
    by (simp add: replicate_append_same)
  with Suc show ?case by (simp del: replicate_Suc)
qed simp

lemma unat_nibbles: "unat (drop_bit 4 b) = unat b div 16" "unat (b AND 15) = unat b mod 16" for b :: u8
proof -
  show "unat (drop_bit 4 b) = unat b div 16" by (simp only: unat_drop_bit) simp
  have "b AND 15 = take_bit 4 b" by (simp add: take_bit_eq_mask mask_eq_exp_minus_1)
  then have "unat (b AND 15) = take_bit 4 (unat b)" by (simp only: unsigned_take_bit_eq)
  then show "unat (b AND 15) = unat b mod 16" by (simp only: take_bit_eq_mod) simp
qed

lemma to_hex_simps [simp]:
  "to_hex [] = []"
  "to_hex (b # bs) = hex_char (unat b div 16) # hex_char (unat b mod 16) # to_hex bs"
  "to_hex (bs @ cs) = to_hex bs @ to_hex cs"
  by (simp_all add: to_hex_def unat_nibbles)

lemma unat_u8_div: "unat (b :: u8) div 16 < 16"
  using unat_bound [of b] by simp

lemma to_hex_props [simp]: "length (to_hex bs) = 2 * length bs" "is_hex (to_hex bs)" "hex_val (to_hex bs) = be_val bs"
proof -
  show "length (to_hex bs) = 2 * length bs" by (induction bs) auto
  show "is_hex (to_hex bs)" by (induction bs) (auto simp: unat_u8_div)
  show "hex_val (to_hex bs) = be_val bs"
  proof (induction bs rule: rev_induct)
    case (snoc b bs)
    have "hex_val (to_hex (bs @ [b])) = hex_val ((to_hex bs @ [hex_char (unat b div 16)]) @ [hex_char (unat b mod 16)])"
      by simp
    also have "\<dots> = 256 * hex_val (to_hex bs) + unat b"
      by (simp only: hex_val_snoc) (simp add: unat_u8_div)
    finally show ?case using snoc by simp
  qed simp
qed

lemma be_val_bytes:
  fixes v :: "'a::len word"
  shows "be_val (map (\<lambda>k. ucast (drop_bit ((n - 1 - k) * 8) v) :: u8) [0..<n]) = unat v mod 256 ^ n"
proof (induction n arbitrary: v)
  case (Suc n)
  have step: "map (\<lambda>k. ucast (drop_bit ((Suc n - 1 - k) * 8) v) :: u8) [0..<Suc n] =
      map (\<lambda>k. ucast (drop_bit ((n - 1 - k) * 8) (drop_bit 8 v))) [0..<n] @ [ucast v]"
    by (auto simp: drop_bit_drop_bit intro!: arg_cong [where f = "\<lambda>m. ucast (drop_bit m v)"])
  have "be_val (map (\<lambda>k. ucast (drop_bit ((Suc n - 1 - k) * 8) v) :: u8) [0..<Suc n]) =
      256 * (unat (drop_bit 8 v) mod 256 ^ n) + unat v mod 256"
    by (subst step) (simp only: be_val_simps Suc.IH, simp add: unsigned_ucast_eq take_bit_eq_mod)
  also have "\<dots> = unat v mod 256 ^ Suc n"
    by (simp only: unat_drop_bit) (simp add: mod_mult2_eq)
  finally show ?case .
qed simp

section \<open>Properties\<close>

text \<open>
  The static encoders produce ABI words. For every \<open>uint32_t\<close>, \<open>int32_t\<close>
  (sign-extended two's complement) and \<open>bool\<close> the result is 64 hex digits that denote the
  value modulo \<open>2 ^ 256\<close>.
\<close>

theorem encode_static_words:
  "abi_word (encode_uint32 v) (unat v) \<and>
   abi_word (encode_int32 (sint w)) (nat (sint (w :: u32) mod 2 ^ 256)) \<and>
   abi_word (encode_bool b) (if b then 1 else 0)"
  using uint32_abi.enc_word int32_abi.enc_word bool_abi.enc_word by blast

text \<open>
  \<open>encode_uint256\<close> always produces a well-formed word, but the number in it is the
  argument modulo \<open>2 ^ 32\<close>: it is the ABI word of its argument exactly for arguments
  below \<open>2 ^ 32\<close>, and two arguments that agree in their low 32 bits get the same
  calldata.
\<close>

theorem encode_uint256_truncates:
  "abi_word (encode_uint256 v) (unat v mod 2 ^ 32) \<and>
   (abi_word (encode_uint256 v) (unat v) \<longleftrightarrow> unat v < 2 ^ 32) \<and>
   (encode_uint256 v = encode_uint256 w \<longleftrightarrow> unat v mod 2 ^ 32 = unat w mod 2 ^ 32)"
proof (intro conjI)
  show "abi_word (encode_uint256 v) (unat v mod 2 ^ 32)" by (rule uint256_abi.enc_word)
  show "abi_word (encode_uint256 v) (unat v) \<longleftrightarrow> unat v < 2 ^ 32"
    using uint256_abi.enc_word [of v] encode_uint256_exact [of v] by (auto simp: abi_word_def)
  show "encode_uint256 v = encode_uint256 w \<longleftrightarrow> unat v mod 2 ^ 32 = unat w mod 2 ^ 32"
  proof
    assume "unat v mod 2 ^ 32 = unat w mod 2 ^ 32"
    then have "ucast v = (ucast w :: u32)"
      by (intro word_unat_eq_iff [THEN iffD2]) (simp add: unsigned_ucast_eq take_bit_eq_mod)
    then show "encode_uint256 v = encode_uint256 w" by (simp add: encode_uint256_def)
  qed (rule uint256_abi.enc_eq_val)
qed

text \<open>
  \<open>encode_bytes32\<close> of a hex string, with or without its \<open>0x\<close> prefix, is
  the ABI word of the string's value; a longer string keeps its low 256 bits.
\<close>

theorem encode_bytes32_value:
  assumes "is_hex h" and "pre \<in> {'''', ''0x'', ''0X''}"
  shows "abi_word (encode_bytes32 (pre @ h)) (hex_val h mod 2 ^ 256)"
proof -
  have "strip_0x (pre @ h) = h"
    using assms strip_0x_idem_hex [of h] strip_0x_prefix [of h] by auto
  with encode_bytes32_word [of "pre @ h"] assms show ?thesis by simp
qed

lemma encode_bytes32_value_witness:
  "abi_word (encode_bytes32 (''0x'' @ ''ff07'')) (hex_val ''ff07'' mod 2 ^ 256)"
  by (rule encode_bytes32_value) (simp_all add: hex_digit_def)

text \<open>
  Byte strings: the calldata of a hex string is a whole number of words, the byte count
  first and then the digits, filled up with zeros, and it determines the string: two byte
  strings of at most \<open>2 ^ 32 - 1\<close> bytes with the same calldata are equal.
\<close>

theorem encode_bytes_decodes:
  assumes "is_hex h" and "even (length h)" and "length h div 2 < 2 ^ 32"
  shows "length (encode_bytes h) mod 64 = 0 \<and>
    take (2 * hex_val (take 64 (encode_bytes h))) (drop 64 (encode_bytes h)) = h \<and>
    set (drop (64 + length h) (encode_bytes h)) \<subseteq> {CHR ''0''}"
proof (intro conjI)
  note lay = encode_bytes_layout [OF assms(1)]
  show "length (encode_bytes h) mod 64 = 0" by (rule lay(4))
  have "unat (of_nat (length h div 2) :: u64) = length h div 2"
    using assms(3) by (simp add: unsigned_of_nat take_bit_nat_eq_self)
  then have "hex_val (take 64 (encode_bytes h)) = length h div 2"
    using assms(3) by (simp only: lay(1) uint256_abi.hex_val_enc) simp
  with assms(2) lay(2)
  show "take (2 * hex_val (take 64 (encode_bytes h))) (drop 64 (encode_bytes h)) = h" by simp
  show "set (drop (64 + length h) (encode_bytes h)) \<subseteq> {CHR ''0''}" using lay(3) by auto
qed

lemma encode_bytes_decodes_witness:
  "take (2 * hex_val (take 64 (encode_bytes ''ff07''))) (drop 64 (encode_bytes ''ff07'')) = ''ff07''"
  by (rule encode_bytes_decodes [THEN conjunct2, THEN conjunct1]) (simp_all add: hex_digit_def)

end
