(* ===== verification/Matchmaking.thy ===== *)
theory Matchmaking
  imports Battle Eth_Encoding
begin

text \<open>
  The ledgers (\<open>match_ledger.hpp\<close>, \<open>onchain_ledger.hpp\<close>), the arena
  (\<open>arena.hpp\<close>, \<open>onchain_arena.hpp\<close>) and the first-in first-out
  \<open>Matchmaker\<close> of \<open>battle.hpp\<close>. The virtual call
  \<open>record_result\<close> is an argument \<open>rec\<close> of the operations that make it; the
  locale \<open>match_ledger\<close> states the contract both ledgers meet. The HTTP layer is an
  argument \<open>post\<close>: the outcome of \<open>http_post_json\<close> for a request body.
\<close>

section \<open>Ledgers\<close>

record MatchResult =
  battle_id :: u32
  winner :: u32
  loser :: u32

record MatchLedger =
  next_id :: u32
  results :: "MatchResult list"

definition new_ledger :: MatchLedger where
  "new_ledger = \<lparr>next_id = 1, results = []\<rparr>"

definition record_result :: "MatchLedger \<Rightarrow> u32 \<Rightarrow> u32 \<Rightarrow> u32 \<times> MatchLedger" where
  "record_result l w x =
     (let r = \<lparr>battle_id = next_id l, winner = w, loser = x\<rparr>
      in (battle_id r, l\<lparr>next_id := next_id l + 1, results := results l @ [r]\<rparr>))"

definition tx_body :: "string \<Rightarrow> string \<Rightarrow> string" where
  "tx_body contract data =
     ''{\"jsonrpc\":\"2.0\",\"method\":\"eth_sendTransaction\",'' @
     ''\"params\":[{\"to\":\"'' @ contract @ ''\",\"data\":\"'' @ data @ ''\"}],\"id\":1}''"

definition ledger_calldata :: "u32 \<Rightarrow> u32 \<Rightarrow> u32 \<Rightarrow> string" where
  "ledger_calldata i w x =
     ''0x81adbe26'' @ encode_uint32 i @ encode_uint32 w @ encode_uint32 x"

definition ledger_send_tx ::
    "(string \<Rightarrow> bool) \<Rightarrow> string \<Rightarrow> u32 \<Rightarrow> u32 \<Rightarrow> u32 \<Rightarrow> bool" where
  "ledger_send_tx post contract i w x = post (tx_body contract (ledger_calldata i w x))"

definition onchain_record_result ::
    "(string \<Rightarrow> bool) \<Rightarrow> string \<Rightarrow> MatchLedger \<Rightarrow> u32 \<Rightarrow> u32 \<Rightarrow> u32 \<times> MatchLedger" where
  "onchain_record_result post contract l w x =
     (let i = next_id l in
      if ledger_send_tx post contract i w x
      then (i, l\<lparr>next_id := next_id l + 1,
                 results := results l @ [\<lparr>battle_id = i, winner = w, loser = x\<rparr>]\<rparr>)
      else (0, l))"

section \<open>Arena\<close>

record 'l Arena =
  arena_engine :: board
  arena_ledger :: "'l option"

definition new_arena :: "board \<Rightarrow> 'l option \<Rightarrow> 'l Arena" where
  "new_arena bd led = \<lparr>arena_engine = bd, arena_ledger = led\<rparr>"

definition arena_set_ledger :: "'l Arena \<Rightarrow> 'l option \<Rightarrow> 'l Arena" where
  "arena_set_ledger ar led = ar\<lparr>arena_ledger := led\<rparr>"

definition arena_battle ::
    "nat \<Rightarrow> board \<Rightarrow> ('l \<Rightarrow> u32 \<Rightarrow> u32 \<Rightarrow> u32 \<times> 'l) \<Rightarrow> 'l option \<Rightarrow>
     CreatureStats \<Rightarrow> CreatureStats \<Rightarrow> u32 \<Rightarrow> (u32 \<times> 'l option) res option" where
  "arena_battle fuel bd rec led a b seed =
     map_option (\<lambda>r. rbind r (\<lambda>w.
       case led of
         None \<Rightarrow> Inr (w, None)
       | Some l \<Rightarrow> (let x = (if w = cid a then cid b else cid a)
                   in Inr (w, Some (snd (rec l w x))))))
       (fight fuel bd a b seed)"

definition arena_calldata :: "CreatureStats \<Rightarrow> CreatureStats \<Rightarrow> u32 \<Rightarrow> string" where
  "arena_calldata a b seed =
     ''0x92a4f9e6'' @ encode_uint32 (cid a) @ encode_int32 (power a) @ encode_int32 (defense a) @
     encode_int32 (stamina a) @ encode_uint32 (cid b) @ encode_int32 (power b) @
     encode_int32 (defense b) @ encode_int32 (stamina b) @ encode_uint32 seed"

definition arena_send_tx ::
    "(string \<Rightarrow> bool) \<Rightarrow> string \<Rightarrow> CreatureStats \<Rightarrow> CreatureStats \<Rightarrow> u32 \<Rightarrow> bool" where
  "arena_send_tx post contract a b seed = post (tx_body contract (arena_calldata a b seed))"

text \<open>\<open>OnchainArena\<close> fights on a default-constructed engine and ignores the outcome of the send.\<close>

definition onchain_battle ::
    "nat \<Rightarrow> ('l \<Rightarrow> u32 \<Rightarrow> u32 \<Rightarrow> u32 \<times> 'l) \<Rightarrow> (string \<Rightarrow> bool) \<Rightarrow> string \<Rightarrow> 'l option \<Rightarrow>
     CreatureStats \<Rightarrow> CreatureStats \<Rightarrow> u32 \<Rightarrow> (u32 \<times> 'l option \<times> bool) res option" where
  "onchain_battle fuel rec post contract led a b seed =
     map_option (\<lambda>r. rbind r (\<lambda>(w, led'). Inr (w, led', arena_send_tx post contract a b seed)))
       (arena_battle fuel clear_board rec led a b seed)"

section \<open>Matchmaker\<close>

record 'l Matchmaker =
  queue :: "CreatureStats list"
  engine :: board
  ledger :: "'l option"

definition new_matchmaker :: "board \<Rightarrow> 'l option \<Rightarrow> 'l Matchmaker" where
  "new_matchmaker bd led = \<lparr>queue = [], engine = bd, ledger = led\<rparr>"

definition set_ledger :: "'l Matchmaker \<Rightarrow> 'l option \<Rightarrow> 'l Matchmaker" where
  "set_ledger m led = m\<lparr>ledger := led\<rparr>"

definition enqueue :: "'l Matchmaker \<Rightarrow> CreatureStats \<Rightarrow> 'l Matchmaker" where
  "enqueue m c = m\<lparr>queue := queue m @ [c]\<rparr>"

definition pending :: "'l Matchmaker \<Rightarrow> nat" where
  "pending m = length (queue m)"

fun try_match ::
    "nat \<Rightarrow> ('l \<Rightarrow> u32 \<Rightarrow> u32 \<Rightarrow> u32 \<times> 'l) \<Rightarrow> 'l Matchmaker \<Rightarrow> u32 \<Rightarrow>
     (u32 option \<times> 'l Matchmaker) res option" where
  "try_match fuel rec m seed =
     (case queue m of
        a # b # rest \<Rightarrow>
          map_option (\<lambda>r. rbind r (\<lambda>w.
            let m' = m\<lparr>queue := rest\<rparr> in
            case ledger m of
              None \<Rightarrow> Inr (Some w, m')
            | Some l \<Rightarrow> (let x = (if w = cid a then cid b else cid a)
                        in Inr (Some w, m'\<lparr>ledger := Some (snd (rec l w x))\<rparr>))))
            (fight fuel (engine m) a b seed)
      | _ \<Rightarrow> Some (Inr (None, m)))"

section \<open>The contract of a ledger\<close>

text \<open>
  A ledger appends one entry per call, under the id it returns, or (a ledger that talks to a
  remote chain) refuses with the id 0 and keeps its entries.
\<close>

locale match_ledger =
  fixes rec :: "'l \<Rightarrow> u32 \<Rightarrow> u32 \<Rightarrow> u32 \<times> 'l"
    and entries :: "'l \<Rightarrow> MatchResult list"
    and inv :: "'l \<Rightarrow> bool"
  assumes rec_entries: "rec l w x = (i, l') \<Longrightarrow>
      entries l' = entries l @ [\<lparr>battle_id = i, winner = w, loser = x\<rparr>] \<or> i = 0 \<and> entries l' = entries l"
    and rec_inv: "inv l \<Longrightarrow> inv (snd (rec l w x))"
    and inv_ids: "inv l \<Longrightarrow> k < length (entries l) \<Longrightarrow> battle_id (entries l ! k) = of_nat (Suc k)"
begin

text \<open>Entries are never rewritten: an earlier ledger is a prefix of a later one.\<close>

lemma rec_prefix: "take (length (entries l)) (entries (snd (rec l w x))) = entries l"
  using rec_entries [of l w x "fst (rec l w x)" "snd (rec l w x)"] by auto

lemma rec_entry:
  "e \<in> set (entries (snd (rec l w x))) \<Longrightarrow> e \<in> set (entries l) \<or> winner e = w \<and> loser e = x"
  using rec_entries [of l w x "fst (rec l w x)" "snd (rec l w x)"] by auto

text \<open>The arena and the matchmaker record the two creatures that fought, winner first.\<close>

lemma arena_entry:
  assumes "arena_battle fuel bd rec (Some l) a b seed = Some (Inr (w, Some l'))"
    and "w \<in> {cid a, cid b}"
  shows "inv l \<Longrightarrow> inv l'"
    and "take (length (entries l)) (entries l') = entries l"
    and "e \<in> set (entries l') \<Longrightarrow> e \<in> set (entries l) \<or>
      winner e = w \<and> {winner e, loser e} = {cid a, cid b}"
  using assms rec_prefix rec_entry [of e l w "if w = cid a then cid b else cid a"] rec_inv [of l w]
  by (auto simp: arena_battle_def Let_def res_simps split: if_splits)

lemma try_match_entry:
  assumes "try_match fuel rec m seed = Some (Inr (Some w, m'))" and "ledger m = Some l"
    and "queue m = a # b # rest"
  shows "\<exists>l'. ledger m' = Some l' \<and> queue m' = rest \<and> (inv l \<longrightarrow> inv l') \<and>
    take (length (entries l)) (entries l') = entries l \<and>
    fight fuel (engine m) a b seed = Some (Inr w)"
  using assms rec_prefix rec_inv [of l w]
  by (auto simp: Let_def res_simps)

end

definition ledger_inv :: "MatchLedger \<Rightarrow> bool" where
  "ledger_inv l \<longleftrightarrow> next_id l = of_nat (Suc (length (results l))) \<and>
     (\<forall>k < length (results l). battle_id (results l ! k) = of_nat (Suc k))"

lemma ledger_inv_new [simp]: "ledger_inv new_ledger"
  by (simp add: ledger_inv_def new_ledger_def)

lemma ledger_inv_append:
  assumes "ledger_inv l"
  shows "ledger_inv (l\<lparr>next_id := next_id l + 1,
    results := results l @ [\<lparr>battle_id = next_id l, winner = w, loser = x\<rparr>]\<rparr>)"
  using assms by (auto simp: ledger_inv_def nth_append less_Suc_eq)

interpretation mem_ledger: match_ledger record_result results ledger_inv
  by unfold_locales
    (auto simp: record_result_def Let_def ledger_inv_append, simp add: ledger_inv_def)

interpretation chain_ledger: match_ledger "onchain_record_result post contract" results ledger_inv
  for post contract
  by unfold_locales
    (auto simp: onchain_record_result_def Let_def ledger_inv_append split: if_splits,
      simp add: ledger_inv_def)

section \<open>Sequences of matches\<close>

fun record_all :: "MatchLedger \<Rightarrow> (u32 \<times> u32) list \<Rightarrow> MatchLedger" where
  "record_all l [] = l"
| "record_all l ((w, x) # ws) = record_all (snd (record_result l w x)) ws"

lemma record_all_results:
  "map (\<lambda>r. (winner r, loser r)) (results (record_all l ws)) =
     map (\<lambda>r. (winner r, loser r)) (results l) @ ws"
  by (induction l ws rule: record_all.induct) (auto simp: record_result_def Let_def)

lemma record_all_inv: "ledger_inv l \<Longrightarrow> ledger_inv (record_all l ws)"
  by (induction l ws rule: record_all.induct) (auto simp: mem_ledger.rec_inv)

section \<open>Creatures whose fights end\<close>

definition fit :: "nat \<Rightarrow> CreatureStats \<Rightarrow> bool" where
  "fit fuel c \<longleftrightarrow> (\<exists>p d st. combatant c p d st \<and> 30 + 4 * nat st \<le> fuel)"

lemma fit_fight:
  assumes "fit fuel a" and "fit fuel b" and "\<forall>p. bd p \<noteq> WALL"
  shows "\<exists>w. fight fuel bd a b seed = Some (Inr w) \<and> w \<in> {cid a, cid b}"
proof -
  from assms(1,2) obtain pa da sa pb db sb where
    "combatant a pa da sa" "combatant b pb db sb" "30 + 4 * nat sa \<le> fuel" "30 + 4 * nat sb \<le> fuel"
    by (auto simp: fit_def)
  with fight_ends [of a pa da sa b pb db sb bd fuel seed] assms(3) show ?thesis by auto
qed

section \<open>Properties\<close>

text \<open>
  The in-memory ledger is a faithful log: after any sequence of \<open>record_result\<close> calls on a
  new ledger the entries are the recorded pairs in order and their battle ids are
  \<open>1, 2, 3, ...\<close> (modulo \<open>2 ^ 32\<close>).
\<close>

theorem ledger_log:
  "map (\<lambda>r. (winner r, loser r)) (results (record_all new_ledger ws)) = ws \<and>
   map battle_id (results (record_all new_ledger ws)) = map (\<lambda>k. of_nat (Suc k)) [0..<length ws]"
proof -
  let ?l = "record_all new_ledger ws"
  have r: "map (\<lambda>r. (winner r, loser r)) (results ?l) = ws"
    using record_all_results [of new_ledger ws] by (simp add: new_ledger_def)
  then have "length (results ?l) = length ws" by (metis length_map)
  moreover have "ledger_inv ?l" by (simp add: record_all_inv)
  ultimately show ?thesis
    using r by (auto simp: ledger_inv_def intro!: nth_equalityI)
qed

lemma fit_basic: "0 \<le> p \<Longrightarrow> p < 1000 \<Longrightarrow> 0 \<le> d \<Longrightarrow> d < 1000 \<Longrightarrow> 0 \<le> st \<Longrightarrow> st < 10 \<Longrightarrow> fit 70 (basic i p d st)"
  unfolding fit_def
  by (intro exI [of _ p] exI [of _ d] exI [of _ st]) (auto simp: in_i32_def)

end
