(* ===== verification/Match_History.thy ===== *)
theory Match_History
  imports Matchmaking
begin

text \<open>
  A \<open>Matchmaker\<close> and an \<open>Arena\<close> keep raw pointers to their ledgers
  (\<open>battle.hpp\<close>, \<open>arena.hpp\<close>): the two may share one, and
  \<open>set_ledger\<close> swaps it between calls. Here the ledgers are a heap indexed by address,
  the pointers are addresses, and a history is any sequence of calls on the two objects. The
  specification is a first-in first-out queue that knows no fights and no ledgers: it says which
  pair every call pits against each other and where the result goes.
\<close>

section \<open>Ledgers behind pointers\<close>

type_synonym ledger_heap = "nat \<Rightarrow> MatchLedger"

definition record_at :: "nat \<times> ledger_heap \<Rightarrow> u32 \<Rightarrow> u32 \<Rightarrow> u32 \<times> (nat \<times> ledger_heap)" where
  "record_at s w x = (case s of (n, h) \<Rightarrow>
     let (i, l) = record_result (h n) w x in (i, (n, h(n := l))))"

definition deref :: "ledger_heap \<Rightarrow> nat option \<Rightarrow> (nat \<times> ledger_heap) option" where
  "deref h p = map_option (\<lambda>n. (n, h)) p"

definition heap_after :: "ledger_heap \<Rightarrow> (nat \<times> ledger_heap) option \<Rightarrow> ledger_heap" where
  "heap_after h s = (case s of None \<Rightarrow> h | Some (n, h') \<Rightarrow> h')"

interpretation heap_ledger: match_ledger record_at "\<lambda>(n, h). results (h n)" "\<lambda>(n, h). ledger_inv (h n)"
  by unfold_locales
    (auto simp: record_at_def record_result_def Let_def ledger_inv_append, simp add: ledger_inv_def)

section \<open>Calls\<close>

datatype call =
    Enqueue CreatureStats
  | Try_Match u32
  | Set_Ledger "nat option"
  | Arena_Set_Ledger "nat option"
  | Arena_Battle CreatureStats CreatureStats u32

record hall =
  hall_matchmaker :: "nat Matchmaker"
  hall_arena :: "nat Arena"
  hall_heap :: ledger_heap

fun do_call :: "nat \<Rightarrow> hall \<Rightarrow> call \<Rightarrow> (u32 option \<times> hall) res option" where
  "do_call fuel H (Enqueue c) =
     Some (Inr (None, H\<lparr>hall_matchmaker := enqueue (hall_matchmaker H) c\<rparr>))"
| "do_call fuel H (Set_Ledger p) =
     Some (Inr (None, H\<lparr>hall_matchmaker := set_ledger (hall_matchmaker H) p\<rparr>))"
| "do_call fuel H (Arena_Set_Ledger p) =
     Some (Inr (None, H\<lparr>hall_arena := arena_set_ledger (hall_arena H) p\<rparr>))"
| "do_call fuel H (Try_Match seed) = (let m = hall_matchmaker H in
     map_option (\<lambda>r. rbind r (\<lambda>(w, m').
         Inr (w, H\<lparr>hall_matchmaker := m\<lparr>queue := queue m'\<rparr>,
                   hall_heap := heap_after (hall_heap H) (ledger m')\<rparr>)))
       (try_match fuel record_at
         \<lparr>queue = queue m, engine = engine m, ledger = deref (hall_heap H) (ledger m)\<rparr> seed))"
| "do_call fuel H (Arena_Battle a b seed) = (let ar = hall_arena H in
     map_option (\<lambda>r. rbind r (\<lambda>(w, s). Inr (Some w, H\<lparr>hall_heap := heap_after (hall_heap H) s\<rparr>)))
       (arena_battle fuel (arena_engine ar) record_at (deref (hall_heap H) (arena_ledger ar)) a b seed))"

fun do_calls :: "nat \<Rightarrow> hall \<Rightarrow> call list \<Rightarrow> (u32 option list \<times> hall) res option" where
  "do_calls fuel H [] = Some (Inr ([], H))"
| "do_calls fuel H (c # cs) =
     (case do_call fuel H c of
        None \<Rightarrow> None
      | Some (Inl e) \<Rightarrow> Some (Inl e)
      | Some (Inr (w, H')) \<Rightarrow>
          map_option (\<lambda>r. rbind r (\<lambda>(ws, H''). Inr (w # ws, H''))) (do_calls fuel H' cs))"

section \<open>The specification\<close>

text \<open>A fixture is the ledger a battle is recorded in, if any, and the two creatures.\<close>

type_synonym fixture = "nat option \<times> CreatureStats \<times> CreatureStats"

record board_of_fixtures =
  waiting :: "CreatureStats list"
  match_book :: "nat option"
  arena_book :: "nat option"

fun spec_call :: "board_of_fixtures \<Rightarrow> call \<Rightarrow> fixture option \<times> board_of_fixtures" where
  "spec_call S (Enqueue c) = (None, S\<lparr>waiting := waiting S @ [c]\<rparr>)"
| "spec_call S (Set_Ledger p) = (None, S\<lparr>match_book := p\<rparr>)"
| "spec_call S (Arena_Set_Ledger p) = (None, S\<lparr>arena_book := p\<rparr>)"
| "spec_call S (Try_Match seed) =
     (case waiting S of
        a # b # rest \<Rightarrow> (Some (match_book S, a, b), S\<lparr>waiting := rest\<rparr>)
      | _ \<Rightarrow> (None, S))"
| "spec_call S (Arena_Battle a b seed) = (Some (arena_book S, a, b), S)"

fun spec_calls :: "board_of_fixtures \<Rightarrow> call list \<Rightarrow> fixture option list \<times> board_of_fixtures" where
  "spec_calls S [] = ([], S)"
| "spec_calls S (c # cs) =
     (let (f, S') = spec_call S c; (fs, S'') = spec_calls S' cs in (f # fs, S''))"

definition abs_hall :: "hall \<Rightarrow> board_of_fixtures" where
  "abs_hall H = \<lparr>waiting = queue (hall_matchmaker H), match_book = ledger (hall_matchmaker H),
     arena_book = arena_ledger (hall_arena H)\<rparr>"

text \<open>What a call returned against its fixture, and what it wrote into the ledger at \<open>n\<close>.\<close>

fun refereed :: "fixture option \<Rightarrow> u32 option \<Rightarrow> bool" where
  "refereed None None \<longleftrightarrow> True"
| "refereed (Some (p, a, b)) (Some w) \<longleftrightarrow> w \<in> {cid a, cid b}"
| "refereed _ _ \<longleftrightarrow> False"

lemma refereed_simps [simp]:
  "refereed None y \<longleftrightarrow> y = None" "refereed (Some (p, a, b)) y \<longleftrightarrow> (\<exists>w. y = Some w \<and> w \<in> {cid a, cid b})"
  by (cases y; simp)+

declare refereed.simps [simp del]

fun entry_in :: "nat \<Rightarrow> fixture option \<Rightarrow> u32 option \<Rightarrow> (u32 \<times> u32) list" where
  "entry_in n (Some (p, a, b)) (Some w) =
     (if p = Some n then [(w, if w = cid a then cid b else cid a)] else [])"
| "entry_in n _ _ = []"

definition entries_in :: "nat \<Rightarrow> fixture option list \<Rightarrow> u32 option list \<Rightarrow> (u32 \<times> u32) list" where
  "entries_in n fs ws = concat (map (\<lambda>(f, w). entry_in n f w) (zip fs ws))"

definition pairs_of :: "MatchLedger \<Rightarrow> (u32 \<times> u32) list" where
  "pairs_of l = map (\<lambda>r. (winner r, loser r)) (results l)"

lemma entries_in_Cons [simp]: "entries_in n (f # fs) (w # ws) = entry_in n f w @ entries_in n fs ws"
  by (simp add: entries_in_def)

section \<open>One call refines one step of the specification\<close>

fun call_fits :: "nat \<Rightarrow> call \<Rightarrow> bool" where
  "call_fits fuel (Enqueue c) \<longleftrightarrow> fit fuel c"
| "call_fits fuel (Arena_Battle a b seed) \<longleftrightarrow> fit fuel a \<and> fit fuel b"
| "call_fits fuel _ \<longleftrightarrow> True"

definition hall_ok :: "nat \<Rightarrow> hall \<Rightarrow> bool" where
  "hall_ok fuel H \<longleftrightarrow> (\<forall>p. engine (hall_matchmaker H) p \<noteq> WALL) \<and> (\<forall>p. arena_engine (hall_arena H) p \<noteq> WALL) \<and>
     (\<forall>c\<in>set (queue (hall_matchmaker H)). fit fuel c) \<and> (\<forall>n. ledger_inv (hall_heap H n))"

lemma record_at_effect:
  "snd (record_at (n, h) w x) = (n, h(n := snd (record_result (h n) w x)))"
  by (simp add: record_at_def split_def Let_def)

lemma pairs_of_record [simp]: "pairs_of (snd (record_result l w x)) = pairs_of l @ [(w, x)]"
  by (simp add: pairs_of_def record_result_def Let_def)

lemma heap_record:
  assumes "\<forall>n. ledger_inv (h n)"
    and "s = (case p of None \<Rightarrow> None | Some n \<Rightarrow> Some (snd (record_at (n, h) w (if w = cid a then cid b else cid a))))"
  shows "\<forall>n. ledger_inv (heap_after h s n) \<and>
    pairs_of (heap_after h s n) = pairs_of (h n) @ entry_in n (Some (p, a, b)) (Some w)"
  using assms by (cases p) (auto simp: heap_after_def record_at_effect mem_ledger.rec_inv)

lemma arena_battle_at:
  assumes "fight fuel bd a b seed = Some (Inr w)"
  shows "arena_battle fuel bd record_at (deref h p) a b seed =
    Some (Inr (w, case p of None \<Rightarrow> None | Some n \<Rightarrow> Some (snd (record_at (n, h) w (if w = cid a then cid b else cid a)))))"
  using assms by (cases p) (simp_all add: arena_battle_def deref_def Let_def)

lemma try_match_at:
  assumes "fight fuel bd a b seed = Some (Inr w)"
  shows "try_match fuel record_at \<lparr>queue = a # b # rest, engine = bd, ledger = deref h p\<rparr> seed =
    Some (Inr (Some w, \<lparr>queue = rest, engine = bd, ledger =
      (case p of None \<Rightarrow> None | Some n \<Rightarrow> Some (snd (record_at (n, h) w (if w = cid a then cid b else cid a))))\<rparr>))"
  using assms by (cases p) (simp_all add: deref_def Let_def)

declare try_match.simps [simp del]

lemma call_refines:
  assumes "hall_ok fuel H" and "call_fits fuel c"
  shows "\<exists>w H'. do_call fuel H c = Some (Inr (w, H')) \<and> hall_ok fuel H' \<and>
    snd (spec_call (abs_hall H) c) = abs_hall H' \<and> refereed (fst (spec_call (abs_hall H) c)) w \<and>
    (\<forall>n. pairs_of (hall_heap H' n) = pairs_of (hall_heap H n) @ entry_in n (fst (spec_call (abs_hall H) c)) w)"
proof (cases c)
  case (Try_Match seed)
  let ?m = "hall_matchmaker H"
  show ?thesis
  proof (cases "\<exists>a b rest. queue ?m = a # b # rest")
    case True
    then obtain a b rest where q: "queue ?m = a # b # rest" by blast
    with assms(1) fit_fight [of fuel a b "engine ?m" seed] obtain w
      where w: "fight fuel (engine ?m) a b seed = Some (Inr w)" "w \<in> {cid a, cid b}"
      by (auto simp: hall_ok_def)
    from assms(1) have "\<forall>n. ledger_inv (hall_heap H n)" by (simp add: hall_ok_def)
    from heap_record [OF this refl, where w = w and a = a and b = b and p = "ledger ?m"]
    moreover have "do_call fuel H c = Some (Inr (Some w, H\<lparr>hall_matchmaker := ?m\<lparr>queue := rest\<rparr>,
        hall_heap := heap_after (hall_heap H) (case ledger ?m of None \<Rightarrow> None | Some n \<Rightarrow>
          Some (snd (record_at (n, hall_heap H) w (if w = cid a then cid b else cid a))))\<rparr>))"
      by (simp add: Try_Match Let_def q try_match_at [OF w(1)])
    ultimately show ?thesis using assms(1) q w(2) Try_Match
      by (auto simp: hall_ok_def abs_hall_def)
  next
    case False
    then consider "queue ?m = []" | a where "queue ?m = [a]"
      by (cases "queue ?m" rule: remdups_adj.cases) auto
    then show ?thesis using assms(1) Try_Match
      by cases (auto simp: hall_ok_def abs_hall_def heap_after_def deref_def Let_def try_match.simps split: option.split)
  qed
next
  case (Arena_Battle a b seed)
  let ?ar = "hall_arena H"
  from assms Arena_Battle fit_fight [of fuel a b "arena_engine ?ar" seed] obtain w
    where w: "fight fuel (arena_engine ?ar) a b seed = Some (Inr w)" "w \<in> {cid a, cid b}"
    by (auto simp: hall_ok_def)
  from assms(1) have "\<forall>n. ledger_inv (hall_heap H n)" by (simp add: hall_ok_def)
  from heap_record [OF this refl, where w = w and a = a and b = b and p = "arena_ledger ?ar"]
  moreover have "do_call fuel H c = Some (Inr (Some w, H\<lparr>hall_heap := heap_after (hall_heap H)
      (case arena_ledger ?ar of None \<Rightarrow> None | Some n \<Rightarrow>
        Some (snd (record_at (n, hall_heap H) w (if w = cid a then cid b else cid a))))\<rparr>))"
    by (simp add: Arena_Battle Let_def arena_battle_at [OF w(1)])
  ultimately show ?thesis using assms(1) w(2) Arena_Battle
    by (auto simp: hall_ok_def abs_hall_def)
qed (use assms in \<open>auto simp: hall_ok_def abs_hall_def enqueue_def set_ledger_def arena_set_ledger_def\<close>)

section \<open>Histories\<close>

lemma calls_refine:
  assumes "hall_ok fuel H" and "\<forall>c\<in>set cs. call_fits fuel c"
  shows "\<exists>ws H'. do_calls fuel H cs = Some (Inr (ws, H')) \<and> hall_ok fuel H' \<and>
    abs_hall H' = snd (spec_calls (abs_hall H) cs) \<and>
    list_all2 refereed (fst (spec_calls (abs_hall H) cs)) ws \<and>
    (\<forall>n. pairs_of (hall_heap H' n) =
       pairs_of (hall_heap H n) @ entries_in n (fst (spec_calls (abs_hall H) cs)) ws)"
  using assms
proof (induction cs arbitrary: H)
  case (Cons c cs)
  from Cons.prems call_refines [of fuel H c] obtain w H1 where one:
    "do_call fuel H c = Some (Inr (w, H1))" "hall_ok fuel H1" "snd (spec_call (abs_hall H) c) = abs_hall H1"
    "refereed (fst (spec_call (abs_hall H) c)) w"
    "\<forall>n. pairs_of (hall_heap H1 n) = pairs_of (hall_heap H n) @ entry_in n (fst (spec_call (abs_hall H) c)) w"
    by auto
  from Cons.IH [OF one(2)] Cons.prems(2) obtain ws H' where rest:
    "do_calls fuel H1 cs = Some (Inr (ws, H'))" "hall_ok fuel H'"
    "abs_hall H' = snd (spec_calls (abs_hall H1) cs)"
    "list_all2 refereed (fst (spec_calls (abs_hall H1) cs)) ws"
    "\<forall>n. pairs_of (hall_heap H' n) =
       pairs_of (hall_heap H1 n) @ entries_in n (fst (spec_calls (abs_hall H1) cs)) ws"
    by auto
  show ?case
    using one rest by (intro exI [of _ "w # ws"] exI [of _ H']) (simp add: split_def Let_def)
qed (simp add: entries_in_def)

section \<open>Properties\<close>

text \<open>
  C22: a matchmaker and an arena refine a first-in first-out queue under every history of their
  calls, also when they share a ledger or have it swapped. From boards without walls, creatures
  whose fights end within the fuel and ledgers in order, every sequence of \<open>enqueue\<close>,
  \<open>try_match\<close>, \<open>Arena::battle\<close> and \<open>set_ledger\<close> calls
  returns; it leaves the queue and the pointers the specification says; each call returns a winner
  of the pair the specification picked, and none where it picked none; and the ledger at every
  address grows by exactly the battles that were fought while an object pointed to it, winner first,
  in the order of the calls, under the next consecutive battle ids.
\<close>

theorem match_history:
  assumes "\<forall>p. engine (hall_matchmaker H) p \<noteq> WALL \<and> arena_engine (hall_arena H) p \<noteq> WALL"
    and "\<forall>c\<in>set (queue (hall_matchmaker H)). fit fuel c" and "\<forall>n. ledger_inv (hall_heap H n)"
    and "\<forall>c\<in>set cs. call_fits fuel c" and "spec_calls (abs_hall H) cs = (fs, S)"
  shows "\<exists>ws H'. do_calls fuel H cs = Some (Inr (ws, H')) \<and> abs_hall H' = S \<and> list_all2 refereed fs ws \<and>
    (\<forall>n. pairs_of (hall_heap H' n) = pairs_of (hall_heap H n) @ entries_in n fs ws \<and>
         map battle_id (results (hall_heap H' n)) = map (\<lambda>k. of_nat (Suc k)) [0..<length (results (hall_heap H' n))])"
proof -
  have "hall_ok fuel H" using assms(1-3) by (auto simp: hall_ok_def)
  from calls_refine [OF this assms(4)] assms(5) obtain ws H' where
    "do_calls fuel H cs = Some (Inr (ws, H'))" "hall_ok fuel H'" "abs_hall H' = S" "list_all2 refereed fs ws"
    "\<forall>n. pairs_of (hall_heap H' n) = pairs_of (hall_heap H n) @ entries_in n fs ws"
    by auto
  then show ?thesis
    by (intro exI [of _ ws] exI [of _ H'])
      (auto simp: hall_ok_def ledger_inv_def intro!: nth_equalityI)
qed

text \<open>
  Three creatures queue up, the first two are matched into ledger 0, which the arena shares; the
  arena then moves to ledger 1.
\<close>

definition sample_hall :: hall where
  "sample_hall = \<lparr>hall_matchmaker = new_matchmaker clear_board (Some 0),
     hall_arena = new_arena clear_board (Some 0), hall_heap = (\<lambda>n. new_ledger)\<rparr>"

definition sample_calls :: "call list" where
  "sample_calls = [Enqueue (basic 1 3 5 2), Try_Match 9, Enqueue (basic 2 4 4 2), Enqueue (basic 3 1 1 1), Try_Match 9,
     Arena_Battle (basic 1 3 5 2) (basic 3 1 1 1) 4, Arena_Set_Ledger (Some 1),
     Arena_Battle (basic 2 4 4 2) (basic 1 3 5 2) 4]"

lemma sample_fixtures: "spec_calls (abs_hall sample_hall) sample_calls =
  ([None, None, None, None, Some (Some 0, basic 1 3 5 2, basic 2 4 4 2), Some (Some 0, basic 1 3 5 2, basic 3 1 1 1),
    None, Some (Some 1, basic 2 4 4 2, basic 1 3 5 2)],
   \<lparr>waiting = [basic 3 1 1 1], match_book = Some 0, arena_book = Some 1\<rparr>)"
  by (simp add: abs_hall_def sample_hall_def sample_calls_def new_matchmaker_def new_arena_def)

lemma match_history_witness:
  "\<exists>ws H'. do_calls 70 sample_hall sample_calls = Some (Inr (ws, H')) \<and>
     queue (hall_matchmaker H') = [basic 3 1 1 1] \<and> length ws = 8 \<and>
     length (results (hall_heap H' 0)) = 2 \<and> length (results (hall_heap H' 1)) = 1 \<and> results (hall_heap H' 2) = []"
proof -
  have walls: "\<forall>p. engine (hall_matchmaker sample_hall) p \<noteq> WALL \<and> arena_engine (hall_arena sample_hall) p \<noteq> WALL"
    and q: "\<forall>c\<in>set (queue (hall_matchmaker sample_hall)). fit 70 c" and inv: "\<forall>n. ledger_inv (hall_heap sample_hall n)"
    by (simp_all add: sample_hall_def new_matchmaker_def new_arena_def clear_board_def)
  have fits: "\<forall>c\<in>set sample_calls. call_fits 70 c" by (simp add: sample_calls_def fit_basic)
  from match_history [OF walls q inv fits sample_fixtures] obtain ws H' where
    r: "do_calls 70 sample_hall sample_calls = Some (Inr (ws, H'))"
      "abs_hall H' = \<lparr>waiting = [basic 3 1 1 1], match_book = Some 0, arena_book = Some 1\<rparr>"
      "list_all2 refereed [None, None, None, None, Some (Some 0, basic 1 3 5 2, basic 2 4 4 2),
         Some (Some 0, basic 1 3 5 2, basic 3 1 1 1), None, Some (Some 1, basic 2 4 4 2, basic 1 3 5 2)] ws"
    and l: "\<And>n. pairs_of (hall_heap H' n) = pairs_of (hall_heap sample_hall n) @
      entries_in n [None, None, None, None, Some (Some 0, basic 1 3 5 2, basic 2 4 4 2),
         Some (Some 0, basic 1 3 5 2, basic 3 1 1 1), None, Some (Some 1, basic 2 4 4 2, basic 1 3 5 2)] ws"
    by auto
  from r(3) obtain w1 w2 w3 x where ws: "ws = [x, x, x, x, Some w1, Some w2, x, Some w3]" "x = None"
    by (auto simp: list_all2_Cons1)
  have "pairs_of (hall_heap sample_hall n) = []" for n
    by (simp add: pairs_of_def sample_hall_def new_ledger_def)
  then have "length (pairs_of (hall_heap H' 0)) = 2" "length (pairs_of (hall_heap H' 1)) = 1" "pairs_of (hall_heap H' 2) = []"
    by (simp_all add: l ws entries_in_def)
  then have "length (results (hall_heap H' 0)) = 2" "length (results (hall_heap H' 1)) = 1" "results (hall_heap H' 2) = []"
    by (simp_all add: pairs_of_def)
  with r(1,2) ws show ?thesis
    by (intro exI [of _ ws] exI [of _ H']) (simp add: abs_hall_def)
qed

end
