(* ===== verification/Int8_Kernel.thy ===== *)
theory Int8_Kernel
  imports Prelude
begin

text \<open>
  The INT8 matrix multiply of \<open>include/neuropet/int8_kernel.hpp\<close>: the scalar tile, the AVX2,
  NEON and SSE2 tiles lane by lane, the row-parallel driver under any schedule of its threads,
  and the GPU entry point with its fallback. Matrices are vectors of \<open>int8_t\<close> in row-major
  order; an accumulator is an \<open>int32_t\<close>, kept as a 32-bit word: the scalar code adds to it with
  the signed addition of C++ (\<open>i32\<close> faults on overflow), the vector instructions wrap.
  Which tile is compiled is decided by the preprocessor; the driver takes it as an argument.
\<close>

section \<open>Worker count\<close>

fun digits_val :: "int \<Rightarrow> string \<Rightarrow> int" where
  "digits_val v [] = v"
| "digits_val v (c # s) =
     (let d = of_char c :: int in if 48 \<le> d \<and> d \<le> 57 then digits_val (10 * v + (d - 48)) s else v)"

definition atoi :: "string \<Rightarrow> int res" where
  \<comment> \<open>the C library's: white space, an optional sign, digits; a value outside \<open>int\<close> is undefined\<close>
  "atoi s = i32
     (case dropWhile is_space s of
        [] \<Rightarrow> 0
      | c # r \<Rightarrow> if c = CHR ''-'' then - digits_val 0 r
                else if c = CHR ''+'' then digits_val 0 r
                else digits_val 0 (c # r))"

definition tune_thread_count :: "u32 \<Rightarrow> string option \<Rightarrow> nat \<Rightarrow> u32 res" where
  "tune_thread_count hardware env rows =
     rbind (case env of
              None \<Rightarrow> Inr hardware
            | Some s \<Rightarrow> rbind (atoi s) (\<lambda>v. let val = word_of_int v in Inr (if val > 0 then val else hardware)))
       (\<lambda>w. let workers = (if w = 0 then 1 else w) in Inr (of_nat (min (unat workers) rows)))"

section \<open>Tiles\<close>

definition clamp8 :: "int \<Rightarrow> i8" where
  "clamp8 v = word_of_int (max (- 128) (min 127 v))"

definition mac :: "i8 list \<Rightarrow> nat \<Rightarrow> i8 list \<Rightarrow> nat \<Rightarrow> nat \<Rightarrow> u32 list \<Rightarrow> u32 list res" where
  \<comment> \<open>\<open>acc[j] += A[ai] * B[bi]\<close>, the operands widened to \<open>int32_t\<close>\<close>
  "mac A ai B bi j acc =
     rbind (at A ai) (\<lambda>a. rbind (at B bi) (\<lambda>b. rbind (at acc j) (\<lambda>v.
     rbind (i32 (sint v + sint a * sint b)) (\<lambda>v'. upd acc j (word_of_int v')))))"

definition store_tile :: "u32 list \<Rightarrow> i8 list \<Rightarrow> nat \<Rightarrow> nat \<Rightarrow> i8 list res" where
  "store_tile acc C off n =
     rfold (\<lambda>j C. rbind (at acc j) (\<lambda>v. upd C (off + j) (clamp8 (sint v)))) [0..<n] C"

definition scalar_tile ::
    "i8 list \<Rightarrow> i8 list \<Rightarrow> nat \<Rightarrow> nat \<Rightarrow> nat \<Rightarrow> nat \<Rightarrow> nat \<Rightarrow> i8 list \<times> u32 list \<Rightarrow> (i8 list \<times> u32 list) res" where
  "scalar_tile A B N K i jj tile = (\<lambda>(C, acc).
     rbind (rfold (\<lambda>t. rfold (\<lambda>j. mac A (i * K + t) B (t * N + jj + j) j) [0..<tile]) [0..<K]
              (replicate tile 0 @ drop tile acc)) (\<lambda>acc'.
     rbind (store_tile acc' C (i * N + jj) tile) (\<lambda>C'. Inr (C', acc'))))"

text \<open>
  A vector register is the list of its lanes. \<open>simd_tile\<close> is the common text of the
  three vector tiles, called with \<open>A + aoff\<close>, \<open>B + boff\<close>, \<open>C +
  coff\<close>; \<open>block a B bi j acc\<close> is the body of the loop over 16 columns. The rows
  of \<open>B\<close> are \<open>n\<close> apart, the width the tile is called with.
\<close>

definition simd_tile ::
    "(i8 \<Rightarrow> i8 list \<Rightarrow> nat \<Rightarrow> nat \<Rightarrow> u32 list \<Rightarrow> u32 list res) \<Rightarrow> i8 list \<Rightarrow> nat \<Rightarrow> i8 list \<Rightarrow> nat \<Rightarrow> nat \<Rightarrow>
     nat \<Rightarrow> nat \<Rightarrow> i8 list \<times> u32 list \<Rightarrow> (i8 list \<times> u32 list) res" where
  "simd_tile block A aoff B boff coff n K = (\<lambda>(C, acc).
     rbind (rfold (\<lambda>t acc.
         rbind (at A (aoff + t)) (\<lambda>a.
         rbind (rfold (\<lambda>q. block a B (boff + t * n + 16 * q) (16 * q)) [0..<n div 16] acc)
           (rfold (\<lambda>j. mac A (aoff + t) B (boff + t * n + j) j) [16 * (n div 16)..<n])))
       [0..<K] (replicate (length acc) 0)) (\<lambda>acc'.
     rbind (store_tile acc' C coff n) (\<lambda>C'. Inr (C', acc'))))"

definition mullo_epi16 :: "u16 list \<Rightarrow> u16 list \<Rightarrow> u16 list" where
  "mullo_epi16 = map2 (*)"

definition add_epi32 :: "u32 list \<Rightarrow> u32 list \<Rightarrow> u32 list" where
  "add_epi32 = map2 (+)"

definition avx2_block :: "i8 \<Rightarrow> i8 list \<Rightarrow> nat \<Rightarrow> nat \<Rightarrow> u32 list \<Rightarrow> u32 list res" where
  "avx2_block a B bi j acc =
     (let a16 = replicate 16 (scast a) in
      rbind (loadu B bi 16) (\<lambda>b8.
      let b16 = map scast b8; prod = mullo_epi16 a16 b16;
          prod_lo = map scast (take 8 prod); prod_hi = map scast (drop 8 prod) in
      rbind (loadu acc j 8) (\<lambda>acc_lo. rbind (loadu acc (j + 8) 8) (\<lambda>acc_hi.
      rbind (storeu acc j (add_epi32 acc_lo prod_lo)) (\<lambda>acc.
      storeu acc (j + 8) (add_epi32 acc_hi prod_hi))))))"

definition vmull_s8 :: "i8 list \<Rightarrow> i8 list \<Rightarrow> u16 list" where
  \<comment> \<open>the widening multiply of NEON\<close>
  "vmull_s8 = map2 (\<lambda>x y. word_of_int (sint x * sint y))"

definition neon_block :: "i8 \<Rightarrow> i8 list \<Rightarrow> nat \<Rightarrow> nat \<Rightarrow> u32 list \<Rightarrow> u32 list res" where
  "neon_block a B bi j acc =
     (let a8 = replicate 8 a in
      rbind (loadu B bi 16) (\<lambda>b8.
      let prod0 = vmull_s8 (take 8 b8) a8; prod1 = vmull_s8 (drop 8 b8) a8 in
      rbind (loadu acc j 4) (\<lambda>acc0. rbind (loadu acc (j + 4) 4) (\<lambda>acc1.
      rbind (loadu acc (j + 8) 4) (\<lambda>acc2. rbind (loadu acc (j + 12) 4) (\<lambda>acc3.
      rbind (storeu acc j (add_epi32 acc0 (map scast (take 4 prod0)))) (\<lambda>acc.
      rbind (storeu acc (j + 4) (add_epi32 acc1 (map scast (drop 4 prod0)))) (\<lambda>acc.
      rbind (storeu acc (j + 8) (add_epi32 acc2 (map scast (take 4 prod1)))) (\<lambda>acc.
      storeu acc (j + 12) (add_epi32 acc3 (map scast (drop 4 prod1))))))))))))"

definition cmpgt_epi8 :: "i8 list \<Rightarrow> i8 list \<Rightarrow> i8 list" where
  "cmpgt_epi8 = map2 (\<lambda>x y. if y <s x then - 1 else 0)"

definition unpack_epi8 :: "i8 list \<Rightarrow> i8 list \<Rightarrow> u16 list" where
  \<comment> \<open>interleaving the bytes of two registers: the second gives the high byte of each lane\<close>
  "unpack_epi8 = map2 (\<lambda>lo hi. word_cat hi lo)"

definition srai_epi16 :: "nat \<Rightarrow> u16 list \<Rightarrow> u16 list" where
  "srai_epi16 k = map (signed_drop_bit k)"

definition unpack_epi16 :: "u16 list \<Rightarrow> u16 list \<Rightarrow> u32 list" where
  "unpack_epi16 = map2 (\<lambda>lo hi. word_cat hi lo)"

definition sse2_block :: "i8 \<Rightarrow> i8 list \<Rightarrow> nat \<Rightarrow> nat \<Rightarrow> u32 list \<Rightarrow> u32 list res" where
  "sse2_block a B bi j acc =
     (let a16 = replicate 8 (scast a) in
      rbind (loadu B bi 16) (\<lambda>b8.
      let sign = cmpgt_epi8 (replicate 16 0) b8;
          b16_lo = unpack_epi8 (take 8 b8) (take 8 sign); b16_hi = unpack_epi8 (drop 8 b8) (drop 8 sign);
          prod_lo = mullo_epi16 a16 b16_lo; prod_hi = mullo_epi16 a16 b16_hi in
      rbind (loadu acc j 4) (\<lambda>acc0. rbind (loadu acc (j + 4) 4) (\<lambda>acc1.
      rbind (loadu acc (j + 8) 4) (\<lambda>acc2. rbind (loadu acc (j + 12) 4) (\<lambda>acc3.
      let prod0 = unpack_epi16 (take 4 prod_lo) (take 4 (srai_epi16 15 prod_lo));
          prod1 = unpack_epi16 (drop 4 prod_lo) (drop 4 (srai_epi16 15 prod_lo));
          prod2 = unpack_epi16 (take 4 prod_hi) (take 4 (srai_epi16 15 prod_hi));
          prod3 = unpack_epi16 (drop 4 prod_hi) (drop 4 (srai_epi16 15 prod_hi)) in
      rbind (storeu acc j (add_epi32 acc0 prod0)) (\<lambda>acc.
      rbind (storeu acc (j + 4) (add_epi32 acc1 prod1)) (\<lambda>acc.
      rbind (storeu acc (j + 8) (add_epi32 acc2 prod2)) (\<lambda>acc.
      storeu acc (j + 12) (add_epi32 acc3 prod3))))))))))"

definition vector_tile ::
    "(i8 \<Rightarrow> i8 list \<Rightarrow> nat \<Rightarrow> nat \<Rightarrow> u32 list \<Rightarrow> u32 list res) \<Rightarrow> i8 list \<Rightarrow> i8 list \<Rightarrow> nat \<Rightarrow> nat \<Rightarrow>
     nat \<Rightarrow> nat \<Rightarrow> nat \<Rightarrow> i8 list \<times> u32 list \<Rightarrow> (i8 list \<times> u32 list) res" where
  \<comment> \<open>the call of a vector tile in \<open>int8_matmul\<close>\<close>
  "vector_tile block A B N K i jj tile = simd_tile block A (i * K) B jj (i * N + jj) tile K"

section \<open>The driver\<close>

text \<open>
  A thread's work is the list of its tiles \<open>(i, jj)\<close>; its accumulator is its own,
  \<open>C\<close> is shared. A schedule names the thread that runs its next tile. The main thread
  returns after joining all threads, so a run is complete when no tile is left: \<open>None\<close>
  is a schedule that stops earlier. Without threads the list has one element.
\<close>

type_synonym tile_kernel =
  "i8 list \<Rightarrow> i8 list \<Rightarrow> nat \<Rightarrow> nat \<Rightarrow> nat \<Rightarrow> nat \<Rightarrow> nat \<Rightarrow> i8 list \<times> u32 list \<Rightarrow> (i8 list \<times> u32 list) res"
type_synonym threads = "((nat \<times> nat) list \<times> u32 list) list"

definition tile_starts :: "nat \<Rightarrow> nat \<Rightarrow> nat list" where
  "tile_starts N ts = map (\<lambda>q. q * ts) [0..<(N + ts - 1) div ts]"

definition thread_tasks :: "nat \<Rightarrow> nat \<Rightarrow> nat \<times> nat \<Rightarrow> (nat \<times> nat) list" where
  "thread_tasks N ts = (\<lambda>(row_begin, row_end). List.product [row_begin..<row_end] (tile_starts N ts))"

definition run_tile ::
    "tile_kernel \<Rightarrow> i8 list \<Rightarrow> i8 list \<Rightarrow> nat \<Rightarrow> nat \<Rightarrow> nat \<Rightarrow> nat \<times> nat \<Rightarrow> i8 list \<times> u32 list \<Rightarrow>
     (i8 list \<times> u32 list) res" where
  "run_tile kern A B N K ts = (\<lambda>(i, jj) (C, acc).
     let tile = min ts (N - jj);
         acc' = (if length acc < tile then acc @ replicate (tile - length acc) 0 else acc)
     in kern A B N K i jj tile (C, acc'))"

definition thread_step ::
    "tile_kernel \<Rightarrow> i8 list \<Rightarrow> i8 list \<Rightarrow> nat \<Rightarrow> nat \<Rightarrow> nat \<Rightarrow> nat \<Rightarrow> i8 list \<times> threads \<Rightarrow> (i8 list \<times> threads) res" where
  "thread_step kern A B N K ts w = (\<lambda>(C, ths).
     if w < length ths then
       (case ths ! w of
          ([], acc) \<Rightarrow> Inr (C, ths)
        | (x # xs, acc) \<Rightarrow>
            rbind (run_tile kern A B N K ts x (C, acc)) (\<lambda>(C', acc'). Inr (C', ths[w := (xs, acc')])))
     else Inr (C, ths))"

fun launch_threads :: "nat \<Rightarrow> nat \<Rightarrow> nat \<Rightarrow> nat \<Rightarrow> (nat \<times> nat) list" where
  \<comment> \<open>the loop that starts the threads, with the number of workers left\<close>
  "launch_threads 0 rows_per_worker start M = []"
| "launch_threads (Suc w) rows_per_worker start M =
     (if start < M then
        let stop = min (start + rows_per_worker) M in (start, stop) # launch_threads w rows_per_worker stop M
      else [])"

definition row_chunks :: "nat \<Rightarrow> nat \<Rightarrow> nat \<Rightarrow> (nat \<times> nat) list" where
  "row_chunks workers M N =
     (if workers \<le> 1 \<or> M * N < 1024 then [(0, M)]
      else launch_threads workers ((M + workers - 1) div workers) 0 M)"

definition int8_matmul ::
    "tile_kernel \<Rightarrow> nat \<Rightarrow> nat \<Rightarrow> nat list \<Rightarrow> i8 list \<Rightarrow> i8 list \<Rightarrow> nat \<Rightarrow> nat \<Rightarrow> nat \<Rightarrow> i8 list res option" where
  "int8_matmul kern INT8_TILE workers sched A B M N K =
     (let ts = min INT8_TILE N;
          ths = map (\<lambda>c. (thread_tasks N ts c, replicate ts 0)) (row_chunks workers M N)
      in case rfold (thread_step kern A B N K ts) sched (replicate (M * N) 0, ths) of
           Inl e \<Rightarrow> Some (Inl e)
         | Inr (C, ths') \<Rightarrow> if list_all (\<lambda>th. fst th = []) ths' then Some (Inr C) else None)"

section \<open>Lanes\<close>

lemma sint_i8: "- 128 \<le> sint (a :: i8)" "sint (a :: i8) \<le> 127"
  using sint_ge [of a] sint_lt [of a] by simp_all

lemma i8_product: "- 16384 \<le> sint (a :: i8) * sint (b :: i8)" "sint (a :: i8) * sint (b :: i8) \<le> 16384"
proof -
  have "\<bar>sint a * sint b\<bar> \<le> 128 * 128"
    unfolding abs_mult by (rule mult_mono) (use sint_i8 [of a] sint_i8 [of b] in auto)
  then show "- 16384 \<le> sint a * sint b" "sint a * sint b \<le> 16384" by linarith+
qed

lemma sint_word_of_int_fits:
  "- (2 ^ (LENGTH('a) - 1)) \<le> x \<Longrightarrow> x < 2 ^ (LENGTH('a) - 1) \<Longrightarrow> sint (word_of_int x :: 'a::len word) = x"
  by (simp add: sint_sbintrunc' signed_take_bit_int_eq_self)

lemma sint_u32_fits: "in_i32 x \<Longrightarrow> sint (word_of_int x :: u32) = x"
  by (rule sint_word_of_int_fits) (auto simp: in_i32_def)

lemma scast_eq: "scast w = (word_of_int (sint w) :: 'b::len word)" for w :: "'a::len word"
  by simp

text \<open>The product of two bytes fits 16 bits, so the narrow multiply loses nothing.\<close>

lemma lane_product:
  "(scast ((scast a :: u16) * scast b) :: u32) = word_of_int (sint a * sint b)" for a b :: i8
proof -
  have "(scast a :: u16) * scast b = word_of_int (sint a * sint b)" by (simp add: wi_hom_mult)
  moreover have "sint (word_of_int (sint a * sint b) :: u16) = sint a * sint b"
    by (rule sint_word_of_int_fits) (use i8_product [of a b] in auto)
  ultimately show ?thesis by (simp only: scast_eq [where 'b = 32])
qed

lemma lane_vmull:
  "(scast (word_of_int (sint a * sint b) :: u16) :: u32) = word_of_int (sint a * sint b)" for a b :: i8
proof -
  have "sint (word_of_int (sint a * sint b) :: u16) = sint a * sint b"
    by (rule sint_word_of_int_fits) (use i8_product [of a b] in auto)
  then show ?thesis by (simp only: scast_eq [where 'b = 32])
qed

lemma sless_0_bit: "w <s 0 \<longleftrightarrow> bit w (LENGTH('a) - 1)" for w :: "'a::len word"
  by (simp add: word_sless_alt bit_last_iff)

lemma sign_extend_8: "word_cat (if b <s 0 then - 1 else 0 :: i8) b = (scast b :: u16)" for b :: i8
  by (rule bit_word_eqI)
     (auto simp: bit_word_cat_iff bit_word_scast_iff sless_0_bit dest: bit_imp_le_length)

lemma sign_extend_16: "word_cat (signed_drop_bit 15 p) p = (scast p :: u32)" for p :: u16
proof (rule bit_word_eqI)
  fix n
  show "bit (word_cat (signed_drop_bit 15 p) p :: u32) n \<longleftrightarrow> bit (scast p :: u32) n"
    by (cases "n = 16") (auto simp: bit_word_cat_iff bit_word_scast_iff bit_signed_drop_bit_iff
      dest: bit_imp_le_length)
qed

lemma lane_norm:
  "(scast ((scast a :: u16) * scast b) :: u32) = scast a * scast b"
  "x <s 0 \<Longrightarrow> word_cat (- 1 :: i8) x = (scast x :: u16)"
  "\<not> x <s 0 \<Longrightarrow> ucast x = (scast x :: u16)" for a b x :: i8
  using lane_product [of a b] sign_extend_8 [of x] by auto

section \<open>Vector blocks\<close>

definition block_result :: "i8 \<Rightarrow> i8 list \<Rightarrow> nat \<Rightarrow> nat \<Rightarrow> u32 list \<Rightarrow> u32 list" where
  "block_result a B bi j acc = map (\<lambda>k. if j \<le> k \<and> k < j + 16
     then acc ! k + word_of_int (sint a * sint (B ! (bi + (k - j)))) else acc ! k) [0..<length acc]"


lemmas lane_simps = Let_def loadu_Inr storeu_Inr mullo_epi16_def add_epi32_def vmull_s8_def
  cmpgt_epi8_def unpack_epi8_def unpack_epi16_def srai_epi16_def map2_map lane_product lane_vmull
  sign_extend_8 sign_extend_16 take_map drop_map

lemma avx2_block:
  assumes "bi + 16 \<le> length B" and "j + 16 \<le> length acc"
  shows "avx2_block a B bi j acc = Inr (block_result a B bi j acc)"
  using assms
  by (simp add: avx2_block_def lane_simps del: upt_rec_numeral)
     (auto simp: block_result_def lane_norm sign_extend_16 algebra_simps intro!: nth_equalityI)

lemma neon_block:
  assumes "bi + 16 \<le> length B" and "j + 16 \<le> length acc"
  shows "neon_block a B bi j acc = Inr (block_result a B bi j acc)"
  using assms
  by (simp add: neon_block_def lane_simps del: upt_rec_numeral)
     (auto simp: block_result_def lane_norm sign_extend_16 algebra_simps intro!: nth_equalityI)

lemma sse2_block:
  assumes "bi + 16 \<le> length B" and "j + 16 \<le> length acc"
  shows "sse2_block a B bi j acc = Inr (block_result a B bi j acc)"
  using assms
  by (simp add: sse2_block_def lane_simps del: upt_rec_numeral)
     (auto simp: block_result_def lane_norm sign_extend_16 algebra_simps intro!: nth_equalityI)

section \<open>Dot products\<close>

definition dot :: "i8 list \<Rightarrow> nat \<Rightarrow> i8 list \<Rightarrow> (nat \<Rightarrow> nat) \<Rightarrow> nat \<Rightarrow> int" where
  "dot A ao B bi t = (\<Sum>s<t. sint (A ! (ao + s)) * sint (B ! bi s))"

lemma dot_simps [simp]:
  "dot A ao B bi 0 = 0"
  "dot A ao B bi (Suc t) = dot A ao B bi t + sint (A ! (ao + t)) * sint (B ! bi t)"
  by (simp_all add: dot_def)

lemma dot_bound: "\<bar>dot A ao B bi t\<bar> \<le> 16384 * int t"
proof (induction t)
  case (Suc t)
  with i8_product [of "A ! (ao + t)" "B ! bi t"] show ?case by simp
qed simp

lemma dot_i32: "t \<le> 131071 \<Longrightarrow> in_i32 (dot A ao B bi t)"
  using dot_bound [of A ao B bi t] by (auto simp: in_i32_def)

lemma sint_dot: "t \<le> 131071 \<Longrightarrow> sint (word_of_int (dot A ao B bi t) :: u32) = dot A ao B bi t"
  by (intro sint_u32_fits dot_i32)

text \<open>The accumulator in the middle of row \<open>t\<close>: the first \<open>q\<close> of \<open>n\<close> columns are done.\<close>

definition partial_sums ::
    "i8 list \<Rightarrow> nat \<Rightarrow> i8 list \<Rightarrow> (nat \<Rightarrow> nat \<Rightarrow> nat) \<Rightarrow> nat \<Rightarrow> u32 list \<Rightarrow> nat \<Rightarrow> nat \<Rightarrow> u32 list" where
  "partial_sums A ao B bx n rest t q =
     map (\<lambda>j. word_of_int (dot A ao B (bx j) (if j < q then Suc t else t))) [0..<n] @ rest"

lemma partial_sums_next: "partial_sums A ao B bx n rest t n = partial_sums A ao B bx n rest (Suc t) 0"
  by (simp add: partial_sums_def)

lemma partial_sums_init: "replicate n 0 @ rest = partial_sums A ao B bx n rest 0 0"
  by (auto simp: partial_sums_def map_replicate_const intro!: nth_equalityI)

lemma length_partial_sums [simp]: "length (partial_sums A ao B bx n rest t q) = n + length rest"
  by (simp add: partial_sums_def)

lemma mac_step:
  assumes "q < n" and "ao + t < length A" and "bx q t < length B" and "t < 131071"
  shows "mac A (ao + t) B (bx q t) q (partial_sums A ao B bx n rest t q) =
    Inr (partial_sums A ao B bx n rest t (Suc q))"
proof -
  have "in_i32 (dot A ao B (bx q) (Suc t))" "sint (word_of_int (dot A ao B (bx q) t) :: u32) = dot A ao B (bx q) t"
    using assms(4) by (auto intro!: dot_i32 sint_dot simp del: dot_simps)
  then show ?thesis
    using assms
    by (auto simp: mac_def partial_sums_def nth_append list_update_append less_Suc_eq
        intro!: nth_equalityI)
qed

lemma mac_loop:
  assumes "m \<le> n" and "ao + t < length A" and "\<And>j. j < n \<Longrightarrow> bx j t < length B" and "t < 131071"
  shows "rfold (\<lambda>j. mac A (ao + t) B (bx j t) j) [m..<n] (partial_sums A ao B bx n rest t m) =
    Inr (partial_sums A ao B bx n rest (Suc t) 0)"
  unfolding partial_sums_next [symmetric]
  using assms by (intro rfold_steps mac_step) auto

text \<open>\<open>put xs off C\<close>: \<open>C\<close> with \<open>xs\<close> written at \<open>off\<close>.\<close>

definition put :: "'a list \<Rightarrow> nat \<Rightarrow> 'a list \<Rightarrow> 'a list" where
  "put xs off C = map (\<lambda>k. if off \<le> k \<and> k < off + length xs then xs ! (k - off) else C ! k) [0..<length C]"

lemma length_put [simp]: "length (put xs off C) = length C"
  by (simp add: put_def)

lemma nth_put: "k < length C \<Longrightarrow> put xs off C ! k = (if off \<le> k \<and> k < off + length xs then xs ! (k - off) else C ! k)"
  by (simp add: put_def)

lemma store_tile:
  assumes "n \<le> length acc" and "off + n \<le> length C"
  shows "store_tile acc C off n = Inr (put (map (\<lambda>j. clamp8 (sint (acc ! j))) [0..<n]) off C)"
proof -
  let ?P = "\<lambda>j. put (map (\<lambda>j. clamp8 (sint (acc ! j))) [0..<j]) off C"
  have "?P 0 = C" by (auto simp: put_def intro!: nth_equalityI)
  moreover have "rfold (\<lambda>j C. rbind (at acc j) (\<lambda>v. upd C (off + j) (clamp8 (sint v)))) [0..<n] (?P 0) = Inr (?P n)"
    using assms by (intro rfold_steps) (auto simp: put_def nth_append less_Suc_eq nth_list_update intro!: nth_equalityI)
  ultimately show ?thesis by (simp add: store_tile_def)
qed

definition tile_values :: "i8 list \<Rightarrow> nat \<Rightarrow> i8 list \<Rightarrow> (nat \<Rightarrow> nat \<Rightarrow> nat) \<Rightarrow> nat \<Rightarrow> nat \<Rightarrow> i8 list" where
  "tile_values A ao B bx K n = map (\<lambda>j. clamp8 (dot A ao B (bx j) K)) [0..<n]"

lemma store_sums:
  assumes "off + n \<le> length C" and "K \<le> 131071"
  shows "store_tile (partial_sums A ao B bx n rest K 0) C off n = Inr (put (tile_values A ao B bx K n) off C)"
proof -
  have "map (\<lambda>j. clamp8 (sint (partial_sums A ao B bx n rest K 0 ! j))) [0..<n] = tile_values A ao B bx K n"
    using assms(2) by (auto simp: tile_values_def partial_sums_def nth_append sint_dot)
  with store_tile [of n "partial_sums A ao B bx n rest K 0" off C] assms show ?thesis by simp
qed

lemma scalar_tile_ok:
  assumes "i * K + K \<le> length A" and "\<And>t j. t < K \<Longrightarrow> j < tile \<Longrightarrow> t * N + jj + j < length B"
    and "tile \<le> length acc" and "i * N + jj + tile \<le> length C" and "K \<le> 131071"
  shows "\<exists>acc'. scalar_tile A B N K i jj tile (C, acc) =
    Inr (put (tile_values A (i * K) B (\<lambda>j t. t * N + jj + j) K tile) (i * N + jj) C, acc') \<and> length acc' = length acc"
proof -
  let ?P = "\<lambda>t. partial_sums A (i * K) B (\<lambda>j t. t * N + jj + j) tile (drop tile acc) t 0"
  have "rfold (\<lambda>t. rfold (\<lambda>j. mac A (i * K + t) B (t * N + jj + j) j) [0..<tile]) [0..<K] (?P 0) = Inr (?P K)"
    using assms by (intro rfold_steps mac_loop) auto
  moreover have "replicate tile 0 @ drop tile acc = ?P 0" by (rule partial_sums_init)
  ultimately show ?thesis
    using assms by (simp add: scalar_tile_def store_sums)
qed

text \<open>The interface of a vector body: 16 columns of one row.\<close>

locale lane_block =
  fixes block :: "i8 \<Rightarrow> i8 list \<Rightarrow> nat \<Rightarrow> nat \<Rightarrow> u32 list \<Rightarrow> u32 list res"
  assumes block_ok: "bi + 16 \<le> length B \<Longrightarrow> j + 16 \<le> length acc \<Longrightarrow>
    block a B bi j acc = Inr (block_result a B bi j acc)"
begin

lemma block_step:
  assumes "16 * Suc q \<le> n" and "boff + t * n + n \<le> length B"
  shows "block (A ! (ao + t)) B (boff + t * n + 16 * q) (16 * q)
      (partial_sums A ao B (\<lambda>j t. boff + t * n + j) n rest t (16 * q)) =
    Inr (partial_sums A ao B (\<lambda>j t. boff + t * n + j) n rest t (16 * Suc q))"
  using assms
  by (subst block_ok) (auto simp: block_result_def partial_sums_def nth_append add.assoc intro!: nth_equalityI)

lemma vector_tile_ok:
  assumes "i * K + K \<le> length A" and "K = 0 \<or> jj + K * tile \<le> length B"
    and "tile \<le> length acc" and "i * N + jj + tile \<le> length C" and "K \<le> 131071"
  shows "\<exists>acc'. vector_tile block A B N K i jj tile (C, acc) =
    Inr (put (tile_values A (i * K) B (\<lambda>j t. jj + t * tile + j) K tile) (i * N + jj) C, acc') \<and> length acc' = length acc"
proof -
  let ?P = "partial_sums A (i * K) B (\<lambda>j t. jj + t * tile + j) tile (replicate (length acc - tile) 0)"
  have row: "jj + t * tile + tile \<le> length B" if "t < K" for t
  proof -
    have "Suc t * tile \<le> K * tile" using that by (intro mult_le_mono1) simp
    with assms(2) that show ?thesis by simp
  qed
  have "rfold (\<lambda>t acc. rbind (at A (i * K + t)) (\<lambda>a.
         rbind (rfold (\<lambda>q. block a B (jj + t * tile + 16 * q) (16 * q)) [0..<tile div 16] acc)
           (rfold (\<lambda>j. mac A (i * K + t) B (jj + t * tile + j) j) [16 * (tile div 16)..<tile])))
       [0..<K] (?P 0 0) = Inr (?P K 0)"
  proof (rule rfold_steps [where P = "\<lambda>t. ?P t 0"])
    fix t assume t: "t < K"
    have "rfold (\<lambda>q. block (A ! (i * K + t)) B (jj + t * tile + 16 * q) (16 * q)) [0..<tile div 16] (?P t (16 * 0)) =
        Inr (?P t (16 * (tile div 16)))"
      using row [OF t] by (intro rfold_steps [where P = "\<lambda>q. ?P t (16 * q)"] block_step) auto
    moreover have "rfold (\<lambda>j. mac A (i * K + t) B (jj + t * tile + j) j) [16 * (tile div 16)..<tile]
        (?P t (16 * (tile div 16))) = Inr (?P (Suc t) 0)"
      using row [OF t] t assms(1,5) by (intro mac_loop) auto
    ultimately show "rbind (at A (i * K + t)) (\<lambda>a.
         rbind (rfold (\<lambda>q. block a B (jj + t * tile + 16 * q) (16 * q)) [0..<tile div 16] (?P t 0))
           (rfold (\<lambda>j. mac A (i * K + t) B (jj + t * tile + j) j) [16 * (tile div 16)..<tile])) = Inr (?P (Suc t) 0)"
      using t assms(1) by simp
  qed simp
  moreover have "replicate (length acc) 0 = ?P 0 0"
    using assms(3) by (simp flip: partial_sums_init replicate_add)
  ultimately show ?thesis
    using assms by (simp add: vector_tile_def simd_tile_def store_sums)
qed

end

interpretation avx2: lane_block avx2_block
  by unfold_locales (rule avx2_block)

interpretation neon: lane_block neon_block
  by unfold_locales (rule neon_block)

interpretation sse2: lane_block sse2_block
  by unfold_locales (rule sse2_block)

section \<open>The interface of a tile\<close>

text \<open>
  What the driver relies on: a tile writes its columns of \<open>C\<close> and nothing else.
  \<open>bidx N tile jj j t\<close> is the element of \<open>B\<close> the kernel multiplies in step
  \<open>t\<close> for column \<open>jj + j\<close>.
\<close>

locale tile_contract =
  fixes kern :: tile_kernel and bidx :: "nat \<Rightarrow> nat \<Rightarrow> nat \<Rightarrow> nat \<Rightarrow> nat \<Rightarrow> nat"
  assumes kern_ok: "i * K + K \<le> length A \<Longrightarrow> K * N \<le> length B \<Longrightarrow> jj + tile \<le> N \<Longrightarrow> tile \<le> length acc \<Longrightarrow>
    i * N + jj + tile \<le> length C \<Longrightarrow> K \<le> 131071 \<Longrightarrow>
    \<exists>acc'. kern A B N K i jj tile (C, acc) =
      Inr (put (tile_values A (i * K) B (bidx N tile jj) K tile) (i * N + jj) C, acc') \<and> length acc' = length acc"

interpretation scalar: tile_contract scalar_tile "\<lambda>N tile jj j t. t * N + jj + j"
proof unfold_locales
  fix i K :: nat and A B C :: "i8 list" and N jj tile :: nat and acc :: "u32 list"
  assume a: "i * K + K \<le> length A" "K * N \<le> length B" "jj + tile \<le> N" "tile \<le> length acc"
    "i * N + jj + tile \<le> length C" "K \<le> 131071"
  have "t * N + jj + j < length B" if "t < K" "j < tile" for t j
  proof -
    have "Suc t * N \<le> K * N" using that by (intro mult_le_mono1) simp
    with a that show ?thesis by simp
  qed
  with a show "\<exists>acc'. scalar_tile A B N K i jj tile (C, acc) =
      Inr (put (tile_values A (i * K) B (\<lambda>j t. t * N + jj + j) K tile) (i * N + jj) C, acc') \<and> length acc' = length acc"
    by (intro scalar_tile_ok)
qed

sublocale lane_block \<subseteq> tile: tile_contract "vector_tile block" "\<lambda>N tile jj j t. jj + t * tile + j"
proof unfold_locales
  fix i K :: nat and A B C :: "i8 list" and N jj tile :: nat and acc :: "u32 list"
  assume a: "i * K + K \<le> length A" "K * N \<le> length B" "jj + tile \<le> N" "tile \<le> length acc"
    "i * N + jj + tile \<le> length C" "K \<le> 131071"
  have "K = 0 \<or> jj + K * tile \<le> length B"
  proof (cases K)
    case (Suc k)
    have "(jj + tile) + k * tile \<le> N + k * N" using a(3) by (intro add_mono mult_le_mono2) auto
    with a(2) Suc show ?thesis by (simp add: add.assoc)
  qed simp
  with a show "\<exists>acc'. vector_tile block A B N K i jj tile (C, acc) =
      Inr (put (tile_values A (i * K) B (\<lambda>j t. jj + t * tile + j) K tile) (i * N + jj) C, acc') \<and> length acc' = length acc"
    by (intro vector_tile_ok)
qed

section \<open>Rows and tiles cover the result\<close>

lemma launch_threads_rows:
  "start \<le> M \<Longrightarrow> M - start \<le> w * r \<Longrightarrow> concat (map (\<lambda>(a, b). [a..<b]) (launch_threads w r start M)) = [start..<M]"
proof (induction w arbitrary: start)
  case (Suc w)
  show ?case
  proof (cases "start < M")
    case True
    let ?e = "min (start + r) M"
    have "concat (map (\<lambda>(a, b). [a..<b]) (launch_threads w r ?e M)) = [?e..<M]"
      using Suc.prems by (intro Suc.IH) (auto simp: min_def)
    moreover have "[start..<?e] @ [?e..<M] = [start..<M]"
      using True upt_add_eq_append [of start ?e "M - ?e"] by simp
    ultimately show ?thesis using True by (simp add: Let_def)
  qed (use Suc.prems in simp)
qed simp

lemma row_chunks_rows: "concat (map (\<lambda>(a, b). [a..<b]) (row_chunks workers M N)) = [0..<M]"
proof (cases "workers \<le> 1 \<or> M * N < 1024")
  case False
  then have w: "0 < workers" by simp
  have "M \<le> workers * ((M + workers - 1) div workers)"
  proof -
    have "M + workers - 1 < workers * (1 + (M + workers - 1) div workers)"
      using w by (simp add: dividend_less_times_div)
    then show ?thesis using w by (simp add: algebra_simps)
  qed
  with False show ?thesis by (simp add: row_chunks_def launch_threads_rows)
qed (simp add: row_chunks_def)

lemma row_chunks_iff: "i < M \<longleftrightarrow> (\<exists>c\<in>set (row_chunks workers M N). fst c \<le> i \<and> i < snd c)"
proof -
  have "i \<in> set [0..<M] \<longleftrightarrow> i \<in> set (concat (map (\<lambda>(a, b). [a..<b]) (row_chunks workers M N)))"
    by (simp only: row_chunks_rows)
  then show ?thesis by (simp add: case_prod_beta)
qed

lemma tile_starts_iff: "0 < ts \<Longrightarrow> jj \<in> set (tile_starts N ts) \<longleftrightarrow> jj < N \<and> ts dvd jj"
proof -
  assume ts: "0 < ts"
  have "q < (N + ts - 1) div ts \<longleftrightarrow> q * ts < N" for q
  proof -
    have "q < (N + ts - 1) div ts \<longleftrightarrow> Suc q * ts \<le> N + ts - 1"
      using ts by (simp add: Suc_le_eq [symmetric] less_eq_div_iff_mult_less_eq)
    also have "\<dots> \<longleftrightarrow> q * ts < N" using ts by auto
    finally show ?thesis .
  qed
  then have "set (tile_starts N ts) = (\<lambda>q. q * ts) ` {q. q * ts < N}"
    by (auto simp: tile_starts_def)
  then show ?thesis by (auto simp: dvd_def mult.commute)
qed

definition valid_task :: "nat \<Rightarrow> nat \<Rightarrow> nat \<Rightarrow> nat \<times> nat \<Rightarrow> bool" where
  "valid_task M N ts x \<longleftrightarrow> fst x < M \<and> snd x < N \<and> ts dvd snd x"

definition covers :: "nat \<Rightarrow> nat \<Rightarrow> nat \<times> nat \<Rightarrow> nat \<Rightarrow> bool" where
  "covers N ts x k \<longleftrightarrow> fst x * N + snd x \<le> k \<and> k < fst x * N + snd x + min ts (N - snd x)"

lemma covers_coords:
  assumes "valid_task M N ts x" and "covers N ts x k" and "0 < ts"
  shows "k div N = fst x" and "k mod N div ts * ts = snd x" and "k mod N - snd x = k - (fst x * N + snd x)"
proof -
  obtain i jj where x: "x = (i, jj)" by fastforce
  obtain q where q: "jj = q * ts" using assms(1) by (auto simp: x valid_task_def dvd_def mult.commute)
  define c where "c = k - i * N"
  have k: "k = c + i * N" "jj \<le> c" "c < jj + ts" "c < N"
    using assms by (auto simp: x covers_def valid_task_def c_def)
  then have m: "k div N = i" "k mod N = c" by auto
  have "c div ts = q"
    using k(2,3) assms(3) q by (intro div_nat_eqI) (auto simp: mult.commute)
  with m k q show "k div N = fst x" "k mod N div ts * ts = snd x" "k mod N - snd x = k - (fst x * N + snd x)"
    by (auto simp: x)
qed

lemma initial_cover:
  assumes "k < M * N" and "0 < ts"
  shows "\<exists>c\<in>set (row_chunks workers M N). \<exists>x\<in>set (thread_tasks N ts c). covers N ts x k"
proof -
  have N: "0 < N" using assms(1) by (cases N) auto
  have "k div N < M" using assms(1) N by (simp add: less_mult_imp_div_less)
  then obtain c where c: "c \<in> set (row_chunks workers M N)" "fst c \<le> k div N" "k div N < snd c"
    using row_chunks_iff by blast
  let ?jj = "k mod N div ts * ts"
  have jj: "?jj \<le> k mod N" by simp
  then have "?jj < N" using N by (meson le_less_trans mod_less_divisor)
  then have "(k div N, ?jj) \<in> set (thread_tasks N ts c)"
    using c assms(2) by (auto simp: thread_tasks_def tile_starts_iff case_prod_beta)
  moreover have "covers N ts (k div N, ?jj) k"
  proof -
    have "k mod N < ?jj + ts" using assms(2) dividend_less_div_times [of ts "k mod N"] by simp
    moreover have "k = k div N * N + k mod N" by simp
    moreover have "k mod N < N" using N by simp
    ultimately show ?thesis using jj unfolding covers_def fst_conv snd_conv by linarith
  qed
  ultimately show ?thesis using c by blast
qed

section \<open>Any schedule computes the product\<close>

definition entry :: "(nat \<Rightarrow> nat \<Rightarrow> nat \<Rightarrow> nat \<Rightarrow> nat \<Rightarrow> nat) \<Rightarrow> i8 list \<Rightarrow> i8 list \<Rightarrow> nat \<Rightarrow> nat \<Rightarrow> nat \<Rightarrow> nat \<Rightarrow> i8" where
  "entry bidx A B N K ts k =
     (let c = k mod N; jj = c div ts * ts
      in clamp8 (dot A (k div N * K) B (bidx N (min ts (N - jj)) jj (c - jj)) K))"

definition tile_product ::
    "(nat \<Rightarrow> nat \<Rightarrow> nat \<Rightarrow> nat \<Rightarrow> nat \<Rightarrow> nat) \<Rightarrow> nat \<Rightarrow> i8 list \<Rightarrow> i8 list \<Rightarrow> nat \<Rightarrow> nat \<Rightarrow> nat \<Rightarrow> i8 list" where
  "tile_product bidx INT8_TILE A B M N K = map (entry bidx A B N K (min INT8_TILE N)) [0..<M * N]"

definition todo :: "threads \<Rightarrow> nat \<Rightarrow> nat \<times> nat \<Rightarrow> bool" where
  "todo ths w x \<longleftrightarrow> w < length ths \<and> x \<in> set (fst (ths ! w))"

definition sched_inv ::
    "(nat \<Rightarrow> i8) \<Rightarrow> nat \<Rightarrow> nat \<Rightarrow> nat \<Rightarrow> i8 list \<times> threads \<Rightarrow> bool" where
  "sched_inv goal M N ts = (\<lambda>(C, ths).
     length C = M * N \<and> (\<forall>w<length ths. length (snd (ths ! w)) = ts) \<and>
     (\<forall>w x. todo ths w x \<longrightarrow> valid_task M N ts x) \<and>
     (\<forall>k<M * N. C ! k = goal k \<or> (\<exists>w x. todo ths w x \<and> covers N ts x k)))"

definition work_left :: "threads \<Rightarrow> nat \<Rightarrow> nat" where
  "work_left ths w = (if w < length ths then length (fst (ths ! w)) else 0)"

lemma todo_update:
  "w < length ths \<Longrightarrow> fst (ths ! w) = x # xs \<Longrightarrow> todo (ths[w := (xs, acc)]) v y \<Longrightarrow> todo ths v y"
  by (auto simp: todo_def nth_list_update split: if_splits)

lemma todo_cases:
  "todo ths v y \<Longrightarrow> w < length ths \<Longrightarrow> fst (ths ! w) = x # xs \<Longrightarrow>
   y = x \<or> todo (ths[w := (xs, acc)]) v y"
  by (auto simp: todo_def nth_list_update)

lemma valid_task_bounds:
  assumes "valid_task M N ts (i, jj)"
  shows "jj + min ts (N - jj) \<le> N" and "i * N + jj + min ts (N - jj) \<le> M * N" and "i * K + K \<le> M * K"
proof -
  show le: "jj + min ts (N - jj) \<le> N" using assms by (auto simp: valid_task_def)
  have "Suc i * N \<le> M * N" using assms by (intro mult_le_mono1) (simp add: valid_task_def)
  with le show "i * N + jj + min ts (N - jj) \<le> M * N" by simp
  have "Suc i * K \<le> M * K" using assms by (intro mult_le_mono1) (simp add: valid_task_def)
  then show "i * K + K \<le> M * K" by simp
qed

lemma sched_invD:
  assumes "sched_inv goal M N ts (C, ths)"
  shows "length C = M * N" and "w < length ths \<Longrightarrow> length (snd (ths ! w)) = ts"
    and "todo ths w x \<Longrightarrow> valid_task M N ts x"
    and "k < M * N \<Longrightarrow> C ! k = goal k \<or> (\<exists>w x. todo ths w x \<and> covers N ts x k)"
  using assms by (simp_all only: sched_inv_def split)

lemma all_done_iff: "list_all (\<lambda>th. fst th = []) ths \<longleftrightarrow> (\<forall>w. work_left ths w = 0)"
  by (auto simp: list_all_length work_left_def)

lemma idle_schedule:
  "list_all (\<lambda>th. fst th = []) ths \<Longrightarrow> rfold (thread_step kern A B N K ts) sched (C, ths) = Inr (C, ths)"
  by (induction sched)
     (auto simp: thread_step_def list_all_length split: prod.splits list.splits)

context tile_contract begin

lemma run_tile_ok:
  assumes "valid_task M N ts x" and "length acc = ts" and "length C = M * N"
    and "length A = M * K" and "length B = K * N" and "K \<le> 131071" and "0 < ts"
  shows "ensures (run_tile kern A B N K ts x (C, acc)) (\<lambda>(C', acc').
    length acc' = ts \<and> length C' = M * N \<and>
    (\<forall>k<M * N. C' ! k = (if covers N ts x k then entry bidx A B N K ts k else C ! k)))"
proof -
  obtain i jj where x: "x = (i, jj)" by fastforce
  let ?tile = "min ts (N - jj)"
  let ?xs = "tile_values A (i * K) B (bidx N ?tile jj) K ?tile"
  note b = valid_task_bounds [OF assms(1) [unfolded x]]
  obtain acc' where k: "kern A B N K i jj ?tile (C, acc) = Inr (put ?xs (i * N + jj) C, acc')"
    "length acc' = length acc"
    using kern_ok [of i K A N B jj ?tile acc C] b(1,2) b(3) [of K] assms by auto
  have "put ?xs (i * N + jj) C ! k = (if covers N ts x k then entry bidx A B N K ts k else C ! k)"
    if "k < M * N" for k
  proof (cases "covers N ts x k")
    case True
    note c = covers_coords [OF assms(1) True assms(7)]
    have "entry bidx A B N K ts k = clamp8 (dot A (i * K) B (bidx N ?tile jj (k - (i * N + jj))) K)"
      using c by (simp only: entry_def Let_def x fst_conv snd_conv)
    moreover obtain j where "k = i * N + jj + j" "j < ?tile"
      using True by (auto simp: covers_def x le_iff_add)
    ultimately show ?thesis
      using True that assms(3) by (simp add: nth_put tile_values_def)
  next
    case False
    with that assms(3) show ?thesis by (auto simp: nth_put covers_def x tile_values_def)
  qed
  with k assms show ?thesis by (simp add: run_tile_def x Let_def)
qed

lemma thread_step_ok:
  assumes "sched_inv (entry bidx A B N K ts) M N ts (C, ths)"
    and "length A = M * K" and "length B = K * N" and "K \<le> 131071" and "0 < ts"
  shows "ensures (thread_step kern A B N K ts w (C, ths)) (\<lambda>(C', ths').
    sched_inv (entry bidx A B N K ts) M N ts (C', ths') \<and>
    work_left ths' = (work_left ths)(w := work_left ths w - 1))"
proof (cases "w < length ths \<and> fst (ths ! w) \<noteq> []")
  case False
  then have "thread_step kern A B N K ts w (C, ths) = Inr (C, ths)" "work_left ths w = 0"
    by (auto simp: thread_step_def work_left_def split: prod.splits list.splits)
  with assms(1) show ?thesis by auto
next
  case True
  then obtain x xs acc where th: "w < length ths" "ths ! w = (x # xs, acc)"
    by (metis list.exhaust prod.collapse)
  have x: "todo ths w x" using th by (simp add: todo_def)
  then have v: "valid_task M N ts x" "length acc = ts" "length C = M * N"
    using sched_invD(1-3) [OF assms(1)] th by fastforce+
  have "sched_inv (entry bidx A B N K ts) M N ts (C', ths[w := (xs, acc')]) \<and>
      work_left (ths[w := (xs, acc')]) = (work_left ths)(w := work_left ths w - 1)"
    if "length acc' = ts" "length C' = M * N"
      "\<forall>k<M * N. C' ! k = (if covers N ts x k then entry bidx A B N K ts k else C ! k)" for C' acc'
  proof
    have t: "todo (ths[w := (xs, acc')]) v y \<Longrightarrow> todo ths v y" for v y
      using todo_update [OF th(1), of x xs acc'] th by simp
    have c: "todo ths v y \<Longrightarrow> y = x \<or> todo (ths[w := (xs, acc')]) v y" for v y
      using todo_cases [OF _ th(1), of v y x xs acc'] th by simp
    show "sched_inv (entry bidx A B N K ts) M N ts (C', ths[w := (xs, acc')])"
      unfolding sched_inv_def split_beta fst_conv snd_conv
    proof (intro conjI allI impI)
      fix k assume k: "k < M * N"
      then have "C ! k = entry bidx A B N K ts k \<or> (\<exists>v y. todo ths v y \<and> covers N ts y k)"
        using assms(1) by (intro sched_invD(4))
      with k that(3) c show "C' ! k = entry bidx A B N K ts k \<or>
          (\<exists>v y. todo (ths[w := (xs, acc')]) v y \<and> covers N ts y k)" by metis
    next
      fix v y assume "todo (ths[w := (xs, acc')]) v y"
      then show "valid_task M N ts y" by (intro sched_invD(3) [OF assms(1)] t)
    qed (use that th sched_invD(2) [OF assms(1)] in \<open>auto simp: nth_list_update\<close>)
    show "work_left (ths[w := (xs, acc')]) = (work_left ths)(w := work_left ths w - 1)"
      using th by (auto simp: work_left_def fun_eq_iff nth_list_update)
  qed
  then show ?thesis
    using th run_tile_ok [OF v assms(2-5)]
    by (auto simp: thread_step_def ensures_iff)
qed

lemma schedule_ok:
  assumes "sched_inv (entry bidx A B N K ts) M N ts s"
    and "length A = M * K" and "length B = K * N" and "K \<le> 131071" and "0 < ts"
  shows "ensures (rfold (thread_step kern A B N K ts) sched s) (\<lambda>s'.
    sched_inv (entry bidx A B N K ts) M N ts s' \<and>
    (\<forall>w. work_left (snd s') w = work_left (snd s) w - count_list sched w))"
  using assms(1)
proof (induction sched arbitrary: s)
  case (Cons w sched)
  from thread_step_ok [of A B N K ts M "fst s" "snd s" w] Cons.prems assms(2-5)
  have "ensures (thread_step kern A B N K ts w s) (\<lambda>s'. sched_inv (entry bidx A B N K ts) M N ts s' \<and>
    work_left (snd s') = (work_left (snd s))(w := work_left (snd s) w - 1))"
    by (simp add: case_prod_unfold)
  then show ?case
    by (auto intro!: ensures_mono [OF Cons.IH] elim!: ensures_mono)
qed simp

lemma matmul_ok:
  assumes "length A = M * K" and "length B = K * N" and "K \<le> 131071" and "0 < INT8_TILE"
  shows "int8_matmul kern INT8_TILE workers sched A B M N K =
    (if \<forall>w<length (row_chunks workers M N).
        length (thread_tasks N (min INT8_TILE N) (row_chunks workers M N ! w)) \<le> count_list sched w
     then Some (Inr (tile_product bidx INT8_TILE A B M N K)) else None)"
proof -
  let ?ts = "min INT8_TILE N"
  let ?cs = "row_chunks workers M N"
  let ?ths = "map (\<lambda>c. (thread_tasks N ?ts c, replicate ?ts 0)) ?cs"
  let ?s = "(replicate (M * N) (0 :: i8), ?ths)"
  let ?goal = "entry bidx A B N K ?ts"
  have todo0: "todo ?ths w x \<longleftrightarrow> w < length ?cs \<and> x \<in> set (thread_tasks N ?ts (?cs ! w))" for w x
    by (auto simp: todo_def)
  show ?thesis
  proof (cases "0 < ?ts")
    case True
    have "sched_inv ?goal M N ?ts ?s"
      unfolding sched_inv_def split
    proof (intro conjI allI impI)
      fix w x assume "todo ?ths w x"
      then have w: "w < length ?cs" "x \<in> set (thread_tasks N ?ts (?cs ! w))" by (simp_all add: todo0)
      then have "fst (?cs ! w) \<le> fst x" "fst x < snd (?cs ! w)" "snd x \<in> set (tile_starts N ?ts)"
        by (auto simp: thread_tasks_def case_prod_unfold)
      moreover from this w(1) have "fst x < M" using row_chunks_iff nth_mem by blast
      ultimately show "valid_task M N ?ts x" by (simp add: valid_task_def tile_starts_iff [OF True])
    next
      fix k assume k: "k < M * N"
      from initial_cover [OF this True] obtain c x where
        "c \<in> set (row_chunks workers M N)" "x \<in> set (thread_tasks N ?ts c)" "covers N ?ts x k" by blast
      then show "replicate (M * N) 0 ! k = ?goal k \<or> (\<exists>w x. todo ?ths w x \<and> covers N ?ts x k)"
        unfolding todo0 by (metis in_set_conv_nth)
    qed auto
    from schedule_ok [OF this assms(1-3) True, of sched] obtain C ths where
      run: "rfold (thread_step kern A B N K ?ts) sched ?s = Inr (C, ths)"
      and inv: "sched_inv ?goal M N ?ts (C, ths)"
      and left: "\<forall>w. work_left ths w = work_left ?ths w - count_list sched w"
      by (auto simp: ensures_iff)
    have fin: "list_all (\<lambda>th. fst th = []) ths \<longleftrightarrow>
        (\<forall>w<length ?cs. length (thread_tasks N ?ts (?cs ! w)) \<le> count_list sched w)"
      unfolding all_done_iff using left by (auto simp: work_left_def)
    have "C = tile_product bidx INT8_TILE A B M N K" if "list_all (\<lambda>th. fst th = []) ths"
    proof (rule nth_equalityI)
      show "length C = length (tile_product bidx INT8_TILE A B M N K)"
        using sched_invD(1) [OF inv] by (simp add: tile_product_def)
      fix k assume "k < length C"
      then have k: "k < M * N" by (simp add: sched_invD(1) [OF inv])
      have "\<not> todo ths w x" for w x using that by (auto simp: todo_def list_all_length)
      with sched_invD(4) [OF inv k] k show "C ! k = tile_product bidx INT8_TILE A B M N K ! k"
        by (simp add: tile_product_def)
    qed
    with run fin show ?thesis by (simp add: int8_matmul_def Let_def)
  next
    case False
    with assms(4) have N: "N = 0" by simp
    then have t: "thread_tasks N ?ts c = []" for c
      by (simp add: thread_tasks_def tile_starts_def case_prod_unfold flip: length_0_conv)
    then have "list_all (\<lambda>th. fst th = []) ?ths" by (simp add: list_all_iff)
    from idle_schedule [OF this] N t show ?thesis
      by (simp add: int8_matmul_def tile_product_def Let_def list_all_iff)
  qed
qed

end

section \<open>Properties\<close>

definition matmul_ref :: "i8 list \<Rightarrow> i8 list \<Rightarrow> nat \<Rightarrow> nat \<Rightarrow> nat \<Rightarrow> i8 list" where
  \<comment> \<open>the product with every entry saturated at the end\<close>
  "matmul_ref A B M N K = map (\<lambda>k.
     clamp8 (\<Sum>t<K. sint (A ! (k div N * K + t)) * sint (B ! (t * N + k mod N)))) [0..<M * N]"

definition complete_schedule :: "nat \<Rightarrow> nat \<Rightarrow> nat list \<Rightarrow> nat \<Rightarrow> nat \<Rightarrow> bool" where
  \<comment> \<open>every thread is scheduled once per tile of its rows\<close>
  "complete_schedule INT8_TILE workers sched M N \<longleftrightarrow> (\<forall>w<length (row_chunks workers M N).
     length (thread_tasks N (min INT8_TILE N) (row_chunks workers M N ! w)) \<le> count_list sched w)"

lemma scalar_product:
  "tile_product (\<lambda>N tile jj j t. t * N + jj + j) INT8_TILE A B M N K = matmul_ref A B M N K"
  by (auto simp: tile_product_def matmul_ref_def entry_def dot_def Let_def add.assoc)

lemma vector_product:
  "N \<le> INT8_TILE \<Longrightarrow> tile_product (\<lambda>N tile jj j t. jj + t * tile + j) INT8_TILE A B M N K = matmul_ref A B M N K"
proof -
  assume "N \<le> INT8_TILE"
  moreover have "k mod N div N = 0" for k :: nat by (cases N) auto
  ultimately show ?thesis
    by (simp add: tile_product_def matmul_ref_def entry_def dot_def Let_def)
qed

text \<open>
  The build selects the tile and its width (the \<open>NEUROPET_USE_\<close> macros, which the build
  files set from the processor: AVX2 on x86-64, NEON on arm64, SSE2 on 32-bit x86).
  \<open>max_columns\<close> is the number of columns up to which the tiles of a build are right and
  a dimension fits the \<open>int32_t\<close> of the GPU call.
\<close>

datatype build = Scalar_Build | Avx2_Build | Neon_Build | Sse2_Build

fun tile_width :: "build \<Rightarrow> nat" where
  "tile_width Scalar_Build = 64"
| "tile_width Avx2_Build = 128"
| "tile_width Neon_Build = 128"
| "tile_width Sse2_Build = 128"

fun build_tile :: "build \<Rightarrow> tile_kernel" where
  "build_tile Scalar_Build = scalar_tile"
| "build_tile Avx2_Build = vector_tile avx2_block"
| "build_tile Neon_Build = vector_tile neon_block"
| "build_tile Sse2_Build = vector_tile sse2_block"

fun max_columns :: "build \<Rightarrow> nat" where
  "max_columns Scalar_Build = 2147483647"
| "max_columns Avx2_Build = 128"
| "max_columns Neon_Build = 128"
| "max_columns Sse2_Build = 128"

lemma build_multiply:
  assumes "length A = M * K" and "length B = K * N" and "K \<le> 131071" and "N \<le> max_columns bld"
    and "complete_schedule (tile_width bld) workers sched M N"
  shows "int8_matmul (build_tile bld) (tile_width bld) workers sched A B M N K = Some (Inr (matmul_ref A B M N K))"
proof (cases bld)
  case Scalar_Build
  with assms(5) scalar.matmul_ok [OF assms(1-3), of 64 workers sched] show ?thesis
    by (simp only: build_tile.simps tile_width.simps scalar_product complete_schedule_def) simp
next
  case Avx2_Build
  with assms(4,5) avx2.tile.matmul_ok [OF assms(1-3), of 128 workers sched] show ?thesis
    by (auto simp: vector_product complete_schedule_def)
next
  case Neon_Build
  with assms(4,5) neon.tile.matmul_ok [OF assms(1-3), of 128 workers sched] show ?thesis
    by (auto simp: vector_product complete_schedule_def)
next
  case Sse2_Build
  with assms(4,5) sse2.tile.matmul_ok [OF assms(1-3), of 128 workers sched] show ?thesis
    by (auto simp: vector_product complete_schedule_def)
qed

text \<open>
  C3: the scalar multiply is the saturated matrix product under every schedule of its threads:
  for inner dimensions up to 131071 no addition overflows, no access leaves its buffer, and as
  soon as all threads have run all their tiles the result is the reference product, whatever the
  number of workers and the interleaving.
\<close>

theorem int8_matmul_scalar:
  assumes "length A = M * K" and "length B = K * N" and "K \<le> 131071"
  shows "int8_matmul scalar_tile 64 workers sched A B M N K =
    (if complete_schedule 64 workers sched M N then Some (Inr (matmul_ref A B M N K)) else None)"
  using scalar.matmul_ok [OF assms, of 64 workers sched]
  by (simp only: scalar_product complete_schedule_def)

lemma int8_matmul_scalar_witness:
  "int8_matmul scalar_tile 64 4 [0, 0, 5, 0] [100, 2] [3, - 1, 50, 4] 1 2 2 = Some (Inr [127, - 92]) \<and>
   matmul_ref [100, 2] [3, - 1, 50, 4] 1 2 2 = [127, - 92]"
proof -
  have c: "complete_schedule 64 4 [0, 0, 5, 0] 1 2" by code_simp
  have r: "matmul_ref [100, 2] [3, - 1, 50, 4] 1 2 2 = [127, - 92]" by code_simp
  show ?thesis
    using int8_matmul_scalar [of "[100, 2]" 1 2 "[3, - 1, 50, 4]" 2 4 "[0, 0, 5, 0]"] c r by simp
qed

text \<open>
  C4: the AVX2, NEON and SSE2 multiplies agree with the reference, so with each other and with
  the scalar one, when the result has at most 128 columns (one tile a row).
\<close>

theorem int8_matmul_vector:
  assumes "length A = M * K" and "length B = K * N" and "K \<le> 131071" and "N \<le> 128"
    and "block \<in> {avx2_block, neon_block, sse2_block}" and "complete_schedule 128 workers sched M N"
  shows "int8_matmul (vector_tile block) 128 workers sched A B M N K = Some (Inr (matmul_ref A B M N K))"
  using assms(5,6) avx2.tile.matmul_ok [OF assms(1-3), of 128 workers sched]
    neon.tile.matmul_ok [OF assms(1-3), of 128 workers sched]
    sse2.tile.matmul_ok [OF assms(1-3), of 128 workers sched]
  by (auto simp: vector_product [OF assms(4)] complete_schedule_def)

lemma int8_matmul_vector_witness:
  "int8_matmul (vector_tile sse2_block) 128 1 [0] (replicate 2 (- 128)) (replicate 34 (- 128)) 1 17 2 =
     Some (Inr (matmul_ref (replicate 2 (- 128)) (replicate 34 (- 128)) 1 17 2))"
proof -
  have "complete_schedule 128 1 [0] 1 17" by code_simp
  then show ?thesis by (intro int8_matmul_vector) auto
qed

text \<open>
  C39: with more than 128 columns the vector tiles step through \<open>B\<close> with the width of the tile
  instead of the width of \<open>B\<close>: for every shape with at least two inner terms there are matrices
  on which all three return a wrong product.
\<close>

theorem int8_matmul_vector_wide:
  assumes "0 < M" and "128 < N" and "2 \<le> K" and "K \<le> 131071"
    and "block \<in> {avx2_block, neon_block, sse2_block}" and "complete_schedule 128 workers sched M N"
  shows "\<exists>A B C. length A = M * K \<and> length B = K * N \<and>
    int8_matmul (vector_tile block) 128 workers sched A B M N K = Some (Inr C) \<and> C \<noteq> matmul_ref A B M N K"
proof -
  define A :: "i8 list" where "A = (replicate (M * K) 0)[1 := 1]"
  define B :: "i8 list" where "B = (replicate (K * N) 0)[128 := 1]"
  have len: "length A = M * K" "length B = K * N" by (simp_all add: A_def B_def)
  let ?C = "tile_product (\<lambda>N tile jj j t. jj + t * tile + j) 128 A B M N K"
  have "int8_matmul (vector_tile block) 128 workers sched A B M N K = Some (Inr ?C)"
    using assms(5,6) avx2.tile.matmul_ok [OF len assms(4), of 128 workers sched]
      neon.tile.matmul_ok [OF len assms(4), of 128 workers sched]
      sse2.tile.matmul_ok [OF len assms(4), of 128 workers sched]
    by (auto simp: complete_schedule_def)
  moreover have "?C \<noteq> matmul_ref A B M N K"
  proof -
    have MK: "K \<le> M * K" "2 * N \<le> K * N" "0 < M * N" using assms by auto
    have a: "A ! t = (if t = 1 then 1 else 0)" if "t < K" for t
    proof -
      have "t < M * K" "1 < M * K" using that MK(1) assms(3) by linarith+
      then show ?thesis by (auto simp: A_def nth_list_update)
    qed
    have dot: "dot A 0 B bi K = sint (B ! bi 1)" for bi
    proof -
      have "dot A 0 B bi K = (\<Sum>t<K. if t = 1 then sint (B ! bi 1) else 0)"
        unfolding dot_def by (intro sum.cong) (auto simp: a)
      then show ?thesis using assms(3) by simp
    qed
    define L where "L = K * N"
    have "128 < L" "N < L" using MK(2) assms(2) unfolding L_def by linarith+
    then have b: "B ! 128 = 1" "B ! N = 0"
      using assms(2) by (auto simp: B_def nth_list_update simp flip: L_def)
    have "?C ! 0 = 1"
      using MK(3) assms(2) b by (simp add: tile_product_def entry_def Let_def dot clamp8_def)
    moreover have "matmul_ref A B M N K ! 0 = 0"
      using MK(3) dot [of "\<lambda>t. t * N"] b by (simp add: matmul_ref_def dot_def clamp8_def)
    ultimately show ?thesis by auto
  qed
  ultimately show ?thesis using len by blast
qed

lemma int8_matmul_vector_wide_witness:
  "\<exists>A B C. length A = 1 * 2 \<and> length B = 2 * 129 \<and>
    int8_matmul (vector_tile avx2_block) 128 1 [0, 0] A B 1 129 2 = Some (Inr C) \<and> C \<noteq> matmul_ref A B 1 129 2"
proof -
  have "complete_schedule 128 1 [0, 0] 1 129" by code_simp
  then show ?thesis by (intro int8_matmul_vector_wide) auto
qed

text \<open>
  The bound on the inner dimension is sharp: with 131072 terms or more the scalar code can
  overflow its \<open>int32_t\<close> accumulator, which is undefined behaviour.
\<close>

theorem int8_matmul_overflow:
  assumes "131072 \<le> K"
  shows "int8_matmul scalar_tile 64 workers [0] (replicate K (- 128)) (replicate K (- 128)) 1 1 K =
    Some (Inl Signed_Overflow)"
proof -
  let ?A = "replicate K (- 128 :: i8)"
  let ?bx = "\<lambda>j t. t * 1 + 0 + j :: nat"
  let ?f = "\<lambda>t. rfold (\<lambda>j. mac ?A (0 * K + t) ?A (t * 1 + 0 + j) j) [0..<1]"
  let ?P = "\<lambda>t. partial_sums ?A 0 ?A ?bx 1 [] t 0"
  have "rfold ?f [0..<131071] (?P 0) = Inr (?P 131071)"
    using assms mac_loop [of 0 1 0 _ ?A ?bx ?A "[]"] by (intro rfold_steps) auto
  moreover have "?f 131071 (?P 131071) = Inl Signed_Overflow"
  proof -
    have "dot ?A 0 ?A (?bx 0) 131071 = (\<Sum>s<131071::nat. 16384)"
      using assms unfolding dot_def by (intro sum.cong) auto
    then have "dot ?A 0 ?A (?bx 0) 131071 = 2147467264" by simp
    then show ?thesis
      using assms by (simp add: mac_def partial_sums_def i32_def in_i32_def)
  qed
  moreover have "[0..<K] = [0..<131071] @ 131071 # [131072..<K]"
    using assms upt_add_eq_append [of 0 131071 "K - 131071"] upt_conv_Cons [of 131071 K] by simp
  ultimately have "rfold ?f [0..<K] (?P 0) = Inl Signed_Overflow"
    by (simp add: rfold_append)
  then have "scalar_tile ?A ?A 1 K 0 0 1 ([0], [0]) = Inl Signed_Overflow"
    by (simp add: scalar_tile_def partial_sums_def)
  then show ?thesis
    by (simp add: int8_matmul_def row_chunks_def thread_tasks_def tile_starts_def thread_step_def run_tile_def Let_def)
qed

lemma int8_matmul_overflow_witness:
  "int8_matmul scalar_tile 64 1 [0] (replicate 131072 (- 128)) (replicate 131072 (- 128)) 1 1 131072 =
    Some (Inl Signed_Overflow)"
  by (rule int8_matmul_overflow) simp

text \<open>
  The row ranges the threads are started with partition the rows in order, so no two
  threads write the same row of \<open>C\<close>, and there are at most as many ranges as workers.
\<close>

theorem row_chunks_partition:
  "concat (map (\<lambda>(a, b). [a..<b]) (row_chunks workers M N)) = [0..<M] \<and>
   length (row_chunks workers M N) \<le> max 1 workers"
proof -
  have "length (launch_threads w r s M) \<le> w" for w r s
    by (induction w arbitrary: s) (auto simp: Let_def)
  then show ?thesis using row_chunks_rows by (auto simp: row_chunks_def max_def)
qed


lemma digits_val_nonneg: "0 \<le> v \<Longrightarrow> 0 \<le> digits_val v s"
  by (induction s arbitrary: v) (auto simp: Let_def)

text \<open>
  The number of workers is between one and the number of rows (zero only without rows);
  \<open>NEUROPET_INT8_THREADS\<close> overrides the hardware count when it parses to a number that is not
  zero as an \<open>unsigned\<close>, so a negative setting means as many workers as rows.
\<close>

theorem tune_thread_count_bounds:
  assumes "tune_thread_count hardware env rows = Inr w"
  shows "unat w \<le> rows \<and> (unat w = 0 \<longleftrightarrow> rows = 0) \<and>
    (case env of
       None \<Rightarrow> unat w = min (max 1 (unat hardware)) rows
     | Some s \<Rightarrow> \<exists>v. atoi s = Inr v \<and>
         (0 < v \<longrightarrow> unat w = min (nat v) rows) \<and> (v < 0 \<longrightarrow> unat w = min (nat (v + 2 ^ 32)) rows))"
proof -
  have fits: "unat (of_nat (min (unat x) rows) :: u32) = min (unat x) rows" for x :: u32
  proof -
    have "min (unat x) rows < 2 ^ 32" using unat_bound [of x] by simp
    then show ?thesis by (simp add: unsigned_of_nat take_bit_nat_eq_self)
  qed
  have pos: "unat (if x = 0 then 1 else x) \<noteq> 0 \<and> unat (if x = 0 then 1 else x) = max 1 (unat x)" for x :: u32
  proof (cases "x = 0")
    case False
    then have "1 \<le> unat x" using unat_eq_zero [of x] by linarith
    with False show ?thesis by (simp add: max_absorb2)
  qed simp
  show ?thesis
  proof (cases env)
    case None
    with assms have "w = of_nat (min (unat (if hardware = 0 then 1 else hardware)) rows)"
      by (simp add: tune_thread_count_def Let_def)
    then have "unat w = min (unat (if hardware = 0 then 1 else hardware)) rows" by (simp only: fits)
    with None pos [of hardware] show ?thesis by auto
  next
    case (Some s)
    with assms obtain v where v: "atoi s = Inr v" by (auto simp: tune_thread_count_def res_simps)
    define x :: u32 where "x = (if word_of_int v > (0 :: u32) then word_of_int v else hardware)"
    have "w = of_nat (min (unat (if x = 0 then 1 else x)) rows)"
      using assms Some v unfolding tune_thread_count_def x_def Let_def by (auto split: if_splits)
    then have w: "unat w = min (unat (if x = 0 then 1 else x)) rows" by (simp only: fits)
    have i: "in_i32 v" using v by (auto simp: atoi_def i32_Inr_iff)
    have u: "int (unat (word_of_int v :: u32)) = v mod 2 ^ 32"
      by (simp add: unsigned_of_int take_bit_eq_mod)
    have x: "unat (if x = 0 then 1 else x) = n" if "unat (word_of_int v :: u32) = n" "0 < n" for n
    proof -
      have "x = word_of_int v" using that by (auto simp: x_def word_less_nat_alt)
      with that pos [of x] show ?thesis by auto
    qed
    have "unat (if x = 0 then 1 else x) = nat v" if "0 < v"
    proof (rule x)
      have "v mod 2 ^ 32 = v" using i that by (simp add: in_i32_def)
      with u show "unat (word_of_int v :: u32) = nat v" by linarith
    qed (use that in simp)
    moreover have "unat (if x = 0 then 1 else x) = nat (v + 2 ^ 32)" if "v < 0"
    proof (rule x)
      have "v mod 2 ^ 32 = v + 2 ^ 32" using i that by (intro mod_neg) (auto simp: in_i32_def)
      with u show "unat (word_of_int v :: u32) = nat (v + 2 ^ 32)" by linarith
    qed (use that i in \<open>simp add: in_i32_def\<close>)
    ultimately show ?thesis using w v Some pos [of x] by auto
  qed
qed

lemma tune_thread_count_bounds_witness:
  "tune_thread_count 8 (Some '' 3x'') 5 = Inr 3 \<and> unat (3 :: u32) \<le> 5"
proof -
  have "tune_thread_count 8 (Some '' 3x'') 5 = Inr 3"
    by (simp add: tune_thread_count_def atoi_def is_space_def Let_def in_i32_def)
  from tune_thread_count_bounds [OF this] this show ?thesis by simp
qed

end
