(* ===== verification/Gpu_Dispatch.thy ===== *)
theory Gpu_Dispatch
  imports Int8_Kernel
begin

text \<open>
  The GPU entry point of \<open>int8_kernel.hpp\<close> and the dispatch queue behind its asynchronous form.
  The Harmonics GPU runtime is an argument: whether it is available, and the function it has
  registered under \<open>int8_matmul\<close>, if any. The queue is a step relation whose states record the
  mutex-protected members, where the worker thread is in its loop, and how many clients have
  released the mutex and not yet called \<open>notify_one\<close>; a step is one critical section or one call
  outside it. The queue object has static storage, so its flag reads \<open>false\<close> from the start.
\<close>

section \<open>The GPU entry point\<close>

datatype gpu_value = Gpu_Bytes "u8 list" | Gpu_Other

type_synonym gpu_function = "u8 list \<Rightarrow> u8 list \<Rightarrow> u32 \<Rightarrow> u32 \<Rightarrow> u32 \<Rightarrow> gpu_value option"

definition int8_matmul_gpu ::
    "bool \<Rightarrow> bool \<Rightarrow> gpu_function option \<Rightarrow> (i8 list \<Rightarrow> i8 list \<Rightarrow> nat \<Rightarrow> nat \<Rightarrow> nat \<Rightarrow> i8 list res option) \<Rightarrow>
     i8 list \<Rightarrow> i8 list \<Rightarrow> nat \<Rightarrow> nat \<Rightarrow> nat \<Rightarrow> i8 list res option" where
  \<comment> \<open>\<open>cpu\<close> is the call of \<open>int8_matmul\<close>; a GPU function that throws is \<open>None\<close>\<close>
  "int8_matmul_gpu vulkan available registered cpu A B M N K =
     (if \<not> available then cpu A B M N K
      else if \<not> vulkan then cpu A B M N K
      else case registered of
          None \<Rightarrow> cpu A B M N K
        | Some fn \<Rightarrow>
            (case fn A B (of_nat M) (of_nat N) (of_nat K) of
               Some (Gpu_Bytes out) \<Rightarrow> if length out = M * N then Some (Inr out) else cpu A B M N K
             | _ \<Rightarrow> cpu A B M N K))"

section \<open>The dispatch queue\<close>

datatype 't worker = Checking | Waiting | Running 't | Exited

record 't dispatch =
  tasks :: "'t list"
  stop :: bool
  worker :: "'t worker"
  notifies :: nat
  finished :: "'t list"
  submitted :: "'t list"

definition dispatch_init :: "'t dispatch" where
  "dispatch_init = \<lparr>tasks = [], stop = False, worker = Checking, notifies = 0, finished = [], submitted = []\<rparr>"

inductive dispatch_step :: "'t dispatch \<Rightarrow> 't dispatch \<Rightarrow> bool" where
  enqueue: "\<not> stop s \<Longrightarrow> dispatch_step s
     (s\<lparr>tasks := tasks s @ [t], submitted := submitted s @ [t], notifies := Suc (notifies s)\<rparr>)"
| shutdown: "\<not> stop s \<Longrightarrow> dispatch_step s (s\<lparr>stop := True, notifies := Suc (notifies s)\<rparr>)"
| notify_waiting: "notifies s = Suc n \<Longrightarrow> worker s = Waiting \<Longrightarrow>
     dispatch_step s (s\<lparr>notifies := n, worker := Checking\<rparr>)"
| notify_nobody: "notifies s = Suc n \<Longrightarrow> worker s \<noteq> Waiting \<Longrightarrow> dispatch_step s (s\<lparr>notifies := n\<rparr>)"
| spurious: "worker s = Waiting \<Longrightarrow> dispatch_step s (s\<lparr>worker := Checking\<rparr>)"
| wait: "worker s = Checking \<Longrightarrow> \<not> stop s \<Longrightarrow> tasks s = [] \<Longrightarrow> dispatch_step s (s\<lparr>worker := Waiting\<rparr>)"
| exit: "worker s = Checking \<Longrightarrow> stop s \<Longrightarrow> tasks s = [] \<Longrightarrow> dispatch_step s (s\<lparr>worker := Exited\<rparr>)"
| take_task: "worker s = Checking \<Longrightarrow> tasks s = t # ts \<Longrightarrow>
     dispatch_step s (s\<lparr>worker := Running t, tasks := ts\<rparr>)"
| finish: "worker s = Running t \<Longrightarrow>
     dispatch_step s (s\<lparr>worker := Checking, finished := finished s @ [t]\<rparr>)"

inductive dispatch_run :: "nat \<Rightarrow> 't dispatch \<Rightarrow> 't dispatch \<Rightarrow> bool" where
  start: "dispatch_run 0 s s"
| step: "dispatch_run n s t \<Longrightarrow> dispatch_step t u \<Longrightarrow> dispatch_run (Suc n) s u"

inductive_cases dispatch_stepE: "dispatch_step s t"

fun in_hand :: "'t worker \<Rightarrow> 't list" where
  "in_hand (Running t) = [t]"
| "in_hand w = []"

definition dispatch_inv :: "'t dispatch \<Rightarrow> bool" where
  "dispatch_inv s \<longleftrightarrow>
     submitted s = finished s @ in_hand (worker s) @ tasks s \<and>
     (worker s = Waiting \<and> (stop s \<or> tasks s \<noteq> []) \<longrightarrow> 0 < notifies s) \<and>
     (worker s = Exited \<longrightarrow> stop s \<and> tasks s = [])"

lemma dispatch_inv_init [simp]: "dispatch_inv dispatch_init"
  by (simp add: dispatch_inv_def dispatch_init_def)

lemma dispatch_inv_step: "dispatch_step s t \<Longrightarrow> dispatch_inv s \<Longrightarrow> dispatch_inv t"
  by (erule dispatch_stepE) (auto simp: dispatch_inv_def)

lemma dispatch_inv_run: "dispatch_run n s t \<Longrightarrow> dispatch_inv s \<Longrightarrow> dispatch_inv t"
  by (induction rule: dispatch_run.induct) (auto intro: dispatch_inv_step)

fun worker_rank :: "'t worker \<Rightarrow> nat" where
  "worker_rank Exited = 0"
| "worker_rank Checking = 1"
| "worker_rank Waiting = 2"
| "worker_rank (Running t) = 2"

definition dispatch_measure :: "'t dispatch \<Rightarrow> nat" where
  "dispatch_measure s = 2 * length (tasks s) + notifies s + worker_rank (worker s)"

lemma stopped_step:
  "dispatch_step s t \<Longrightarrow> stop s \<Longrightarrow> stop t \<and> submitted t = submitted s \<and> dispatch_measure t < dispatch_measure s"
  by (erule dispatch_stepE) (auto simp: dispatch_measure_def)

lemma stopped_run:
  "dispatch_run n s t \<Longrightarrow> stop s \<Longrightarrow>
   stop t \<and> submitted t = submitted s \<and> dispatch_measure t + n \<le> dispatch_measure s"
  by (induction rule: dispatch_run.induct) (fastforce dest: stopped_step)+

lemma worker_moves:
  assumes "dispatch_inv s" and "stop s" and "worker s \<noteq> Exited"
  shows "\<exists>t. dispatch_step s t"
proof (cases "worker s")
  case Checking
  with assms(2) show ?thesis by (cases "tasks s") (blast intro: dispatch_step.intros)+
qed (use assms(3) in \<open>blast intro: dispatch_step.intros\<close>)+

section \<open>Properties\<close>

text \<open>
  C10: in every reachable state the tasks handed to \<open>enqueue\<close> are, in order, those finished, the
  one being run and those queued; a worker is never asleep while there is work or a shutdown
  without a notification under way; and once the worker has left its loop, every task has been
  run exactly once, in order.
\<close>

theorem dispatch_safe:
  assumes "dispatch_run n dispatch_init s"
  shows "submitted s = finished s @ in_hand (worker s) @ tasks s \<and>
    (worker s = Waiting \<and> (stop s \<or> tasks s \<noteq> []) \<longrightarrow> 0 < notifies s) \<and>
    (worker s = Exited \<longrightarrow> finished s = submitted s)"
  using dispatch_inv_run [OF assms dispatch_inv_init] by (auto simp: dispatch_inv_def)

lemma dispatch_safe_witness:
  "\<exists>n s. dispatch_run n dispatch_init s \<and> worker s = Exited \<and> finished s = [7 :: nat] \<and> finished s = submitted s"
proof -
  define s0 :: "nat dispatch" where "s0 = dispatch_init"
  define s1 where "s1 = s0\<lparr>tasks := tasks s0 @ [7], submitted := submitted s0 @ [7], notifies := Suc (notifies s0)\<rparr>"
  define s2 where "s2 = s1\<lparr>worker := Running 7, tasks := []\<rparr>"
  define s3 where "s3 = s2\<lparr>stop := True, notifies := Suc (notifies s2)\<rparr>"
  define s4 where "s4 = s3\<lparr>worker := Checking, finished := finished s3 @ [7]\<rparr>"
  define s5 where "s5 = s4\<lparr>worker := Exited\<rparr>"
  note defs = s0_def s1_def s2_def s3_def s4_def s5_def dispatch_init_def
  have "dispatch_step s0 s1" unfolding s1_def by (rule enqueue) (simp add: defs)
  moreover have "dispatch_step s1 s2" unfolding s2_def by (rule take_task) (simp_all add: defs)
  moreover have "dispatch_step s2 s3" unfolding s3_def by (rule shutdown) (simp add: defs)
  moreover have "dispatch_step s3 s4" unfolding s4_def by (rule finish) (simp add: defs)
  moreover have "dispatch_step s4 s5" unfolding s5_def by (rule exit) (simp_all add: defs)
  ultimately obtain n where r: "dispatch_run n dispatch_init s5"
    unfolding s0_def [symmetric] by (meson dispatch_run.intros)
  from dispatch_safe [OF r] r show ?thesis
    by (intro exI [of _ n] exI [of _ s5]) (simp add: defs)
qed

text \<open>
  C11: after the destructor has set the flag the queue drains: a run has at most
  \<open>dispatch_measure\<close> steps left, and it can only end with the worker gone and every submitted
  task run, so the \<open>join\<close> returns and no future is left without a value.
\<close>

theorem dispatch_drains:
  assumes "dispatch_run m dispatch_init s" and "stop s" and "dispatch_run n s t"
  shows "n \<le> dispatch_measure s \<and>
    ((\<exists>u. dispatch_step t u) \<or> worker t = Exited \<and> finished t = submitted s)"
proof -
  have inv: "dispatch_inv t"
    using assms(1,3) dispatch_inv_run dispatch_inv_init by blast
  then have "worker t = Exited \<Longrightarrow> finished t = submitted t" by (simp add: dispatch_inv_def)
  with worker_moves [OF inv] stopped_run [OF assms(3,2)] show ?thesis by auto
qed

lemma dispatch_drains_witness:
  "\<exists>s. dispatch_run 1 (dispatch_init :: nat dispatch) s \<and> stop s \<and> 0 \<le> dispatch_measure s \<and>
    ((\<exists>u. dispatch_step s u) \<or> worker s = Exited \<and> finished s = submitted s)"
proof -
  let ?s = "(dispatch_init :: nat dispatch)\<lparr>stop := True, notifies := Suc (notifies (dispatch_init :: nat dispatch))\<rparr>"
  have "dispatch_step (dispatch_init :: nat dispatch) ?s" by (rule shutdown) (simp add: dispatch_init_def)
  then have r: "dispatch_run 1 (dispatch_init :: nat dispatch) ?s"
    using dispatch_run.intros One_nat_def by metis
  from dispatch_drains [OF r _ dispatch_run.start] r show ?thesis by (intro exI [of _ ?s]) simp
qed

text \<open>
  The GPU entry point computes the saturated product in every build, up to its columns, and for
  every runtime that keeps the contract of the shader (when it returns \<open>M * N\<close> bytes, they are the
  product): a missing backend, an unregistered or throwing function, another kind of value or
  another size all fall back to the CPU multiply.
\<close>

theorem int8_matmul_gpu_ok:
  assumes "length A = M * K" and "length B = K * N" and "K \<le> 131071" and "N \<le> max_columns bld"
    and "complete_schedule (tile_width bld) workers sched M N"
    and "\<And>fn out. registered = Some fn \<Longrightarrow> fn A B (of_nat M) (of_nat N) (of_nat K) = Some (Gpu_Bytes out) \<Longrightarrow>
      length out = M * N \<Longrightarrow> out = matmul_ref A B M N K"
  shows "int8_matmul_gpu vulkan available registered (int8_matmul (build_tile bld) (tile_width bld) workers sched) A B M N K =
    Some (Inr (matmul_ref A B M N K))"
  using assms(6) by (auto simp: int8_matmul_gpu_def build_multiply [OF assms(1-5)] split: option.splits gpu_value.splits)

lemma int8_matmul_gpu_ok_witness:
  "int8_matmul_gpu True True (Some (\<lambda>A B m n k. Some (Gpu_Bytes []))) (int8_matmul (build_tile Avx2_Build) (tile_width Avx2_Build) 4 [0, 0, 5, 0])
     [100, 2] [3, - 1, 50, 4] 1 2 2 = Some (Inr (matmul_ref [100, 2] [3, - 1, 50, 4] 1 2 2))"
proof -
  have "complete_schedule (tile_width Avx2_Build) 4 [0, 0, 5, 0] 1 2" by code_simp
  then show ?thesis by (intro int8_matmul_gpu_ok) auto
qed

end
