(* ===== verification/Int8_Spec.thy ===== *)
theory Int8_Spec
  imports Prelude
begin

text \<open>
  The network file format of \<open>include/neuropet/int8_spec.hpp\<close>. A file is a byte list
  (\<open>None\<close>: it cannot be opened); an input stream is the unread bytes and its fail bit,
  and \<open>istream_read\<close> is the C++ \<open>read\<close>: on a short read the buffer keeps
  its old tail and the fail bit is set, on a failed stream nothing happens. What an uninitialised
  local variable holds is the argument \<open>junk\<close>. Integers are written in host order,
  little-endian on the supported targets.
\<close>

section \<open>Networks\<close>

datatype Int8Op = Dense | ReLU | Unnamed u8

text \<open>The enumeration has the underlying type \<open>uint8_t\<close>, so a cast can give a value without a name.\<close>

definition op_of_byte :: "u8 \<Rightarrow> Int8Op" where
  "op_of_byte b = (if b = 0 then Dense else if b = 1 then ReLU else Unnamed b)"

fun byte_of_op :: "Int8Op \<Rightarrow> u8" where
  "byte_of_op Dense = 0"
| "byte_of_op ReLU = 1"
| "byte_of_op (Unnamed b) = b"

record Int8Layer =
  op :: Int8Op
  n_input :: nat
  n_output :: nat
  weights :: "i8 list"
  bias :: "i8 list"

record Int8Network =
  layers :: "Int8Layer list"

section \<open>Writing\<close>

definition write_u32 :: "u32 \<Rightarrow> u8 list" where
  "write_u32 v = map (\<lambda>k. ucast (drop_bit (8 * k) v)) [0..<4]"

definition N8NW :: "u8 list" where
  "N8NW = [0x4e, 0x38, 0x4e, 0x57]"

definition save_layer :: "Int8Layer \<Rightarrow> u8 list" where
  "save_layer l = [byte_of_op (op l)] @ write_u32 (of_nat (n_input l)) @ write_u32 (of_nat (n_output l)) @
     write_u32 (of_nat (length (weights l))) @ weights l @
     write_u32 (of_nat (length (bias l))) @ bias l"

definition save_network :: "bool \<Rightarrow> Int8Network \<Rightarrow> u8 list res" where
  \<comment> \<open>\<open>writable\<close>: every write of the stream succeeds\<close>
  "save_network writable net =
     (if writable then Inr (N8NW @ write_u32 1 @ write_u32 (of_nat (length (layers net))) @
        concat (map save_layer (layers net)))
      else Inl (Thrown ''failed to write network''))"

section \<open>Reading\<close>

record istream =
  unread :: "u8 list"
  failed :: bool

definition istream_read :: "u8 list \<Rightarrow> istream \<Rightarrow> u8 list \<times> istream" where
  \<comment> \<open>\<open>read(buf, size)\<close> into a buffer of that size\<close>
  "istream_read buf s =
     (if failed s then (buf, s)
      else if length buf \<le> length (unread s)
      then (take (length buf) (unread s), s\<lparr>unread := drop (length buf) (unread s)\<rparr>)
      else (unread s @ drop (length (unread s)) buf, s\<lparr>unread := [], failed := True\<rparr>))"

definition word_of_bytes :: "u8 list \<Rightarrow> u32" where
  "word_of_bytes bs = foldr (\<lambda>b v. ucast b OR push_bit 8 v) bs 0"

definition read_u32 :: "u8 list \<Rightarrow> istream \<Rightarrow> (u32 \<times> istream) res" where
  "read_u32 junk s =
     (let (b, s') = istream_read (take 4 junk) s in
      if failed s' then Inl (Thrown ''failed to read u32'') else Inr (word_of_bytes b, s'))"

definition load_layer :: "u8 list \<Rightarrow> istream \<Rightarrow> (Int8Layer \<times> istream) res" where
  "load_layer junk s0 =
     (let (ob, s1) = istream_read (take 1 junk) s0 in
      rbind (read_u32 junk s1) (\<lambda>(inp, s2).
      rbind (read_u32 junk s2) (\<lambda>(outp, s3).
      rbind (read_u32 junk s3) (\<lambda>(w, s4).
      let (ws, s5) = istream_read (replicate (unat w) 0) s4 in
      rbind (read_u32 junk s5) (\<lambda>(b, s6).
      let (bs, s7) = istream_read (replicate (unat b) 0) s6 in
      Inr (\<lparr>op = op_of_byte (hd ob), n_input = unat inp, n_output = unat outp, weights = ws, bias = bs\<rparr>, s7))))))"

fun load_layers :: "u8 list \<Rightarrow> nat \<Rightarrow> istream \<Rightarrow> (Int8Layer list \<times> istream) res" where
  "load_layers junk 0 s = Inr ([], s)"
| "load_layers junk (Suc n) s =
     rbind (load_layer junk s) (\<lambda>(l, s'). rbind (load_layers junk n s') (\<lambda>(ls, s''). Inr (l # ls, s'')))"

definition load_network :: "u8 list \<Rightarrow> u8 list option \<Rightarrow> Int8Network res" where
  "load_network junk file =
     (let s0 = (case file of None \<Rightarrow> \<lparr>unread = [], failed = True\<rparr> | Some bs \<Rightarrow> \<lparr>unread = bs, failed = False\<rparr>);
          (magic, s1) = istream_read (take 4 junk) s0 in
      if magic \<noteq> N8NW then Inl (Thrown ''invalid network file'')
      else rbind (read_u32 junk s1) (\<lambda>(_, s2).
           rbind (read_u32 junk s2) (\<lambda>(count, s3).
           rbind (load_layers junk (unat count) s3) (\<lambda>(ls, s4).
             if failed s4 then Inl (Thrown ''failed to read network'') else Inr \<lparr>layers = ls\<rparr>))))"

section \<open>Readers that invert writers\<close>

text \<open>
  \<open>inverts P x bs\<close>: the reader \<open>P\<close> turns the bytes \<open>bs\<close> into
  \<open>x\<close> and consumes exactly them; on a proper prefix it throws or leaves the stream
  failed, and so it does on a failed stream.
\<close>

definition good :: "u8 list \<Rightarrow> istream" where
  "good bs = \<lparr>unread = bs, failed = False\<rparr>"

definition gives_up :: "('a \<times> istream) res \<Rightarrow> bool" where
  "gives_up r \<longleftrightarrow> (case r of Inl _ \<Rightarrow> True | Inr (_, s) \<Rightarrow> failed s)"

definition inverts :: "(istream \<Rightarrow> ('a \<times> istream) res) \<Rightarrow> 'a \<Rightarrow> u8 list \<Rightarrow> bool" where
  "inverts P x bs \<longleftrightarrow>
     (\<forall>r. P (good (bs @ r)) = Inr (x, good r)) \<and>
     (\<forall>k<length bs. gives_up (P (good (take k bs)))) \<and> (\<forall>s. failed s \<longrightarrow> gives_up (P s))"

lemma gives_up_simps [simp]: "gives_up (Inl e)" "gives_up (Inr (x, s)) \<longleftrightarrow> failed s"
  by (auto simp: gives_up_def)

lemma good_sel [simp]: "unread (good bs) = bs" "\<not> failed (good bs)"
  by (simp_all add: good_def)

lemma invertsD:
  assumes "inverts P x bs"
  shows "P (good (bs @ r)) = Inr (x, good r)" and "k < length bs \<Longrightarrow> gives_up (P (good (take k bs)))"
  using assms by (simp_all add: inverts_def)

lemma inverts_bind:
  assumes "inverts P x bs" and "inverts (Q x) y cs" and "\<And>z s. failed s \<Longrightarrow> gives_up (Q z s)"
  shows "inverts (\<lambda>s. rbind (P s) (\<lambda>(z, s'). Q z s')) y (bs @ cs)"
proof -
  have up: "gives_up (rbind m (\<lambda>(z, s'). Q z s'))" if "gives_up m" for m
    using that assms(3) by (cases m) auto
  have short: "gives_up (rbind (P (good (take k (bs @ cs)))) (\<lambda>(z, s'). Q z s'))" if "k < length (bs @ cs)" for k
  proof (cases "k < length bs")
    case True
    with assms(1) up show ?thesis by (auto simp: inverts_def)
  next
    case False
    with that assms(1,2) show ?thesis by (auto simp: inverts_def)
  qed
  show ?thesis
    unfolding inverts_def using assms(1,2) short up by (auto simp: inverts_def)
qed

lemma inverts_return: "inverts (\<lambda>s. Inr (x, s)) x []"
  by (simp add: inverts_def)

lemma inverts_read: "length buf = length bs \<Longrightarrow> inverts (\<lambda>s. Inr (istream_read buf s)) bs bs"
  by (auto simp: inverts_def istream_read_def good_def)

lemma word_of_bytes_write [simp]: "word_of_bytes (write_u32 v) = v"
proof (rule bit_word_eqI)
  fix n assume "n < LENGTH(32)"
  then consider "n < 8" | "8 \<le> n \<and> n < 16" | "16 \<le> n \<and> n < 24" | "24 \<le> n \<and> n < 32" by force
  then show "bit (word_of_bytes (write_u32 v)) n = bit v n"
    by cases (auto simp: word_of_bytes_def write_u32_def bit_simps upt_conv_Cons)
qed

lemma length_write_u32 [simp]: "length (write_u32 v) = 4"
  by (simp add: write_u32_def)

lemma inverts_u32: "4 \<le> length junk \<Longrightarrow> inverts (read_u32 junk) v (write_u32 v)"
  by (auto simp: inverts_def read_u32_def istream_read_def good_def)

lemma gives_up_read: "failed s \<Longrightarrow> gives_up (Inr (istream_read buf s))"
  by (simp add: istream_read_def)

lemma gives_up_u32: "failed s \<Longrightarrow> gives_up (read_u32 junk s)"
  by (simp add: read_u32_def istream_read_def Let_def)

lemma gives_up_bind: "gives_up m \<Longrightarrow> (\<And>z s. failed s \<Longrightarrow> gives_up (Q z s)) \<Longrightarrow> gives_up (rbind m (\<lambda>(z, s). Q z s))"
  by (cases m) auto

lemma gives_up_Inr: "failed s \<Longrightarrow> gives_up (Inr (x, s))"
  by simp

lemmas gives_up_intros = gives_up_bind gives_up_read gives_up_u32 gives_up_Inr

lemma inverts_return_eq: "x = y \<Longrightarrow> inverts (\<lambda>s. Inr (x, s)) y []"
  by (simp add: inverts_return)

lemmas inverts_u32_then = inverts_bind [OF inverts_u32]
  and inverts_read_then = inverts_bind [OF inverts_read]

text \<open>The reader of a layer as a chain of binds.\<close>

lemma load_layer_binds:
  "load_layer junk = (\<lambda>s0.
     rbind (Inr (istream_read (take 1 junk) s0)) (\<lambda>(ob, s1).
     rbind (read_u32 junk s1) (\<lambda>(inp, s2).
     rbind (read_u32 junk s2) (\<lambda>(outp, s3).
     rbind (read_u32 junk s3) (\<lambda>(w, s4).
     rbind (Inr (istream_read (replicate (unat w) 0) s4)) (\<lambda>(ws, s5).
     rbind (read_u32 junk s5) (\<lambda>(b, s6).
     rbind (Inr (istream_read (replicate (unat b) 0) s6)) (\<lambda>(bs, s7).
     Inr (\<lparr>op = op_of_byte (hd ob), n_input = unat inp, n_output = unat outp, weights = ws, bias = bs\<rparr>, s7)))))))))"
  by (auto simp: load_layer_def Let_def fun_eq_iff intro!: rbind_cong split: prod.splits)

text \<open>
  The networks a file can hold: the counts fit their four bytes and the operation its one. This
  says nothing of how the parts of a layer fit together.
\<close>

definition layer_representable :: "Int8Layer \<Rightarrow> bool" where
  "layer_representable l \<longleftrightarrow> op_of_byte (byte_of_op (op l)) = op l \<and> n_input l < 2 ^ 32 \<and> n_output l < 2 ^ 32 \<and>
     length (weights l) < 2 ^ 32 \<and> length (bias l) < 2 ^ 32"

definition representable :: "Int8Network \<Rightarrow> bool" where
  "representable net \<longleftrightarrow> length (layers net) < 2 ^ 32 \<and> list_all layer_representable (layers net)"

lemma unat_of_nat_u32: "n < 2 ^ 32 \<Longrightarrow> unat (of_nat n :: u32) = n"
  by (simp add: unsigned_of_nat take_bit_nat_eq_self)

lemma gives_up_layer: "failed s \<Longrightarrow> gives_up (load_layer junk s)"
  unfolding load_layer_binds by (intro gives_up_intros)

lemma inverts_layer:
  assumes "layer_representable l" and "4 \<le> length junk"
  shows "inverts (load_layer junk) l (save_layer l)"
proof -
  have l: "l = \<lparr>op = op_of_byte (hd [byte_of_op (op l)]), n_input = unat (of_nat (n_input l) :: u32),
      n_output = unat (of_nat (n_output l) :: u32), weights = weights l, bias = bias l\<rparr>"
    using assms(1) by (simp add: layer_representable_def unat_of_nat_u32)
  have "inverts (load_layer junk) l ([byte_of_op (op l)] @ write_u32 (of_nat (n_input l)) @
      write_u32 (of_nat (n_output l)) @ write_u32 (of_nat (length (weights l))) @ weights l @
      write_u32 (of_nat (length (bias l))) @ bias l @ [])"
    unfolding load_layer_binds
    by (intro inverts_u32_then [OF assms(2)] inverts_read_then inverts_return_eq gives_up_intros)
      (use assms l [symmetric] in \<open>simp_all add: layer_representable_def unat_of_nat_u32\<close>)
  then show ?thesis by (simp add: save_layer_def)
qed

lemma load_layers_failed: "failed s \<Longrightarrow> gives_up (load_layers junk n s)"
proof (induction n arbitrary: s)
  case (Suc n)
  then show ?case by (auto intro!: gives_up_intros gives_up_layer)
qed simp

lemma inverts_layers:
  assumes "list_all layer_representable ls" and "4 \<le> length junk"
  shows "inverts (load_layers junk (length ls)) ls (concat (map save_layer ls))"
  using assms(1)
proof (induction ls)
  case Nil
  show ?case by (simp add: inverts_def)
next
  case (Cons l ls)
  then have l: "inverts (load_layer junk) l (save_layer l)"
    and ls: "inverts (load_layers junk (length ls)) ls (concat (map save_layer ls))"
    using assms(2) by (auto intro: inverts_layer)
  have "inverts (\<lambda>s. rbind (load_layer junk s) (\<lambda>(l, s'). rbind (load_layers junk (length ls) s') (\<lambda>(ls, s''). Inr (l # ls, s''))))
      (l # ls) (save_layer l @ concat (map save_layer ls) @ [])"
    by (intro inverts_bind [OF l] inverts_bind [OF ls] inverts_return_eq gives_up_intros load_layers_failed) auto
  then show ?case by simp
qed

definition load_body :: "u8 list \<Rightarrow> istream \<Rightarrow> (Int8Layer list \<times> istream) res" where
  "load_body junk s =
     rbind (Inr (istream_read (take 4 junk) s)) (\<lambda>(magic, s1).
     (\<lambda>s1. if magic \<noteq> N8NW then Inl (Thrown ''invalid network file'') else
       rbind (read_u32 junk s1) (\<lambda>(_, s2). rbind (read_u32 junk s2) (\<lambda>(count, s3).
       load_layers junk (unat count) s3))) s1)"

lemma load_network_body:
  "load_network junk (Some bs) =
     rbind (load_body junk (good bs)) (\<lambda>(ls, s).
       if failed s then Inl (Thrown ''failed to read network'') else Inr \<lparr>layers = ls\<rparr>)"
  by (simp add: load_network_def load_body_def good_def Let_def rbind_assoc split_def)

lemma load_body_failed:
  "gives_up (if magic \<noteq> N8NW then Inl (Thrown ''invalid network file'') else
     rbind (read_u32 junk s1) (\<lambda>(_, s2). rbind (read_u32 junk s2) (\<lambda>(count, s3).
     load_layers junk (unat count) s3)))" if "failed s1"
  using that by (auto intro!: gives_up_intros load_layers_failed)

lemma inverts_network:
  assumes "representable net" and "4 \<le> length junk"
  shows "inverts (load_body junk) (layers net)
    (N8NW @ write_u32 v @ write_u32 (of_nat (length (layers net))) @ concat (map save_layer (layers net)))"
proof -
  have "inverts (load_layers junk (unat (of_nat (length (layers net)) :: u32))) (layers net)
      (concat (map save_layer (layers net)))"
    using assms inverts_layers [of "layers net" junk] by (simp add: representable_def unat_of_nat_u32)
  then have "inverts (\<lambda>s. rbind (read_u32 junk s) (\<lambda>(_, s2). rbind (read_u32 junk s2) (\<lambda>(count, s3).
       load_layers junk (unat count) s3))) (layers net)
    (write_u32 v @ write_u32 (of_nat (length (layers net))) @ concat (map save_layer (layers net)))"
    by (intro inverts_u32_then [OF assms(2)] gives_up_intros load_layers_failed)
  then show ?thesis
    unfolding load_body_def using assms(2)
    by (intro inverts_read_then load_body_failed) (simp_all add: N8NW_def)
qed

lemma inverts_saved:
  assumes "representable net" and "4 \<le> length junk" and "save_network True net = Inr bs"
  shows "inverts (load_body junk) (layers net) bs"
  using inverts_network [OF assms(1,2), of 1] assms(3) by (simp add: save_network_def)

lemma load_saved:
  assumes "representable net" and "4 \<le> length junk" and "save_network True net = Inr bs"
  shows "load_network junk (Some (bs @ extra)) = Inr net"
proof -
  have "load_body junk (good (bs @ extra)) = Inr (layers net, good extra)"
    by (rule invertsD(1) [OF inverts_saved [OF assms]])
  then show ?thesis by (simp add: load_network_body)
qed

section \<open>What the reader accepts\<close>

lemma istream_readD:
  assumes "istream_read buf s = (x, s')" and "\<not> failed s'"
  shows "\<not> failed s" and "unread s = x @ unread s'" and "length x = length buf"
  using assms by (auto simp: istream_read_def split: if_splits)

lemma write_of_bytes:
  assumes "length b = 4"
  shows "write_u32 (word_of_bytes b) = b"
proof (rule nth_equalityI)
  fix k assume "k < length (write_u32 (word_of_bytes b))"
  then have k: "k < 4" by simp
  obtain p q r u where b: "b = [p, q, r, u]" using assms by (auto simp: eval_nat_numeral length_Suc_conv)
  have "write_u32 (word_of_bytes b) ! k = ucast (drop_bit (8 * k) (word_of_bytes b))" using k by (simp add: write_u32_def)
  also have "\<dots> = b ! k"
  proof (rule bit_word_eqI)
    fix n assume n: "n < LENGTH(8)"
    from k consider "k = 0" | "k = 1" | "k = 2" | "k = 3" by linarith
    then show "bit (ucast (drop_bit (8 * k) (word_of_bytes b)) :: u8) n = bit (b ! k) n"
      by cases (use n in \<open>auto simp: b word_of_bytes_def bit_simps dest: bit_imp_le_length\<close>)
  qed
  finally show "write_u32 (word_of_bytes b) ! k = b ! k" .
qed (simp add: assms)

lemma read_u32D:
  assumes "read_u32 junk s = Inr (v, s')" and "4 \<le> length junk"
  shows "\<not> failed s'" and "\<not> failed s" and "unread s = write_u32 v @ unread s'"
proof -
  obtain b where b: "istream_read (take 4 junk) s = (b, s')" "\<not> failed s'" "v = word_of_bytes b"
    using assms(1) by (auto simp: read_u32_def split: prod.splits if_splits)
  from istream_readD [OF b(1,2)] assms(2) b(2,3) show "\<not> failed s'" "\<not> failed s" "unread s = write_u32 v @ unread s'"
    by (auto simp: write_of_bytes)
qed

lemma byte_of_op_of_byte [simp]: "byte_of_op (op_of_byte b) = b"
  by (simp add: op_of_byte_def)

lemma load_layerD:
  assumes "load_layer junk s = Inr (l, s')" and "\<not> failed s'" and "4 \<le> length junk"
  shows "\<not> failed s \<and> unread s = save_layer l @ unread s' \<and> layer_representable l"
proof -
  obtain ob s1 i s2 out s3 w s4 ws s5 b s6 bs where r: "istream_read (take 1 junk) s = (ob, s1)"
    "read_u32 junk s1 = Inr (i, s2)" "read_u32 junk s2 = Inr (out, s3)" "read_u32 junk s3 = Inr (w, s4)"
    "istream_read (replicate (unat w) 0) s4 = (ws, s5)" "read_u32 junk s5 = Inr (b, s6)"
    "istream_read (replicate (unat b) 0) s6 = (bs, s')"
    "l = \<lparr>op = op_of_byte (hd ob), n_input = unat i, n_output = unat out, weights = ws, bias = bs\<rparr>"
    using assms(1) unfolding load_layer_binds
    by (simp only: rbind_Inr_iff split_paired_Ex prod.case sum.inject prod.inject) blast
  note 7 = istream_readD [OF r(7) assms(2)]
  note 6 = read_u32D [OF r(6) assms(3)]
  note 5 = istream_readD [OF r(5) 6(2)]
  note 4 = read_u32D [OF r(4) assms(3)] and 3 = read_u32D [OF r(3) assms(3)] and 2 = read_u32D [OF r(2) assms(3)]
  note 1 = istream_readD [OF r(1) 2(2)]
  have "length ob = 1" using 1(3) assms(3) by simp
  then have "ob = [hd ob]" by (cases ob) auto
  with 1 2 3 4 5 6 7 show ?thesis
    by (auto simp: r(8) save_layer_def layer_representable_def unsigned_less [where 'b = 32, simplified])
qed

lemma load_layersD:
  assumes "load_layers junk n s = Inr (ls, s')" and "\<not> failed s'" and "4 \<le> length junk"
  shows "\<not> failed s \<and> unread s = concat (map save_layer ls) @ unread s' \<and> list_all layer_representable ls \<and> length ls = n"
  using assms(1)
proof (induction n arbitrary: s ls)
  case 0
  then show ?case using assms(2) by simp
next
  case (Suc n)
  then obtain l t ks where r: "load_layer junk s = Inr (l, t)" "load_layers junk n t = Inr (ks, s')" "ls = l # ks"
    by (auto simp: rbind_Inr_iff)
  from Suc.IH [OF r(2)] load_layerD [OF r(1) _ assms(3)] show ?case by (auto simp: r(3))
qed

section \<open>Properties\<close>

text \<open>
  C19: a network that was saved is loaded back unchanged, whatever follows it in the file and
  whatever the reader's uninitialised buffers held, as long as its counts fit 32 bits.
\<close>

theorem network_roundtrip:
  assumes "representable net" and "4 \<le> length junk" and "save_network True net = Inr bs"
  shows "load_network junk (Some (bs @ extra)) = Inr net"
  using assms by (rule load_saved)

definition sample_network :: Int8Network where
  "sample_network = \<lparr>layers =
     [\<lparr>op = Dense, n_input = 2, n_output = 1, weights = [3, - 4], bias = [- 1]\<rparr>,
      \<lparr>op = ReLU, n_input = 1, n_output = 1, weights = [], bias = []\<rparr>]\<rparr>"

lemma sample_network_ok: "representable sample_network"
  by (simp add: representable_def sample_network_def layer_representable_def op_of_byte_def)

lemma network_roundtrip_witness:
  "\<exists>bs. save_network True sample_network = Inr bs \<and> length bs = 49 \<and>
     load_network [1, 2, 3, 4] (Some (bs @ [9])) = Inr sample_network"
proof -
  obtain bs where bs: "save_network True sample_network = Inr bs" by (simp add: save_network_def)
  moreover have "length bs = 49"
    using bs by (auto simp: save_network_def sample_network_def save_layer_def N8NW_def)
  moreover have "load_network [1, 2, 3, 4] (Some (bs @ [9])) = Inr sample_network"
    by (rule network_roundtrip [OF sample_network_ok _ bs]) simp
  ultimately show ?thesis by blast
qed

text \<open>
  C20: \<open>load_network\<close> accepts exactly the files of the format: the magic, any four
  bytes of version, a count of layers, that many layers as \<open>save_network\<close> writes them,
  and anything behind them; what it returns then is the network that was written, and nothing else.
  Every network whose counts fit 32 bits and whose operations fit a byte is accepted in this way:
  the comments of the format on the sizes of the weights and the biases, and the names of the
  operations, are not checked, see \<open>undocumented_network_loads\<close>.
\<close>

theorem loaded_network_typed:
  assumes "4 \<le> length junk"
  shows "load_network junk (Some bs) = Inr net \<longleftrightarrow>
    representable net \<and> (\<exists>version rest. length version = 4 \<and>
      bs = N8NW @ version @ write_u32 (of_nat (length (layers net))) @ concat (map save_layer (layers net)) @ rest)"
    (is "_ \<longleftrightarrow> _ \<and> (\<exists>version rest. ?file version rest)")
proof (intro iffI)
  assume "load_network junk (Some bs) = Inr net"
  then obtain m s1 v s2 n s3 ls s4 where r: "istream_read (take 4 junk) (good bs) = (m, s1)" "m = N8NW" "read_u32 junk s1 = Inr (v, s2)"
    "read_u32 junk s2 = Inr (n, s3)" "load_layers junk (unat n) s3 = Inr (ls, s4)" "\<not> failed s4" "net = \<lparr>layers = ls\<rparr>"
    by (auto simp: load_network_body load_body_def rbind_Inr_iff split: prod.splits if_splits)
  note 4 = load_layersD [OF r(5,6) assms]
  note 3 = read_u32D [OF r(4) assms] and 2 = read_u32D [OF r(3) assms]
  note 1 = istream_readD [OF r(1) 2(2)]
  have n: "of_nat (length ls) = n" using 4 by simp
  have "length ls < 2 ^ 32" using 4 unsigned_less [of n] by simp
  with 4 have "representable net" by (simp add: representable_def r(7))
  moreover have "?file (write_u32 v) (unread s4)" using 1 2 3 4 r(2) by (simp add: r(7) n)
  ultimately show "representable net \<and> (\<exists>version rest. ?file version rest)" by blast
next
  assume "representable net \<and> (\<exists>version rest. ?file version rest)"
  then obtain version rest where net: "representable net" "?file version rest" by blast
  have "load_body junk (good bs) = Inr (layers net, good rest)"
    using invertsD(1) [OF inverts_network [OF net(1) assms, of "word_of_bytes version"], of rest] net(2)
    by (simp add: write_of_bytes)
  then show "load_network junk (Some bs) = Inr net" by (simp add: load_network_body)
qed

definition future_file :: "u8 list" where
  \<comment> \<open>version 9, one layer with an operation that has no name, and two bytes after it\<close>
  "future_file = N8NW @ [9, 0, 0, 0] @ [1, 0, 0, 0] @ [5, 2, 0, 0, 0, 1, 0, 0, 0, 1, 0, 0, 0, 77, 0, 0, 0, 0] @ [8, 8]"

lemma future_file_loads: "load_network [1, 2, 3, 4] (Some future_file) =
    Inr \<lparr>layers = [\<lparr>op = Unnamed 5, n_input = 2, n_output = 1, weights = [77], bias = []\<rparr>]\<rparr>"
  by code_simp

lemma loaded_network_typed_witness:
  "representable \<lparr>layers = [\<lparr>op = Unnamed 5, n_input = 2, n_output = 1, weights = [77], bias = []\<rparr>]\<rparr> \<and>
   (\<exists>version rest. length version = 4 \<and> future_file = N8NW @ version @ write_u32 1 @
      save_layer \<lparr>op = Unnamed 5, n_input = 2, n_output = 1, weights = [77], bias = []\<rparr> @ rest)"
  using future_file_loads
  by (subst (asm) loaded_network_typed) simp_all

definition documented_layer :: "Int8Layer \<Rightarrow> bool" where
  \<comment> \<open>a layer as the comments of its structure have it\<close>
  "documented_layer l \<longleftrightarrow> op l \<in> {Dense, ReLU} \<and> (op l = Dense \<longrightarrow> length (weights l) = n_input l * n_output l) \<and>
     length (bias l) = n_output l"

text \<open>
  The reader does not enforce the comments of the structure: the file \<open>future_file\<close> is accepted
  with an operation that has no name, and it has one weight for two inputs and no bias.
\<close>

theorem undocumented_network_loads:
  "\<exists>bs net. load_network [1, 2, 3, 4] (Some bs) = Inr net \<and> representable net \<and> \<not> list_all documented_layer (layers net)"
  using future_file_loads
  by (intro exI [of _ future_file] exI [of _ "\<lparr>layers = [\<lparr>op = Unnamed 5, n_input = 2, n_output = 1, weights = [77], bias = []\<rparr>]\<rparr>"])
    (auto simp: documented_layer_def representable_def layer_representable_def op_of_byte_def)

text \<open>
  A truncated file is never accepted: every proper prefix of a saved network makes
  \<open>load_network\<close> throw.
\<close>

theorem network_truncated:
  assumes "representable net" and "4 \<le> length junk" and "save_network True net = Inr bs"
    and "k < length bs"
  shows "\<exists>e. load_network junk (Some (take k bs)) = Inl e"
proof -
  have "gives_up (load_body junk (good (take k bs)))"
    by (rule invertsD(2) [OF inverts_saved [OF assms(1-3)] assms(4)])
  then show ?thesis by (cases "load_body junk (good (take k bs))") (auto simp: load_network_body)
qed

lemma network_truncated_witness:
  "\<exists>bs e. save_network True sample_network = Inr bs \<and> load_network [0x4e, 0x38, 0x4e, 0x57] (Some (take 3 bs)) = Inl e"
proof -
  obtain bs where bs: "save_network True sample_network = Inr bs" by (simp add: save_network_def)
  then have "3 < length bs" by (auto simp: save_network_def N8NW_def)
  from network_truncated [OF sample_network_ok _ bs this, of "[0x4e, 0x38, 0x4e, 0x57]"] bs
  show ?thesis by auto
qed

end
