(* ===== verification/Float32.thy ===== *)
theory Float32
  imports Prelude
begin

text \<open>
  IEEE single precision as the program stores and compares it: a float is its 32 bits, and
  \<open>f_lt\<close>, \<open>f_le\<close>, \<open>f_eq\<close> are the comparison operators, false
  on NaN; \<open>f_key\<close> orders the numbers (both zeros are 0). The arithmetic of the C++
  floating-point environment is an argument, the record \<open>flops\<close>.
\<close>

type_synonym f32 = u32

definition f_mag :: "f32 \<Rightarrow> nat" where
  "f_mag w = unat (w AND 0x7fffffff)"

definition f_neg :: "f32 \<Rightarrow> bool" where
  "f_neg w \<longleftrightarrow> bit w 31"

definition is_nan :: "f32 \<Rightarrow> bool" where
  "is_nan w \<longleftrightarrow> f_mag w > 0x7f800000"

definition f_key :: "f32 \<Rightarrow> int" where
  "f_key w = (if f_neg w then - int (f_mag w) else int (f_mag w))"

definition f_lt :: "f32 \<Rightarrow> f32 \<Rightarrow> bool" where
  "f_lt a b \<longleftrightarrow> \<not> is_nan a \<and> \<not> is_nan b \<and> f_key a < f_key b"

definition f_le :: "f32 \<Rightarrow> f32 \<Rightarrow> bool" where
  "f_le a b \<longleftrightarrow> \<not> is_nan a \<and> \<not> is_nan b \<and> f_key a \<le> f_key b"

definition f_eq :: "f32 \<Rightarrow> f32 \<Rightarrow> bool" where
  "f_eq a b \<longleftrightarrow> \<not> is_nan a \<and> \<not> is_nan b \<and> f_key a = f_key b"

definition f_zero :: f32 where "f_zero = 0"
definition f_one :: f32 where "f_one = 0x3f800000"
definition f_minus_one :: f32 where "f_minus_one = 0xbf800000"
definition f_infinity :: f32 where "f_infinity = 0x7f800000"
definition f_1em7 :: f32 where "f_1em7 = 0x33d6bf95"

record flops =
  of_int8 :: "i8 \<Rightarrow> f32"
  fadd :: "f32 \<Rightarrow> f32 \<Rightarrow> f32"
  fsub :: "f32 \<Rightarrow> f32 \<Rightarrow> f32"
  fmul :: "f32 \<Rightarrow> f32 \<Rightarrow> f32"
  fdiv :: "f32 \<Rightarrow> f32 \<Rightarrow> f32"
  fneg :: "f32 \<Rightarrow> f32"
  fexp :: "f32 \<Rightarrow> f32"
  flog :: "f32 \<Rightarrow> f32"

definition f_max :: "f32 \<Rightarrow> f32 \<Rightarrow> f32" where
  \<comment> \<open>\<open>std::max\<close>\<close>
  "f_max a b = (if f_lt a b then b else a)"

definition f_clamp :: "f32 \<Rightarrow> f32 \<Rightarrow> f32 \<Rightarrow> f32" where
  \<comment> \<open>\<open>std::clamp\<close>\<close>
  "f_clamp v lo hi = (if f_lt v lo then lo else if f_lt hi v then hi else v)"

lemma f_le_refl [simp]: "f_le a a \<longleftrightarrow> \<not> is_nan a"
  by (auto simp: f_le_def)

lemma f_le_trans: "f_le a b \<Longrightarrow> f_le b c \<Longrightarrow> f_le a c"
  by (auto simp: f_le_def)

lemma f_not_lt: "\<not> is_nan a \<Longrightarrow> \<not> is_nan b \<Longrightarrow> \<not> f_lt a b \<longleftrightarrow> f_le b a"
  by (auto simp: f_lt_def f_le_def)

lemma f_eq_refl [simp]: "f_eq a a \<longleftrightarrow> \<not> is_nan a"
  by (auto simp: f_eq_def)

lemma f_nan [simp]:
  "is_nan a \<Longrightarrow> \<not> f_lt a b" "is_nan b \<Longrightarrow> \<not> f_lt a b" "is_nan a \<Longrightarrow> \<not> f_le a b" "is_nan b \<Longrightarrow> \<not> f_le a b"
  "is_nan a \<Longrightarrow> \<not> f_eq a b" "is_nan b \<Longrightarrow> \<not> f_eq a b"
  by (auto simp: f_lt_def f_le_def f_eq_def)

lemma f_consts [simp]:
  "\<not> is_nan f_zero" "\<not> is_nan f_minus_one" "\<not> is_nan f_infinity" "f_key f_zero = 0"
  "\<not> f_le f_zero f_minus_one"
  by (simp_all add: is_nan_def f_mag_def f_key_def f_neg_def f_le_def f_zero_def f_minus_one_def f_infinity_def)

lemma f_le_infinity: "\<not> is_nan a \<Longrightarrow> f_le a f_infinity"
proof -
  assume "\<not> is_nan a"
  moreover have "f_key f_infinity = 0x7f800000"
    by (simp add: f_key_def f_neg_def f_mag_def f_infinity_def)
  moreover have "\<not> is_nan a \<Longrightarrow> f_key a \<le> 0x7f800000"
    by (simp add: f_key_def is_nan_def)
  ultimately show ?thesis by (simp add: f_le_def)
qed

end
