(* ===== verification/Training.thy ===== *)
theory Training
  imports Gpu_Dispatch Int8_Spec Float32
begin

text \<open>
  Creature models and their inference (\<open>include/neuropet/training.hpp\<close>, first half) and
  the metrics stream of \<open>metrics.hpp\<close>. The matrix multiply a network calls is an
  argument of \<open>eval_network\<close>, with the type of \<open>int8_matmul_gpu\<close>; the
  locale \<open>gemm\<close> states what inference relies on, and it is interpreted on the CPU
  multiply and on the GPU entry point of the kernel theories.
\<close>

section \<open>Models\<close>

record CreatureModel =
  sensor :: Int8Network
  core :: Int8Network
  appendage :: Int8Network

definition DEFAULT_MAX_MODEL_BYTES :: nat where
  "DEFAULT_MAX_MODEL_BYTES = 64 * 1024"

definition network_byte_size :: "Int8Network \<Rightarrow> nat" where
  "network_byte_size net = fold (\<lambda>l bytes. bytes + (length (weights l) + length (bias l))) (layers net) 0"

definition model_byte_size :: "CreatureModel \<Rightarrow> nat" where
  "model_byte_size m = network_byte_size (sensor m) + network_byte_size (core m) + network_byte_size (appendage m)"

definition enforce_model_size :: "CreatureModel \<Rightarrow> nat \<Rightarrow> unit res" where
  "enforce_model_size m max_bytes =
     (if model_byte_size m > max_bytes then Inl (Thrown ''model exceeds size limit'') else Inr ())"

definition clamp_int8 :: "int \<Rightarrow> i8" where
  "clamp_int8 v = word_of_int (max (- 128) (min 127 v))"

section \<open>Inference\<close>

type_synonym multiply = "i8 list \<Rightarrow> i8 list \<Rightarrow> nat \<Rightarrow> nat \<Rightarrow> nat \<Rightarrow> i8 list res option"

text \<open>A call of the multiply that is not finished (\<open>None\<close>) or faults ends the evaluation.\<close>

fun continue_with :: "'a res option \<Rightarrow> ('a \<Rightarrow> 'b res option) \<Rightarrow> 'b res option" where
  "continue_with None f = None"
| "continue_with (Some (Inl e)) f = Some (Inl e)"
| "continue_with (Some (Inr x)) f = f x"

definition add_bias :: "Int8Layer \<Rightarrow> i8 list \<Rightarrow> i8 list res" where
  "add_bias l next =
     rfold (\<lambda>i next. rbind (at next i) (\<lambda>v. rbind (at (bias l) i) (\<lambda>b. upd next i (clamp_int8 (sint v + sint b)))))
       [0..<n_output l] next"

definition eval_layer :: "multiply \<Rightarrow> Int8Layer \<Rightarrow> i8 list \<Rightarrow> i8 list res option" where
  "eval_layer mult l cur =
     (if op l = Dense then continue_with (mult cur (weights l) 1 (n_output l) (n_input l)) (\<lambda>next. Some (add_bias l next))
      else Some (Inr (map (\<lambda>x. if x <s 0 then 0 else x) cur)))"

fun eval_layers :: "multiply \<Rightarrow> Int8Layer list \<Rightarrow> i8 list \<Rightarrow> i8 list res option" where
  "eval_layers mult [] cur = Some (Inr cur)"
| "eval_layers mult (l # ls) cur = continue_with (eval_layer mult l cur) (eval_layers mult ls)"

definition eval_network :: "multiply \<Rightarrow> Int8Network \<Rightarrow> i8 list \<Rightarrow> i8 list res option" where
  "eval_network mult net inp = eval_layers mult (layers net) inp"

definition run_inference :: "multiply \<Rightarrow> CreatureModel \<Rightarrow> i8 list \<Rightarrow> i8 list res option" where
  "run_inference mult m sensor_in =
     continue_with (Some (enforce_model_size m DEFAULT_MAX_MODEL_BYTES)) (\<lambda>_.
     continue_with (eval_network mult (sensor m) sensor_in) (\<lambda>s.
     continue_with (eval_network mult (core m) s) (\<lambda>c. eval_network mult (appendage m) c)))"

section \<open>Metrics\<close>

record TrainingMetrics =
  step :: u32
  m_loss :: f32

definition float_bytes :: "f32 \<Rightarrow> u8 list" where
  "float_bytes f = map (\<lambda>k. ucast (drop_bit (8 * k) f)) [0..<4]"

definition push :: "(u32 \<Rightarrow> f32) \<Rightarrow> TrainingMetrics \<Rightarrow> u8 list" where
  \<comment> \<open>the data of the tensor handed to the WebSocket; the argument converts an integer to a float\<close>
  "push of_u32 m = float_bytes (of_u32 (step m)) @ float_bytes (m_loss m)"

fun metrics_loop ::
    "multiply \<Rightarrow> flops \<Rightarrow> CreatureModel \<Rightarrow> i8 list \<Rightarrow> nat list \<Rightarrow> TrainingMetrics list \<Rightarrow> TrainingMetrics list res option" where
  "metrics_loop mult fp m inp [] out = Some (Inr out)"
| "metrics_loop mult fp m inp (i # is) out =
     continue_with (run_inference mult m inp) (\<lambda>v.
       metrics_loop mult fp m inp is
         (out @ [\<lparr>step = of_nat (i + 1), m_loss = of_int8 fp (if v = [] then 0 else hd v)\<rparr>]))"

definition train_model_with_metrics ::
    "multiply \<Rightarrow> flops \<Rightarrow> CreatureModel \<Rightarrow> nat \<Rightarrow> i8 list \<Rightarrow> TrainingMetrics list res option" where
  \<comment> \<open>the overload of \<open>train_with_metrics\<close> that takes a model\<close>
  "train_model_with_metrics mult fp m steps inp =
     continue_with (Some (enforce_model_size m DEFAULT_MAX_MODEL_BYTES)) (\<lambda>_. metrics_loop mult fp m inp [0..<steps] [])"

section \<open>Shapes\<close>

fun fits :: "nat \<Rightarrow> Int8Layer list \<Rightarrow> nat \<Rightarrow> bool" where
  \<comment> \<open>\<open>fits n ls m\<close>: the layers take vectors of length \<open>n\<close> to vectors of length \<open>m\<close>\<close>
  "fits n [] m = (n = m)"
| "fits n (l # ls) m =
     (if op l = Dense then n_input l = n \<and> n \<le> 131071 \<and> length (weights l) = n * n_output l \<and>
        n_output l \<le> length (bias l) \<and> fits (n_output l) ls m
      else fits n ls m)"

definition layer_ref :: "Int8Layer \<Rightarrow> i8 list \<Rightarrow> i8 list" where
  \<comment> \<open>saturated product, then saturated bias; or the rectifier\<close>
  "layer_ref l cur =
     (if op l = Dense then map (\<lambda>i. clamp8 (sint (clamp8 (\<Sum>t<n_input l. sint (cur ! t) * sint (weights l ! (t * n_output l + i))))
          + sint (bias l ! i))) [0..<n_output l]
      else map (\<lambda>x. word_of_int (max 0 (sint x))) cur)"

definition network_ref :: "Int8Network \<Rightarrow> i8 list \<Rightarrow> i8 list" where
  "network_ref net inp = fold layer_ref (layers net) inp"

lemma continue_with_iff:
  "continue_with m f = Some (Inr y) \<longleftrightarrow> (\<exists>x. m = Some (Inr x) \<and> f x = Some (Inr y))"
  by (cases "(m, f)" rule: continue_with.cases) auto

lemma clamp_int8_eq: "clamp_int8 = clamp8"
  by (simp add: fun_eq_iff clamp_int8_def clamp8_def)

lemma add_bias_ok:
  assumes "length v = n_output l" and "n_output l \<le> length (bias l)"
  shows "add_bias l v = Inr (map (\<lambda>i. clamp8 (sint (v ! i) + sint (bias l ! i))) [0..<n_output l])"
proof -
  let ?P = "\<lambda>i. map (\<lambda>k. if k < i then clamp8 (sint (v ! k) + sint (bias l ! k)) else v ! k) [0..<n_output l]"
  have "rfold (\<lambda>i next. rbind (at next i) (\<lambda>v. rbind (at (bias l) i) (\<lambda>b. upd next i (clamp_int8 (sint v + sint b)))))
       [0..<n_output l] (?P 0) = Inr (?P (n_output l))"
    by (rule rfold_steps) (use assms(2) in \<open>auto simp: clamp_int8_eq intro!: nth_equalityI simp: nth_list_update\<close>)
  moreover have "?P 0 = v" using assms(1) by (auto intro: nth_equalityI)
  moreover have "?P (n_output l) = map (\<lambda>i. clamp8 (sint (v ! i) + sint (bias l ! i))) [0..<n_output l]" by simp
  ultimately show ?thesis by (simp add: add_bias_def)
qed

lemma relu_eq: "(if x <s 0 then 0 else x) = word_of_int (max 0 (sint x))" for x :: i8
  by (simp add: word_sless_alt max_def)

definition narrow :: "nat \<Rightarrow> Int8Layer list \<Rightarrow> bool" where
  \<comment> \<open>no layer has more outputs than the multiply takes columns\<close>
  "narrow cols ls \<longleftrightarrow> list_all (\<lambda>l. op l = Dense \<longrightarrow> n_output l \<le> cols) ls"

lemma narrow_simps [simp]:
  "narrow cols []" "narrow cols (l # ls) \<longleftrightarrow> (op l = Dense \<longrightarrow> n_output l \<le> cols) \<and> narrow cols ls"
  by (simp_all add: narrow_def)

text \<open>What inference relies on: a multiply that is right for one row and up to \<open>cols\<close> columns.\<close>

locale gemm =
  fixes mult :: multiply and cols :: nat
  assumes mult_row: "length A = K \<Longrightarrow> length B = K * N \<Longrightarrow> K \<le> 131071 \<Longrightarrow> N \<le> cols \<Longrightarrow>
    mult A B 1 N K = Some (Inr (matmul_ref A B 1 N K))"
begin

lemma eval_layer_ok:
  assumes "fits (length cur) (l # ls) m" and "narrow cols (l # ls)"
  shows "eval_layer mult l cur = Some (Inr (layer_ref l cur)) \<and> fits (length (layer_ref l cur)) ls m"
proof (cases "op l = Dense")
  case True
  with assms have f: "n_input l = length cur" "length cur \<le> 131071" "length (weights l) = length cur * n_output l"
    "n_output l \<le> length (bias l)" "fits (n_output l) ls m" "n_output l \<le> cols" by auto
  let ?v = "matmul_ref cur (weights l) 1 (n_output l) (length cur)"
  have "?v = map (\<lambda>i. clamp8 (\<Sum>t<length cur. sint (cur ! t) * sint (weights l ! (t * n_output l + i)))) [0..<n_output l]"
    by (auto simp: matmul_ref_def)
  with f True mult_row [of cur "length cur" "weights l" "n_output l"] add_bias_ok [of ?v l] show ?thesis
    by (simp add: eval_layer_def layer_ref_def)
next
  case False
  with assms show ?thesis by (simp add: eval_layer_def layer_ref_def relu_eq)
qed

lemma eval_layers_ok:
  "fits (length cur) ls m \<Longrightarrow> narrow cols ls \<Longrightarrow>
   eval_layers mult ls cur = Some (Inr (fold layer_ref ls cur)) \<and> length (fold layer_ref ls cur) = m"
proof (induction ls arbitrary: cur)
  case (Cons l ls)
  from eval_layer_ok [OF Cons.prems] Cons.IH [of "layer_ref l cur"] Cons.prems(2) show ?case by simp
qed simp

lemma eval_network_ok:
  assumes "fits (length inp) (layers net) m" and "narrow cols (layers net)"
  shows "eval_network mult net inp = Some (Inr (network_ref net inp)) \<and> length (network_ref net inp) = m"
  using eval_layers_ok [OF assms] by (simp add: eval_network_def network_ref_def)

lemma run_inference_ok:
  assumes "fits (length inp) (layers (sensor m)) a" and "fits a (layers (core m)) b"
    and "fits b (layers (appendage m)) c" and "model_byte_size m \<le> 65536"
    and "narrow cols (layers (sensor m))" and "narrow cols (layers (core m))" and "narrow cols (layers (appendage m))"
  shows "run_inference mult m inp =
    Some (Inr (network_ref (appendage m) (network_ref (core m) (network_ref (sensor m) inp))))"
  using assms eval_network_ok [OF assms(1,5)] eval_network_ok [of "network_ref (sensor m) inp" "core m" b]
    eval_network_ok [of "network_ref (core m) (network_ref (sensor m) inp)" "appendage m" c]
  by (simp add: run_inference_def enforce_model_size_def DEFAULT_MAX_MODEL_BYTES_def)

end

section \<open>The multiply of the kernel\<close>

text \<open>
  The call a layer makes: the GPU entry point over the multiply of the build, with a schedule of
  its threads for every size. \<open>serial_schedule\<close> runs one thread after the other.
\<close>

definition serial_schedule :: "build \<Rightarrow> nat \<Rightarrow> nat \<Rightarrow> nat \<Rightarrow> nat list" where
  "serial_schedule bld workers M N = concat (map
     (\<lambda>w. replicate (length (thread_tasks N (min (tile_width bld) N) (row_chunks workers M N ! w))) w)
     [0..<length (row_chunks workers M N)])"

definition kernel_multiply ::
    "build \<Rightarrow> bool \<Rightarrow> bool \<Rightarrow> gpu_function option \<Rightarrow> nat \<Rightarrow> (nat \<Rightarrow> nat \<Rightarrow> nat list) \<Rightarrow> multiply" where
  "kernel_multiply bld vulkan available registered workers sched A B M N K =
     int8_matmul_gpu vulkan available registered
       (int8_matmul (build_tile bld) (tile_width bld) workers (sched M N)) A B M N K"

lemma count_concat_replicate:
  "w < n \<Longrightarrow> count_list (concat (map (\<lambda>w. replicate (f w) w) [0..<n])) w = f w"
proof (induction n)
  case (Suc n)
  have none: "count_list (concat (map (\<lambda>w. replicate (f w) w) [0..<n])) n = 0" by (auto simp: count_list_0_iff)
  have rep: "count_list (replicate k x) y = (if x = y then k else 0)" for k and x y :: nat by (induction k) auto
  from Suc none rep show ?case by (cases "w = n") auto
qed simp

lemma serial_complete: "complete_schedule (tile_width bld) workers (serial_schedule bld workers M N) M N"
  unfolding complete_schedule_def serial_schedule_def
  using count_concat_replicate [where f = "\<lambda>w. length (thread_tasks N (min (tile_width bld) N) (row_chunks workers M N ! w))"]
  by simp

definition shader_contract :: "gpu_function option \<Rightarrow> bool" where
  \<comment> \<open>what a registered \<open>int8_matmul\<close> of the right size returns is the product, when the sizes fit \<open>int32_t\<close>\<close>
  "shader_contract registered \<longleftrightarrow>
     (\<forall>fn A B M N K out. registered = Some fn \<longrightarrow> M < 2 ^ 31 \<longrightarrow> N < 2 ^ 31 \<longrightarrow> K < 2 ^ 31 \<longrightarrow>
        length A = M * K \<longrightarrow> length B = K * N \<longrightarrow>
        fn A B (of_nat M) (of_nat N) (of_nat K) = Some (Gpu_Bytes out) \<longrightarrow> length out = M * N \<longrightarrow> out = matmul_ref A B M N K)"

lemma shader_contract_None [simp]: "shader_contract None"
  by (simp add: shader_contract_def)

lemma max_columns_int32: "N \<le> max_columns bld \<Longrightarrow> N < 2 ^ 31"
  by (cases bld) simp_all

lemma kernel_multiply_ok:
  assumes "complete_schedule (tile_width bld) workers (sched M N) M N" and "shader_contract registered"
    and "length A = M * K" and "length B = K * N" and "K \<le> 131071" and "N \<le> max_columns bld" and "M < 2 ^ 31"
  shows "kernel_multiply bld vulkan available registered workers sched A B M N K = Some (Inr (matmul_ref A B M N K))"
  unfolding kernel_multiply_def
proof (rule int8_matmul_gpu_ok [OF assms(3-6,1)])
  fix fn out
  assume "registered = Some fn" "fn A B (of_nat M) (of_nat N) (of_nat K) = Some (Gpu_Bytes out)" "length out = M * N"
  moreover have "N < 2 ^ 31" "K < 2 ^ 31" using max_columns_int32 [OF assms(6)] assms(5) by simp_all
  ultimately show "out = matmul_ref A B M N K"
    using assms(2-4,7) unfolding shader_contract_def by blast
qed

lemma kernel_gemm:
  assumes "\<And>N. complete_schedule (tile_width bld) workers (sched 1 N) 1 N" and "shader_contract registered"
  shows "gemm (kernel_multiply bld vulkan available registered workers sched) (max_columns bld)"
  using assms by unfold_locales (auto intro!: kernel_multiply_ok simp del: One_nat_def)

interpretation cpu: gemm "kernel_multiply bld False False None workers (serial_schedule bld workers)" "max_columns bld" for bld workers
  by (rule kernel_gemm) (simp_all add: serial_complete)

lemma train_loop_ok:
  assumes "run_inference mult m inp = Some (Inr v)"
  shows "metrics_loop mult fp m inp is out = Some (Inr (out @ map (\<lambda>i.
     \<lparr>step = of_nat (i + 1), m_loss = of_int8 fp (if v = [] then 0 else hd v)\<rparr>) is))"
  using assms by (induction "is" arbitrary: out) simp_all

section \<open>Properties\<close>

text \<open>
  C5: inference is type safe and computes the network in every build of the kernel: for a model of
  at most 64 KiB whose layers fit together and have no more outputs than the tiles of the build
  compute rightly (128 with AVX2, NEON or SSE2, \<open>2 ^ 31 - 1\<close> with the scalar tile), and
  every runtime that keeps the shader's contract with a complete schedule,
  \<open>run_inference\<close> reads nothing out of range and its value is the reference evaluation
  (exact products saturated to \<open>int8_t\<close>, biases added with saturation, rectified) of
  the three networks in sequence. (A larger model is refused, and C39 shows that a wider layer can
  be computed wrongly.)
\<close>

theorem inference_computes:
  assumes "\<And>N. complete_schedule (tile_width bld) workers (sched 1 N) 1 N" and "shader_contract registered"
    and "fits (length inp) (layers (sensor m)) a" and "fits a (layers (core m)) b"
    and "fits b (layers (appendage m)) c" and "model_byte_size m \<le> 65536"
    and "narrow (max_columns bld) (layers (sensor m) @ layers (core m) @ layers (appendage m))"
  shows "run_inference (kernel_multiply bld vulkan available registered workers sched) m inp =
    Some (Inr (network_ref (appendage m) (network_ref (core m) (network_ref (sensor m) inp))))"
proof -
  have "gemm (kernel_multiply bld vulkan available registered workers sched) (max_columns bld)"
    by (rule kernel_gemm) (use assms in auto)
  from gemm.run_inference_ok [OF this assms(3-6)] assms(7) show ?thesis by (simp add: narrow_def)
qed

definition tiny_model :: CreatureModel where
  "tiny_model = \<lparr>sensor = \<lparr>layers = [\<lparr>op = Dense, n_input = 2, n_output = 2, weights = [100, 1, 2, 3], bias = [1, - 9]\<rparr>]\<rparr>,
     core = \<lparr>layers = [\<lparr>op = ReLU, n_input = 2, n_output = 2, weights = [], bias = []\<rparr>]\<rparr>,
     appendage = \<lparr>layers = [\<lparr>op = Dense, n_input = 2, n_output = 1, weights = [1, 1], bias = [- 100]\<rparr>]\<rparr>\<rparr>"

lemma tiny_model_fits:
  "fits (length [2, 3 :: i8]) (layers (sensor tiny_model)) 2" "fits 2 (layers (core tiny_model)) 2" "fits 2 (layers (appendage tiny_model)) 1"
  "model_byte_size tiny_model \<le> 65536"
  by (simp_all add: tiny_model_def model_byte_size_def network_byte_size_def)

lemma tiny_model_value:
  "network_ref (appendage tiny_model) (network_ref (core tiny_model) (network_ref (sensor tiny_model) [2, 3])) = [27]"
  by code_simp

lemma inference_computes_witness:
  "run_inference (kernel_multiply Avx2_Build True True (Some (\<lambda>A B m n k. None)) 4 (serial_schedule Avx2_Build 4)) tiny_model [2, 3] =
     Some (Inr [27])"
  unfolding tiny_model_value [symmetric]
  by (rule inference_computes [OF _ _ tiny_model_fits], rule serial_complete)
    (simp_all add: shader_contract_def tiny_model_def)

definition misfit :: Int8Network where
  "misfit = \<lparr>layers = [\<lparr>op = Dense, n_input = 2, n_output = 2, weights = [1], bias = [0, 0]\<rparr>]\<rparr>"

text \<open>
  The files that \<open>load_network\<close> accepts need not fit together: a layer that announces a
  2 by 2 matrix and stores one weight is saved and loaded, and evaluating it reads past the end
  of the weights.
\<close>

theorem loaded_network_out_of_bounds:
  "\<exists>bs. save_network True misfit = Inr bs \<and> load_network [0, 0, 0, 0] (Some bs) = Inr misfit \<and>
     eval_network (kernel_multiply Scalar_Build False False None 1 (serial_schedule Scalar_Build 1)) misfit [1, 1] = Some (Inl Out_Of_Bounds)"
proof -
  have "representable misfit" by (simp add: representable_def misfit_def layer_representable_def op_of_byte_def)
  moreover obtain bs where "save_network True misfit = Inr bs" by (simp add: save_network_def)
  moreover have "eval_network (kernel_multiply Scalar_Build False False None 1 (serial_schedule Scalar_Build 1)) misfit [1, 1] = Some (Inl Out_Of_Bounds)"
    by code_simp
  ultimately show ?thesis using load_saved [of misfit "[0, 0, 0, 0]" bs "[]"] by auto
qed

text \<open>
  The model overload of \<open>train_with_metrics\<close> trains nothing: it refuses a model above 64 KiB,
  and for a model whose inference succeeds it pushes the steps 1, 2, ..., \<open>steps\<close>, all with the
  same loss, the first output value.
\<close>

theorem train_model_metrics_constant:
  assumes "model_byte_size m \<le> 65536" and "run_inference mult m inp = Some (Inr v)"
  shows "train_model_with_metrics mult fp m steps inp =
    Some (Inr (map (\<lambda>i. \<lparr>step = of_nat (i + 1), m_loss = of_int8 fp (if v = [] then 0 else hd v)\<rparr>) [0..<steps]))"
  using assms train_loop_ok [OF assms(2), of fp "[0..<steps]" "[]"]
  by (simp add: train_model_with_metrics_def enforce_model_size_def DEFAULT_MAX_MODEL_BYTES_def)

lemma train_model_metrics_constant_witness:
  "\<forall>fp. train_model_with_metrics (kernel_multiply Scalar_Build False False None 4 (serial_schedule Scalar_Build 4)) fp tiny_model 3 [2, 3] =
    Some (Inr (map (\<lambda>i. \<lparr>step = of_nat (i + 1), m_loss = of_int8 fp 27\<rparr>) [0..<3]))"
proof -
  have r: "run_inference (kernel_multiply Scalar_Build False False None 4 (serial_schedule Scalar_Build 4)) tiny_model [2, 3] = Some (Inr [27])"
    unfolding tiny_model_value [symmetric] by (rule cpu.run_inference_ok [OF tiny_model_fits]) (simp_all add: tiny_model_def)
  show ?thesis using train_model_metrics_constant [OF tiny_model_fits(4) r] by simp
qed

text \<open>
  The size limit: a model above 64 KiB of weights and biases is refused by \<open>run_inference\<close> and
  by \<open>train_with_metrics\<close>, before any multiply.
\<close>

theorem model_too_large:
  assumes "65536 < model_byte_size m"
  shows "run_inference mult m inp = Some (Inl (Thrown ''model exceeds size limit'')) \<and>
    train_model_with_metrics mult fp m steps inp = Some (Inl (Thrown ''model exceeds size limit''))"
  using assms by (simp add: run_inference_def train_model_with_metrics_def enforce_model_size_def DEFAULT_MAX_MODEL_BYTES_def)

end
