(* ===== verification/Binary_IO.thy ===== *)
theory Binary_IO
  imports Int8_Spec
begin

text \<open>
  Unchecked binary input as the Harmonics-side files use it: \<open>in.read\<close> into a variable without
  looking at the stream, counted repetitions, and the strings of the Harmonics serialisation,
  whose functions are arguments; \<open>string_codec\<close> is what the round trips rely on. Files and streams
  are those of \<open>Int8_Spec\<close>.
\<close>

type_synonym string_writer = "string \<Rightarrow> u8 list"
type_synonym string_reader = "istream \<Rightarrow> (string \<times> istream) res"

definition raw :: "nat \<Rightarrow> istream \<Rightarrow> (u8 list \<times> istream) res" where
  "raw w s = Inr (istream_read (replicate w 0) s)"

definition read_word :: "u8 list \<Rightarrow> istream \<Rightarrow> (u32 \<times> istream) res" where
  \<comment> \<open>an unchecked \<open>in.read\<close> into an uninitialised \<open>uint32_t\<close>\<close>
  "read_word junk s = (let (b, s') = istream_read (take 4 junk) s in Inr (word_of_bytes b, s'))"

fun words_of_bytes :: "nat \<Rightarrow> u8 list \<Rightarrow> u32 list" where
  "words_of_bytes 0 bs = []"
| "words_of_bytes (Suc n) bs = word_of_bytes (take 4 bs) # words_of_bytes n (drop 4 bs)"

fun read_times :: "nat \<Rightarrow> (istream \<Rightarrow> ('o \<times> istream) res) \<Rightarrow> istream \<Rightarrow> ('o list \<times> istream) res" where
  "read_times 0 rd s = Inr ([], s)"
| "read_times (Suc n) rd s = rbind (rd s) (\<lambda>(x, s). rbind (read_times n rd s) (\<lambda>(xs, s). Inr (x # xs, s)))"

section \<open>Round trips\<close>

definition string_codec :: "string_writer \<Rightarrow> string_reader \<Rightarrow> bool" where
  "string_codec wr rd \<longleftrightarrow> (\<forall>str. length str < 2 ^ 32 \<longrightarrow> inverts rd str (wr str)) \<and> (\<forall>s. failed s \<longrightarrow> gives_up (rd s))"

lemma inverts_raw: "w = length bs \<Longrightarrow> inverts (raw w) bs bs"
  unfolding raw_def by (rule inverts_read) simp

lemma inverts_word: "4 \<le> length junk \<Longrightarrow> inverts (read_word junk) v (write_u32 v)"
  by (auto simp: inverts_def read_word_def istream_read_def good_def)

lemma gives_up_raw: "failed s \<Longrightarrow> gives_up (raw w s)"
  unfolding raw_def by (rule gives_up_read)

lemma gives_up_word: "failed s \<Longrightarrow> gives_up (read_word junk s)"
  by (simp add: read_word_def istream_read_def Let_def)

lemma gives_up_rd: "string_codec wr rd \<Longrightarrow> failed s \<Longrightarrow> gives_up (rd s)"
  by (simp add: string_codec_def)

lemma gives_up_if: "(b \<Longrightarrow> gives_up x) \<Longrightarrow> (\<not> b \<Longrightarrow> gives_up y) \<Longrightarrow> gives_up (if b then x else y)"
  by simp

lemma gives_up_times: "(\<And>s. failed s \<Longrightarrow> gives_up (rd s)) \<Longrightarrow> failed s \<Longrightarrow> gives_up (read_times n rd s)"
proof (induction n arbitrary: s)
  case (Suc n)
  then show ?case by (auto intro!: gives_up_bind)
qed simp

lemmas gives_up_rules = gives_up_bind gives_up_raw gives_up_word gives_up_Inr gives_up_if

lemma inverts_map_times:
  assumes "\<And>x. x \<in> set xs \<Longrightarrow> inverts rd (f x) (wr x)" and "\<And>s. failed s \<Longrightarrow> gives_up (rd s)"
  shows "inverts (read_times (length xs) rd) (map f xs) (concat (map wr xs))"
  using assms(1)
proof (induction xs)
  case Nil
  show ?case by (simp add: inverts_def)
next
  case (Cons x xs)
  then have x: "inverts rd (f x) (wr x)" and xs: "inverts (read_times (length xs) rd) (map f xs) (concat (map wr xs))" by auto
  have "inverts (\<lambda>s. rbind (rd s) (\<lambda>(x, s). rbind (read_times (length xs) rd s) (\<lambda>(xs, s). Inr (x # xs, s))))
      (f x # map f xs) (wr x @ concat (map wr xs) @ [])"
    by (intro inverts_bind [OF x] inverts_bind [OF xs] inverts_return gives_up_bind gives_up_times gives_up_Inr assms(2))
  then show ?case by simp
qed

lemma inverts_times:
  assumes "\<And>x. x \<in> set xs \<Longrightarrow> inverts rd x (wr x)" and "\<And>s. failed s \<Longrightarrow> gives_up (rd s)"
  shows "inverts (read_times (length xs) rd) xs (concat (map wr xs))"
  using inverts_map_times [of xs rd "\<lambda>x. x" wr] assms by simp

lemma words_of_bytes_concat: "words_of_bytes (length ws) (concat (map write_u32 ws) @ r) = ws"
  by (induction ws) auto

lemmas inverts_raw_then = inverts_bind [OF inverts_raw]
  and inverts_word_then = inverts_bind [OF inverts_word]

lemma inverts_func:
  assumes "string_codec wr rd" and "case f of None \<Rightarrow> True | Some x \<Rightarrow> length x < 2 ^ 32"
  shows "inverts (\<lambda>s. if hd [if f \<noteq> None then 1 else 0 :: u8] \<noteq> 0 then rbind (rd s) (\<lambda>(x, s). Inr (Some x, s)) else Inr (None, s)) f
    (case f of None \<Rightarrow> [] | Some x \<Rightarrow> wr x)"
proof (cases f)
  case (Some x)
  then have x: "inverts rd x (wr x)" using assms by (auto simp: string_codec_def)
  have "inverts (\<lambda>s. rbind (rd s) (\<lambda>(x, s). Inr (Some x, s))) (Some x) (wr x @ [])"
    by (intro inverts_bind [OF x] inverts_return gives_up_Inr)
  with Some show ?thesis by simp
qed (simp add: inverts_def)

text \<open>A concrete codec: the length in four bytes, then the characters.\<close>

definition plain_writer :: string_writer where
  "plain_writer str = write_u32 (of_nat (length str)) @ map of_char str"

definition plain_reader :: string_reader where
  "plain_reader s = rbind (read_u32 [0, 0, 0, 0] s) (\<lambda>(n, s). rbind (raw (unat n) s) (\<lambda>(bs, s).
     Inr (map (\<lambda>b. char_of (unat b)) bs, s)))"

lemma plain_codec: "string_codec plain_writer plain_reader"
  unfolding string_codec_def
proof (intro conjI allI impI)
  fix str :: string assume "length str < 2 ^ 32"
  then have n: "unat (of_nat (length str) :: u32) = length str" by (rule unat_of_nat_u32)
  have "inverts plain_reader str (write_u32 (of_nat (length str)) @ map of_char str @ [])"
    unfolding plain_reader_def
    by (intro inverts_u32_then inverts_raw_then inverts_return_eq gives_up_rules) (auto simp: n comp_def)
  then show "inverts plain_reader str (plain_writer str)" by (simp add: plain_writer_def)
next
  fix s :: istream assume "failed s"
  then show "gives_up (plain_reader s)"
    unfolding plain_reader_def by (intro gives_up_bind gives_up_u32 gives_up_rules)
qed

end
