(* ===== verification/Disk_Cache.thy ===== *)
theory Disk_Cache
  imports Binary_IO
begin

text \<open>
  The dataset cache of \<open>include/harmonics/disk_cache_producer.hpp\<close>. The wrapped
  producer is its size and the result of its \<open>i\<close>-th call of \<open>next\<close> since
  it was created; the tensors and their reader and writer belong to the Harmonics library. The disk
  holds the cache file and the token file next to it. \<open>None\<close> is a cache file whose
  reading does not end within the fuel.
\<close>

section \<open>The producer\<close>

record disk =
  cache_file :: "u8 list option"
  token_file :: "string option"

record access =
  cache_writable :: bool
  token_writable :: bool

record 't base_producer =
  base_size :: nat
  draw :: "nat \<Rightarrow> 't"

record 't DiskCacheProducer =
  drawn :: nat
  records :: "'t list"
  cursor :: nat

definition getline :: "string \<Rightarrow> string" where
  "getline content = takeWhile (\<lambda>c. c \<noteq> CHR 0x0a) content"

definition check_token :: "string \<Rightarrow> disk \<Rightarrow> disk" where
  \<comment> \<open>a stale token removes both files\<close>
  "check_token cur d =
     (if cur \<noteq> [] then
        let prev = (case token_file d of None \<Rightarrow> [] | Some content \<Rightarrow> getline content) in
        if prev \<noteq> cur then d\<lparr>cache_file := None, token_file := None\<rparr> else d
      else d)"

fun load_records :: "nat \<Rightarrow> (istream \<Rightarrow> ('t \<times> istream) res) \<Rightarrow> istream \<Rightarrow> 't list \<Rightarrow> 't list option" where
  "load_records 0 rd s acc = None"
| "load_records (Suc n) rd s acc =
     (if failed s \<or> unread s = [] then Some acc
      else case rd s of Inl e \<Rightarrow> Some acc | Inr (t, s') \<Rightarrow> load_records n rd s' (acc @ [t]))"

definition load_cache :: "nat \<Rightarrow> (istream \<Rightarrow> ('t \<times> istream) res) \<Rightarrow> disk \<Rightarrow> (bool \<times> 't list) option" where
  "load_cache fuel rd d =
     (case cache_file d of
        None \<Rightarrow> Some (False, [])
      | Some bs \<Rightarrow> map_option (\<lambda>rs. (rs \<noteq> [], rs)) (load_records fuel rd (good bs) []))"

definition populate_cache ::
    "access \<Rightarrow> ('t \<Rightarrow> u8 list) \<Rightarrow> 't base_producer \<Rightarrow> nat \<Rightarrow> disk \<Rightarrow> 't DiskCacheProducer \<times> disk" where
  "populate_cache acc wr b count d =
     (if \<not> cache_writable acc then (\<lparr>drawn = 0, records = [], cursor = 0\<rparr>, d)
      else let ts = map (draw b) [0..<count]
           in (\<lparr>drawn = count, records = ts, cursor = 0\<rparr>, d\<lparr>cache_file := Some (concat (map wr ts))\<rparr>))"

definition append_cache ::
    "access \<Rightarrow> ('t \<Rightarrow> u8 list) \<Rightarrow> 't base_producer \<Rightarrow> 't list \<Rightarrow> nat \<Rightarrow> disk \<Rightarrow> 't DiskCacheProducer \<times> disk" where
  "append_cache acc wr b rs start d =
     (if \<not> cache_writable acc then (\<lparr>drawn = 0, records = rs, cursor = 0\<rparr>, d)
      else let ts = map (draw b) [0..<base_size b - start]
           in (\<lparr>drawn = base_size b - start, records = rs @ ts, cursor = 0\<rparr>,
               d\<lparr>cache_file := Some ((case cache_file d of None \<Rightarrow> [] | Some bs \<Rightarrow> bs) @ concat (map wr ts))\<rparr>))"

definition new_producer ::
    "nat \<Rightarrow> (istream \<Rightarrow> ('t \<times> istream) res) \<Rightarrow> ('t \<Rightarrow> u8 list) \<Rightarrow> access \<Rightarrow> 't base_producer \<Rightarrow> string \<Rightarrow> disk \<Rightarrow>
     ('t DiskCacheProducer \<times> disk) option" where
  \<comment> \<open>the constructor, with the value \<open>cur\<close> of the token function (empty without one)\<close>
  "new_producer fuel rd wr acc b cur d0 =
     (let d = check_token cur d0 in
      case load_cache fuel rd d of
        None \<Rightarrow> None
      | Some (loaded, rs) \<Rightarrow>
          let (p, d) = (if \<not> loaded then populate_cache acc wr b (base_size b) d
                        else if length rs < base_size b then append_cache acc wr b rs (length rs) d
                        else (\<lparr>drawn = 0, records = rs, cursor = 0\<rparr>, d))
          in Some (p, if cur \<noteq> [] \<and> token_writable acc then d\<lparr>token_file := Some cur\<rparr> else d))"

definition next_record :: "'t \<Rightarrow> 't DiskCacheProducer \<Rightarrow> 't \<times> 't DiskCacheProducer" where
  \<comment> \<open>\<open>next\<close>, with the value of a default-constructed tensor\<close>
  "next_record d0 p =
     (if records p = [] then (d0, p)
      else let i = (if cursor p \<ge> length (records p) then 0 else cursor p)
           in (records p ! i, p\<lparr>cursor := i + 1\<rparr>))"

definition size_of :: "'t DiskCacheProducer \<Rightarrow> nat" where
  "size_of p = length (records p)"

section \<open>Reading the cache file\<close>

definition tensor_codec :: "('t \<Rightarrow> bool) \<Rightarrow> ('t \<Rightarrow> u8 list) \<Rightarrow> (istream \<Rightarrow> ('t \<times> istream) res) \<Rightarrow> bool" where
  \<comment> \<open>the reader inverts the writer on the tensors of interest, and no tensor is written as nothing\<close>
  "tensor_codec fit wr rd \<longleftrightarrow> (\<forall>t. fit t \<longrightarrow> inverts rd t (wr t) \<and> wr t \<noteq> [])"

lemma load_records_written:
  assumes "tensor_codec fit wr rd" and "list_all fit ts" and "length ts < n"
  shows "load_records n rd (good (concat (map wr ts))) acc = Some (acc @ ts)"
  using assms(2,3)
proof (induction ts arbitrary: n acc)
  case Nil
  then show ?case by (cases n) auto
next
  case (Cons t ts)
  then obtain m where n: "n = Suc m" by (cases n) auto
  have t: "inverts rd t (wr t)" "wr t \<noteq> []" using assms(1) Cons.prems by (auto simp: tensor_codec_def)
  from invertsD(1) [OF t(1), of "concat (map wr ts)"] t(2) n Cons show ?case by simp
qed

lemma load_cache_written:
  assumes "tensor_codec fit wr rd" and "list_all fit ts" and "length ts < fuel"
    and "cache_file d = Some (concat (map wr ts))"
  shows "load_cache fuel rd d = Some (ts \<noteq> [], ts)"
  using load_records_written [OF assms(1-3), of "[]"] assms(4) by (simp add: load_cache_def)

lemma check_token_same:
  "token_file d = (if cur \<noteq> [] then Some cur else tok) \<Longrightarrow> CHR 0x0a \<notin> set cur \<Longrightarrow> check_token cur d = d"
proof -
  assume "token_file d = (if cur \<noteq> [] then Some cur else tok)" "CHR 0x0a \<notin> set cur"
  moreover have "getline cur = cur" using \<open>CHR 0x0a \<notin> set cur\<close> by (auto simp: getline_def takeWhile_eq_all_conv)
  ultimately show ?thesis by (simp add: check_token_def)
qed

definition fully :: access where
  "fully = \<lparr>cache_writable = True, token_writable = True\<rparr>"

definition nothing :: disk where
  "nothing = \<lparr>cache_file = None, token_file = None\<rparr>"

definition disk_of :: "('t \<Rightarrow> u8 list) \<Rightarrow> 't list \<Rightarrow> string \<Rightarrow> disk" where
  "disk_of wr ts cur = \<lparr>cache_file = Some (concat (map wr ts)), token_file = (if cur \<noteq> [] then Some cur else None)\<rparr>"

lemma first_open:
  "new_producer fuel rd wr fully b cur nothing =
     Some (\<lparr>drawn = base_size b, records = map (draw b) [0..<base_size b], cursor = 0\<rparr>,
       disk_of wr (map (draw b) [0..<base_size b]) cur)"
  by (simp add: new_producer_def check_token_def nothing_def load_cache_def populate_cache_def fully_def disk_of_def Let_def)

lemma reopen:
  assumes "tensor_codec fit wr rd" and "list_all fit ts" and "length ts < fuel" and "ts \<noteq> []" and "CHR 0x0a \<notin> set cur"
  shows "new_producer fuel rd wr fully b cur (disk_of wr ts cur) =
     Some (\<lparr>drawn = base_size b - length ts, records = ts @ map (draw b) [0..<base_size b - length ts], cursor = 0\<rparr>,
       disk_of wr (ts @ map (draw b) [0..<base_size b - length ts]) cur)"
proof -
  have "check_token cur (disk_of wr ts cur) = disk_of wr ts cur"
    by (rule check_token_same [of _ _ None]) (simp_all add: disk_of_def assms(5))
  moreover have "load_cache fuel rd (disk_of wr ts cur) = Some (True, ts)"
    using load_cache_written [OF assms(1-3)] assms(4) by (simp add: disk_of_def)
  ultimately show ?thesis
    by (simp add: new_producer_def append_cache_def fully_def disk_of_def Let_def)
qed

fun next_records :: "'t \<Rightarrow> nat \<Rightarrow> 't DiskCacheProducer \<Rightarrow> 't list" where
  "next_records d0 0 p = []"
| "next_records d0 (Suc n) p = (let (t, p) = next_record d0 p in t # next_records d0 n p)"

lemma next_records_cycle:
  assumes "records p \<noteq> []" and "cursor p \<le> length (records p)"
  shows "next_records d0 n p = map (\<lambda>k. records p ! ((cursor p + k) mod length (records p))) [0..<n]"
  using assms
proof (induction n arbitrary: p)
  case (Suc n)
  let ?L = "length (records p)"
  define i where "i = (if cursor p \<ge> ?L then 0 else cursor p)"
  have i: "i < ?L" "i = cursor p mod ?L" using Suc.prems by (auto simp: i_def not_le mod_if le_less)
  let ?p = "p\<lparr>cursor := i + 1\<rparr>"
  have "next_record d0 p = (records p ! i, ?p)" using Suc.prems(1) by (simp add: next_record_def i_def Let_def)
  then have "next_records d0 (Suc n) p = records p ! i # next_records d0 n ?p" by simp
  also have "next_records d0 n ?p = map (\<lambda>k. records p ! ((i + 1 + k) mod ?L)) [0..<n]"
    using Suc.IH [of ?p] Suc.prems(1) i(1) by simp
  also have "\<dots> = map (\<lambda>k. records p ! ((cursor p + Suc k) mod ?L)) [0..<n]"
  proof -
    have "(i + 1 + k) mod ?L = (cursor p + Suc k) mod ?L" for k
      using mod_add_left_eq [of "cursor p" ?L "Suc k"] by (simp add: i(2))
    then show ?thesis by simp
  qed
  finally show ?case
    using i(2) by (simp add: upt_conv_Cons map_Suc_upt [symmetric] comp_def del: upt_Suc)
qed simp

section \<open>Properties\<close>

text \<open>
  C16: a warm cache replaces the dataset: a first run over a producer of \<open>n > 0\<close>
  tensors ends, draws each of them once and serves them in a cycle; a later run with the same
  one-line token (or none) and a producer of the same size serves exactly the tensors of the first,
  in a cycle, leaves the disk as it was, and never calls the producer it wraps.
\<close>

theorem cache_warm_start:
  assumes "tensor_codec fit wr rd" and "list_all fit (map (draw b) [0..<base_size b])" and "0 < base_size b"
    and "base_size b' = base_size b" and "base_size b < fuel" and "CHR 0x0a \<notin> set cur"
  shows "\<exists>p d p'. new_producer fuel rd wr fully b cur nothing = Some (p, d) \<and> drawn p = base_size b \<and>
    next_records d0 k p = map (\<lambda>i. draw b (i mod base_size b)) [0..<k] \<and>
    new_producer fuel rd wr fully b' cur d = Some (p', d) \<and> drawn p' = 0 \<and> size_of p' = base_size b \<and>
    next_records d0 k p' = map (\<lambda>i. draw b (i mod base_size b)) [0..<k]"
proof -
  let ?ts = "map (draw b) [0..<base_size b]"
  let ?p = "\<lparr>drawn = 0, records = ?ts, cursor = 0\<rparr>" and ?q = "\<lparr>drawn = base_size b, records = ?ts, cursor = 0\<rparr>"
  have first: "new_producer fuel rd wr fully b cur nothing = Some (?q, disk_of wr ?ts cur)"
    using first_open [of fuel rd wr b cur] by simp
  have again: "new_producer fuel rd wr fully b' cur (disk_of wr ?ts cur) = Some (?p, disk_of wr ?ts cur)"
    using reopen [OF assms(1,2) _ _ assms(6), of fuel b'] assms(3,4,5) by simp
  have serves: "next_records d0 k ?p = map (\<lambda>i. draw b (i mod base_size b)) [0..<k]"
    "next_records d0 k ?q = map (\<lambda>i. draw b (i mod base_size b)) [0..<k]"
    using next_records_cycle [of ?p d0 k] next_records_cycle [of ?q d0 k] assms(3) by simp_all
  show ?thesis
    using first again serves by (intro exI [of _ ?q] exI [of _ "disk_of wr ?ts cur"] exI [of _ ?p]) (simp add: size_of_def)
qed

definition byte_writer :: "u8 \<Rightarrow> u8 list" where "byte_writer t = [t]"

definition byte_reader :: "istream \<Rightarrow> (u8 \<times> istream) res" where
  "byte_reader s = rbind (raw 1 s) (\<lambda>(b, s). Inr (hd b, s))"

lemma byte_codec: "tensor_codec (\<lambda>_. True) byte_writer byte_reader"
  unfolding tensor_codec_def
proof (intro allI impI conjI)
  fix t :: u8
  have "inverts byte_reader t ([t] @ [])"
    unfolding byte_reader_def by (intro inverts_raw_then inverts_return_eq gives_up_rules) auto
  then show "inverts byte_reader t (byte_writer t)" by (simp add: byte_writer_def)
qed (simp add: byte_writer_def)

lemma cache_warm_start_witness:
  "\<exists>p d p'. new_producer 5 byte_reader byte_writer fully \<lparr>base_size = 2, draw = \<lambda>i. 4 + of_nat i\<rparr> ''v1'' nothing = Some (p, d) \<and>
    new_producer 5 byte_reader byte_writer fully \<lparr>base_size = 2, draw = \<lambda>_. 9\<rparr> ''v1'' d = Some (p', d) \<and>
    drawn p' = 0 \<and> next_records 0 3 p' = [4, 5, 4]"
proof -
  let ?b = "\<lparr>base_size = 2, draw = \<lambda>i. 4 + of_nat i\<rparr> :: u8 base_producer"
  have "map (\<lambda>i. draw ?b (i mod base_size ?b)) [0..<3] = [4, 5, 4]" by (simp add: upt_rec)
  with cache_warm_start [OF byte_codec, of ?b "\<lparr>base_size = 2, draw = \<lambda>_. 9\<rparr>" 5 "''v1''" 0 3]
  show ?thesis by (auto simp: list_all_iff)
qed

text \<open>
  A cache that grows repeats the head of its dataset: when the same dataset, opened again from its
  start, has become longer than the \<open>n\<close> cached tensors, the tensors appended to the cache (in
  memory and on disk) are its first ones once more, and the new ones are never seen.
\<close>

theorem cache_growth_repeats:
  assumes "tensor_codec fit wr rd" and "list_all fit (map f [0..<n])" and "0 < n" and "n < fuel" and "n \<le> m"
  shows "\<exists>p d. new_producer fuel rd wr fully \<lparr>base_size = m, draw = f\<rparr> [] (disk_of wr (map f [0..<n]) []) = Some (p, d) \<and>
    records p = map f [0..<n] @ map f [0..<m - n] \<and> d = disk_of wr (map f [0..<n] @ map f [0..<m - n]) []"
  using reopen [OF assms(1,2), of fuel "[]" "\<lparr>base_size = m, draw = f\<rparr>"] assms(3-5) by simp

lemma cache_growth_repeats_witness:
  "\<exists>p d. new_producer 5 byte_reader byte_writer fully \<lparr>base_size = 3, draw = of_nat\<rparr> []
     (disk_of byte_writer (map of_nat [0..<2]) []) = Some (p, d) \<and> records p = map of_nat [0..<2] @ map of_nat [0..<3 - 2] \<and>
     d = disk_of byte_writer (map of_nat [0..<2] @ map of_nat [0..<3 - 2]) []"
  by (rule cache_growth_repeats [OF byte_codec]) (simp_all add: list_all_iff)

text \<open>
  A token with a line break never matches the first line that is read back: such a cache is
  removed and rebuilt from the producer on every start, whatever it held.
\<close>

theorem cache_token_line_break:
  assumes "CHR 0x0a \<in> set cur" and "token_file d = Some cur"
  shows "\<exists>p d'. new_producer fuel rd wr fully b cur d = Some (p, d') \<and> drawn p = base_size b \<and>
    records p = map (draw b) [0..<base_size b] \<and> token_file d' = Some cur"
proof -
  have "CHR 0x0a \<notin> set (getline cur)" by (auto simp: getline_def dest: set_takeWhileD)
  then have "getline cur \<noteq> cur" "cur \<noteq> []" using assms(1) by auto
  with assms(2) show ?thesis
    by (simp add: new_producer_def check_token_def load_cache_def populate_cache_def fully_def Let_def)
qed

lemma cache_token_line_break_witness:
  "\<exists>p d'. new_producer 5 byte_reader byte_writer fully \<lparr>base_size = 2, draw = of_nat\<rparr> [CHR ''v'', CHR 0x0a]
      \<lparr>cache_file = Some [7, 7], token_file = Some [CHR ''v'', CHR 0x0a]\<rparr> = Some (p, d') \<and> drawn p = 2 \<and>
    records p = map of_nat [0..<2] \<and> token_file d' = Some [CHR ''v'', CHR 0x0a]"
  using cache_token_line_break [of "[CHR ''v'', CHR 0x0a]" "\<lparr>cache_file = Some [7, 7], token_file = Some [CHR ''v'', CHR 0x0a]\<rparr>"
      5 byte_reader byte_writer "\<lparr>base_size = 2, draw = of_nat\<rparr>"] by simp

end
