(* ===== verification/Training_Pipelines.thy ===== *)
theory Training_Pipelines
  imports Training Disk_Cache
begin

text \<open>
  The training loops of \<open>include/neuropet/training.hpp\<close> that run a Harmonics graph. The
  Harmonics runtime is an argument. For the loops that end by a callback it is a
  \<open>graph_fit\<close>: it is given the text of the graph, the two producers bound to it, the
  learning rate, the stop callback and the variables the callback captured, and returns these as
  they are when training ends; \<open>fit_contract\<close> says that it calls the callback with the
  gradient norm after every cycle until the callback answers true. The checkpoint pipeline drives
  the runtime itself; what it calls is the record \<open>runtime\<close>. Datasets go through the
  disk cache of \<open>Disk_Cache\<close>, whose files are found by name.
\<close>

section \<open>The stop callback\<close>

record stop_state =
  step_count :: nat
  pushed :: "TrainingMetrics list"

type_synonym fit_until = "(f32 \<Rightarrow> stop_state \<Rightarrow> bool \<times> stop_state) \<Rightarrow> stop_state \<Rightarrow> stop_state option"

definition stop_callback :: "nat \<Rightarrow> f32 \<Rightarrow> stop_state \<Rightarrow> bool \<times> stop_state" where
  "stop_callback steps norm s =
     (let n = step_count s + 1
      in (n \<ge> steps, \<lparr>step_count = n, pushed = pushed s @ [\<lparr>step = of_nat n, m_loss = norm\<rparr>]\<rparr>))"

definition run_until :: "fit_until \<Rightarrow> nat \<Rightarrow> TrainingMetrics list option" where
  "run_until fit steps = map_option pushed (fit (stop_callback steps) \<lparr>step_count = 0, pushed = []\<rparr>)"

section \<open>The graph and its producers\<close>

definition training_graph :: string where
  "training_graph = concat (map (\<lambda>l. CHR 0x0a # l)
     [''producer input {1};'', ''producer target {1} 1/1 input;'', ''layer dense;'', ''cycle {'',
      ''  input -(relu)-> dense;'', ''  dense <-(mse)- target;'', ''}'', []])"

definition learning_rate :: f32 where
  \<comment> \<open>\<open>0.1f\<close>\<close>
  "learning_rate = 0x3dcccccd"

datatype 't Producer = Cached "'t DiskCacheProducer" | ConstProducer f32 | ZeroProducer nat

fun producer_next :: "(u8 list \<Rightarrow> 't) \<Rightarrow> 't \<Rightarrow> 't Producer \<Rightarrow> 't \<times> 't Producer" where
  \<comment> \<open>the first argument makes a one-element \<open>Float32\<close> tensor of its bytes, the second is the default tensor\<close>
  "producer_next scalar d0 (Cached p) = (let (t, p) = next_record d0 p in (t, Cached p))"
| "producer_next scalar d0 (ConstProducer v) = (scalar (float_bytes v), ConstProducer v)"
| "producer_next scalar d0 (ZeroProducer n) = (scalar (float_bytes f_zero), ZeroProducer n)"

fun producer_size :: "'t Producer \<Rightarrow> nat" where
  "producer_size (Cached p) = size_of p"
| "producer_size (ConstProducer v) = 1"
| "producer_size (ZeroProducer n) = n"

type_synonym 't graph_fit = "string \<Rightarrow> 't Producer \<Rightarrow> 't Producer \<Rightarrow> f32 \<Rightarrow> fit_until"

definition train_with_metrics :: "'t graph_fit \<Rightarrow> nat \<Rightarrow> TrainingMetrics list option" where
  "train_with_metrics fit steps =
     run_until (fit training_graph (ConstProducer f_one) (ConstProducer f_zero) learning_rate) steps"

section \<open>The dataset pipelines\<close>

type_synonym caches = "string \<Rightarrow> disk"

record 't harmonics_io =
  read_tensor :: "istream \<Rightarrow> ('t \<times> istream) res"
  write_tensor :: "'t \<Rightarrow> u8 list"
  scalar_tensor :: "u8 list \<Rightarrow> 't"
  no_tensor :: 't
  io_fuel :: nat
  io_access :: access

definition open_cached :: "'t harmonics_io \<Rightarrow> 't base_producer \<Rightarrow> string \<Rightarrow> caches \<Rightarrow> ('t DiskCacheProducer \<times> caches) option" where
  \<comment> \<open>\<open>make_shared<DiskCacheProducer>(dataset, name)\<close>, without a token function\<close>
  "open_cached io b name fs =
     map_option (\<lambda>(p, d). (p, fs(name := d)))
       (new_producer (io_fuel io) (read_tensor io) (write_tensor io) (io_access io) b [] (fs name))"

definition run_dataset_pipeline ::
    "'t graph_fit \<Rightarrow> 't harmonics_io \<Rightarrow> 't base_producer \<Rightarrow> string \<Rightarrow> nat \<Rightarrow> caches \<Rightarrow>
     (TrainingMetrics list \<times> caches) option" where
  "run_dataset_pipeline fit io dataset cache_name steps fs =
     (case open_cached io dataset cache_name fs of
        None \<Rightarrow> None
      | Some (src, fs) \<Rightarrow> let lbl = ZeroProducer (producer_size (Cached src)) in
          map_option (\<lambda>m. (m, fs)) (run_until (fit training_graph (Cached src) lbl learning_rate) steps))"

definition production_training_pipeline ::
    "'t graph_fit \<Rightarrow> 't harmonics_io \<Rightarrow> 't base_producer \<Rightarrow> 't base_producer \<Rightarrow>
     string \<Rightarrow> string \<Rightarrow> nat \<Rightarrow> caches \<Rightarrow> (TrainingMetrics list \<times> caches) option" where
  "production_training_pipeline fit io inp target input_cache target_cache steps fs =
     (case open_cached io inp input_cache fs of
        None \<Rightarrow> None
      | Some (src, fs) \<Rightarrow>
          (case open_cached io target target_cache fs of
             None \<Rightarrow> None
           | Some (lbl, fs) \<Rightarrow>
               map_option (\<lambda>m. (m, fs)) (run_until (fit training_graph (Cached src) (Cached lbl) learning_rate) steps)))"

section \<open>The checkpoint pipeline\<close>

datatype Optimizer = SGD | Adam | RMSProp

record ('r, 't) runtime =
  forward :: "'r \<Rightarrow> 'r"
  weights_of :: "'r \<Rightarrow> 't list"
  set_weights :: "'t list \<Rightarrow> 'r \<Rightarrow> 'r"
  gradients_l2_norm :: "'t list \<Rightarrow> f32"
  shaped :: "'t \<Rightarrow> bool"
  grad_clip :: f32
  clip_tensor :: "'t \<Rightarrow> f32 \<Rightarrow> 't"
  optimizer :: Optimizer
  sgd_update :: "'t \<Rightarrow> 't \<Rightarrow> f32 \<Rightarrow> 't"
  adam_update :: "'t \<Rightarrow> 't \<Rightarrow> 't \<Rightarrow> 't \<Rightarrow> u64 \<Rightarrow> f32 \<Rightarrow> 't \<times> 't \<times> 't"
  rmsprop_update :: "'t \<Rightarrow> 't \<Rightarrow> 't \<Rightarrow> f32 \<Rightarrow> 't \<times> 't"
  empty_tensor :: 't
  load_checkpoint :: "u8 list \<Rightarrow> 'r \<Rightarrow> 'r \<times> u8 list"
  save_checkpoint :: "'r \<Rightarrow> u8 list"

record ('r, 't) train_state =
  rt :: 'r
  params :: "'t list"
  opt1 :: "'t list"
  opt2 :: "'t list"
  metrics :: "TrainingMetrics list"

definition update_weight ::
    "('r, 't) runtime \<Rightarrow> u64 \<Rightarrow> nat \<Rightarrow> ('r, 't) train_state \<Rightarrow> ('r, 't) train_state res" where
  "update_weight R k j s =
     rbind (at (weights_of R (rt s)) j) (\<lambda>w.
       if \<not> shaped R w then Inr s
       else let g = clip_tensor R w (grad_clip R); s = s\<lparr>rt := set_weights R ((weights_of R (rt s))[j := g]) (rt s)\<rparr> in
         rbind (at (params s) j) (\<lambda>p. rbind (at (opt1 s) j) (\<lambda>a. rbind (at (opt2 s) j) (\<lambda>b. Inr (
           case optimizer R of
             SGD \<Rightarrow> s\<lparr>params := (params s)[j := sgd_update R p g learning_rate]\<rparr>
           | Adam \<Rightarrow> (let (p', a', b') = adam_update R p g a b k learning_rate
                      in s\<lparr>params := (params s)[j := p'], opt1 := (opt1 s)[j := a'], opt2 := (opt2 s)[j := b']\<rparr>)
           | RMSProp \<Rightarrow> (let (p', a') = rmsprop_update R p g a learning_rate
                      in s\<lparr>params := (params s)[j := p'], opt1 := (opt1 s)[j := a']\<rparr>))))))"

definition train_step :: "('r, 't) runtime \<Rightarrow> u64 \<Rightarrow> nat \<Rightarrow> ('r, 't) train_state \<Rightarrow> ('r, 't) train_state res" where
  "train_step R start_step i s =
     (let s = s\<lparr>rt := forward R (rt s)\<rparr>; norm = gradients_l2_norm R (weights_of R (rt s));
          k = start_step + of_nat i + 1 in
      rbind (rfold (update_weight R k) [0..<length (params s)] s) (\<lambda>s.
      Inr (s\<lparr>metrics := metrics s @ [\<lparr>step = ucast k, m_loss = norm\<rparr>]\<rparr>)))"

definition write_u64 :: "u64 \<Rightarrow> u8 list" where
  "write_u64 v = map (\<lambda>k. ucast (drop_bit (8 * k) v)) [0..<8]"

definition u64_of_bytes :: "u8 list \<Rightarrow> u64" where
  "u64_of_bytes bs = foldr (\<lambda>b v. ucast b OR push_bit 8 v) bs 0"

definition resume :: "('r, 't) runtime \<Rightarrow> u8 list option \<Rightarrow> 'r \<Rightarrow> 'r \<times> u64" where
  "resume R file r =
     (case file of
        None \<Rightarrow> (r, 0)
      | Some bs \<Rightarrow> let (r, rest) = load_checkpoint R bs r
                   in (r, u64_of_bytes (fst (istream_read (replicate 8 0) (good rest)))))"

definition checkpoint_loop ::
    "('r, 't) runtime \<Rightarrow> bool \<Rightarrow> nat \<Rightarrow> u8 list option \<Rightarrow> 'r \<Rightarrow> (TrainingMetrics list \<times> u8 list option) res" where
  \<comment> \<open>from the construction of the runtime on; \<open>writable\<close> is whether the checkpoint file can be written\<close>
  "checkpoint_loop R writable steps file r0 =
     (let (r, start_step) = resume R file r0;
          none = replicate (length (weights_of R r)) (empty_tensor R) in
      rbind (rfold (train_step R start_step) [0..<steps]
               \<lparr>rt = r, params = none, opt1 = none, opt2 = none, metrics = []\<rparr>) (\<lambda>s.
      Inr (metrics s,
        if writable then Some (save_checkpoint R (set_weights R (params s) (rt s)) @ write_u64 (start_step + of_nat steps))
        else file)))"

definition run_dataset_checkpoint_pipeline ::
    "(string \<Rightarrow> 't Producer \<Rightarrow> 't Producer \<Rightarrow> 'r) \<Rightarrow> ('r, 't) runtime \<Rightarrow> 't harmonics_io \<Rightarrow> 't base_producer \<Rightarrow> string \<Rightarrow> bool \<Rightarrow> nat \<Rightarrow>
     caches \<Rightarrow> u8 list option \<Rightarrow> ((TrainingMetrics list \<times> u8 list option) res \<times> caches) option" where
  "run_dataset_checkpoint_pipeline mk R io dataset cache_name writable steps fs file =
     (case open_cached io dataset cache_name fs of
        None \<Rightarrow> None
      | Some (src, fs) \<Rightarrow> let lbl = ZeroProducer (producer_size (Cached src)) in
          Some (checkpoint_loop R writable steps file (mk training_graph (Cached src) lbl), fs))"

section \<open>What the loops do\<close>

primrec callback_runs :: "(f32 \<Rightarrow> stop_state \<Rightarrow> bool \<times> stop_state) \<Rightarrow> (nat \<Rightarrow> f32) \<Rightarrow> stop_state \<Rightarrow> nat \<Rightarrow> stop_state" where
  "callback_runs cb norms s 0 = s"
| "callback_runs cb norms s (Suc n) = snd (cb (norms n) (callback_runs cb norms s n))"

definition fit_contract :: "fit_until \<Rightarrow> (nat \<Rightarrow> f32) \<Rightarrow> bool" where
  \<comment> \<open>\<open>norms n\<close> is the gradient norm after cycle \<open>n\<close>\<close>
  "fit_contract fit norms \<longleftrightarrow> (\<forall>cb s n.
     fst (cb (norms n) (callback_runs cb norms s n)) \<longrightarrow>
     (\<forall>m<n. \<not> fst (cb (norms m) (callback_runs cb norms s m))) \<longrightarrow>
     fit cb s = Some (callback_runs cb norms s (Suc n)))"

lemma callback_runs_stop:
  "callback_runs (stop_callback steps) norms \<lparr>step_count = 0, pushed = []\<rparr> n =
     \<lparr>step_count = n, pushed = map (\<lambda>i. \<lparr>step = of_nat (i + 1), m_loss = norms i\<rparr>) [0..<n]\<rparr>"
  by (induction n) (simp_all add: stop_callback_def Let_def)

lemma run_until_ok:
  assumes "fit_contract fit norms"
  shows "run_until fit steps =
    Some (map (\<lambda>i. \<lparr>step = of_nat (i + 1), m_loss = norms i\<rparr>) [0..<max 1 steps])"
proof -
  let ?s = "\<lparr>step_count = 0, pushed = []\<rparr>"
  have stop: "fst (stop_callback steps x (callback_runs (stop_callback steps) norms ?s n)) \<longleftrightarrow> steps \<le> Suc n" for n x
    by (simp add: callback_runs_stop stop_callback_def Let_def)
  have "steps \<le> Suc (max 1 steps - 1)" "\<forall>m<max 1 steps - 1. \<not> steps \<le> Suc m" by auto
  then have "fit (stop_callback steps) ?s = Some (callback_runs (stop_callback steps) norms ?s (Suc (max 1 steps - 1)))"
    using assms unfolding fit_contract_def by (simp only: stop)
  then show ?thesis by (simp add: run_until_def callback_runs_stop del: callback_runs.simps)
qed

lemma u64_of_write [simp]: "u64_of_bytes (write_u64 v) = v"
proof (rule bit_word_eqI)
  fix n assume "n < LENGTH(64)"
  then consider "n < 8" | "8 \<le> n \<and> n < 16" | "16 \<le> n \<and> n < 24" | "24 \<le> n \<and> n < 32"
    | "32 \<le> n \<and> n < 40" | "40 \<le> n \<and> n < 48" | "48 \<le> n \<and> n < 56" | "56 \<le> n \<and> n < 64" by force
  then show "bit (u64_of_bytes (write_u64 v)) n = bit v n"
    by cases (auto simp: u64_of_bytes_def write_u64_def bit_simps upt_conv_Cons)
qed

definition checkpoint_contract :: "('r, 't) runtime \<Rightarrow> bool" where
  \<comment> \<open>the runtime reads back the checkpoint it wrote, and nothing after it\<close>
  "checkpoint_contract R \<longleftrightarrow> (\<forall>r rest r0. load_checkpoint R (save_checkpoint R r @ rest) r0 = (r, rest))"

definition weights_contract :: "('r, 't) runtime \<Rightarrow> bool" where
  \<comment> \<open>no step changes the number of weights: neither a forward pass nor assigning as many\<close>
  "weights_contract R \<longleftrightarrow> (\<forall>r. length (weights_of R (forward R r)) = length (weights_of R r)) \<and>
     (\<forall>ws r. length ws = length (weights_of R r) \<longrightarrow> length (weights_of R (set_weights R ws r)) = length ws)"

lemma resume_saved:
  "checkpoint_contract R \<Longrightarrow> resume R (Some (save_checkpoint R r @ write_u64 t)) r0 = (r, t)"
proof -
  have l: "length (write_u64 t) = 8" by (simp add: write_u64_def)
  then have "fst (istream_read (replicate 8 0) (good (write_u64 t))) = write_u64 t"
    by (simp add: istream_read_def good_def)
  then show "checkpoint_contract R \<Longrightarrow> ?thesis" by (simp add: resume_def checkpoint_contract_def)
qed

lemma update_weight_frame:
  "update_weight R k j s = Inr s' \<Longrightarrow> metrics s' = metrics s \<and> length (params s') = length (params s)"
  by (cases "optimizer R") (auto simp: update_weight_def res_simps Let_def split_def split: if_splits)

lemma update_weights_frame:
  "rfold (update_weight R k) js s = Inr s' \<Longrightarrow> metrics s' = metrics s \<and> length (params s') = length (params s)"
proof (induction js arbitrary: s)
  case (Cons j js)
  then show ?case by (auto simp: res_simps dest: update_weight_frame)
qed simp

text \<open>No access of the loop is out of range, so it returns.\<close>

definition sized :: "('r, 't) runtime \<Rightarrow> nat \<Rightarrow> ('r, 't) train_state \<Rightarrow> bool" where
  "sized R n s \<longleftrightarrow> length (weights_of R (rt s)) = n \<and> length (params s) = n \<and> length (opt1 s) = n \<and> length (opt2 s) = n"

lemma update_weight_sized:
  assumes "weights_contract R" and "sized R n s" and "j < n"
  shows "ensures (update_weight R k j s) (sized R n)"
  using assms by (cases "optimizer R") (auto simp: update_weight_def sized_def weights_contract_def Let_def split_def)

lemma train_step_sized:
  assumes "weights_contract R" and "sized R n s"
  shows "ensures (train_step R start i s) (sized R n)"
proof -
  have "sized R n (s\<lparr>rt := forward R (rt s)\<rparr>)" using assms by (simp add: sized_def weights_contract_def)
  then have "ensures (rfold (update_weight R k) [0..<n] (s\<lparr>rt := forward R (rt s)\<rparr>)) (sized R n)" for k
    by (rule rfold_upt) (rule update_weight_sized [OF assms(1)])
  then have "ensures (rfold (update_weight R k) [0..<n] (s\<lparr>rt := forward R (rt s)\<rparr>)) (\<lambda>u. sized R n (u\<lparr>metrics := metrics u @ m\<rparr>))" for k m
    by (rule ensures_mono) (simp add: sized_def)
  then show ?thesis using assms(2) by (simp add: train_step_def Let_def sized_def)
qed

lemma checkpoint_loop_returns:
  assumes "weights_contract R"
  shows "\<exists>m file'. checkpoint_loop R writable steps file r0 = Inr (m, file')"
proof -
  obtain r start where r: "resume R file r0 = (r, start)" by fastforce
  define none where "none = replicate (length (weights_of R r)) (empty_tensor R)"
  have "sized R (length none) \<lparr>rt = r, params = none, opt1 = none, opt2 = none, metrics = []\<rparr>"
    by (simp add: sized_def none_def)
  then have "ensures (rfold (train_step R start) [0..<steps] \<lparr>rt = r, params = none, opt1 = none, opt2 = none, metrics = []\<rparr>)
      (sized R (length none))"
    by (rule rfold_upt) (rule train_step_sized [OF assms])
  then show ?thesis by (auto simp: checkpoint_loop_def r Let_def none_def ensures_iff)
qed

lemma train_steps_metrics:
  "rfold (train_step R start) is s = Inr s' \<Longrightarrow>
   map step (metrics s') = map step (metrics s) @ map (\<lambda>i. ucast (start + of_nat i + 1)) is"
proof (induction "is" arbitrary: s)
  case (Cons i "is")
  then obtain u where u: "train_step R start i s = Inr u" "rfold (train_step R start) is u = Inr s'"
    by (auto simp: res_simps)
  from u(1) have "map step (metrics u) = map step (metrics s) @ [ucast (start + of_nat i + 1)]"
    by (auto simp: train_step_def Let_def res_simps dest: update_weights_frame)
  with Cons.IH [OF u(2)] show ?case by simp
qed simp

lemma checkpoint_loop_result:
  assumes "checkpoint_loop R True steps file r0 = Inr (m, file')" and "resume R file r0 = (r, start)"
  shows "map step m = map (\<lambda>i. ucast (start + of_nat i + 1)) [0..<steps] \<and>
    (\<exists>r'. file' = Some (save_checkpoint R r' @ write_u64 (start + of_nat steps)))"
  using assms by (auto simp: checkpoint_loop_def res_simps Let_def dest: train_steps_metrics)

section \<open>What a producer serves\<close>

definition served :: "'t harmonics_io \<Rightarrow> 't Producer \<Rightarrow> nat \<Rightarrow> 't" where
  \<comment> \<open>its \<open>k\<close>-th tensor\<close>
  "served io p k = (let next = producer_next (scalar_tensor io) (no_tensor io) in fst (next (((\<lambda>p. snd (next p)) ^^ k) p)))"

lemma next_cached_drawn:
  "producer_next sc d0 (Cached (p\<lparr>drawn := d\<rparr>)) =
     (fst (producer_next sc d0 (Cached p)), Cached ((snd (next_record d0 p))\<lparr>drawn := d\<rparr>))"
  by (simp add: next_record_def Let_def)

lemma next_cached: "snd (producer_next sc d0 (Cached p)) = Cached (snd (next_record d0 p))"
  by (simp add: split_def Let_def)

lemma nexts_cached_drawn:
  "\<exists>q. ((\<lambda>p. snd (producer_next sc d0 p)) ^^ k) (Cached p) = Cached q \<and>
     ((\<lambda>p. snd (producer_next sc d0 p)) ^^ k) (Cached (p\<lparr>drawn := d\<rparr>)) = Cached (q\<lparr>drawn := d\<rparr>)"
proof (induction k)
  case 0
  show ?case by simp
next
  case (Suc k)
  then obtain q where "((\<lambda>p. snd (producer_next sc d0 p)) ^^ k) (Cached p) = Cached q"
    "((\<lambda>p. snd (producer_next sc d0 p)) ^^ k) (Cached (p\<lparr>drawn := d\<rparr>)) = Cached (q\<lparr>drawn := d\<rparr>)" by blast
  then show ?case by (auto simp: next_cached_drawn next_cached simp del: producer_next.simps)
qed

lemma served_drawn: "served io (Cached (p\<lparr>drawn := d\<rparr>)) = served io (Cached p)"
proof
  fix k
  show "served io (Cached (p\<lparr>drawn := d\<rparr>)) k = served io (Cached p) k"
    using nexts_cached_drawn [where sc = "scalar_tensor io" and ?d0.0 = "no_tensor io" and k = k and p = p and d = d]
    by (auto simp: served_def Let_def next_cached_drawn simp del: producer_next.simps)
qed

section \<open>Properties\<close>

text \<open>
  The callback counts the cycles: with a runtime that calls it after every cycle until it
  answers true, \<open>train_with_metrics\<close> pushes the steps 1, 2, ... with the gradient norms of the
  cycles and stops after \<open>steps\<close> of them, or after one when \<open>steps\<close> is 0.
\<close>

theorem metrics_follow_cycles:
  assumes "fit_contract (fit training_graph (ConstProducer f_one) (ConstProducer f_zero) learning_rate) norms"
  shows "train_with_metrics fit steps =
    Some (map (\<lambda>i. \<lparr>step = of_nat (i + 1), m_loss = norms i\<rparr>) [0..<max 1 steps])"
  using run_until_ok [OF assms] by (simp add: train_with_metrics_def)

text \<open>A runtime that keeps the contract: it searches the cycle at which the callback answers true.\<close>

definition searching_fit :: "(nat \<Rightarrow> f32) \<Rightarrow> fit_until" where
  "searching_fit norms cb s =
     (if \<exists>n. fst (cb (norms n) (callback_runs cb norms s n))
      then Some (callback_runs cb norms s (Suc (LEAST n. fst (cb (norms n) (callback_runs cb norms s n))))) else None)"

lemma searching_fit_contract: "fit_contract (searching_fit norms) norms"
proof -
  have "(LEAST n. P n) = n" if "P n" "\<forall>m<n. \<not> P m" for P :: "nat \<Rightarrow> bool" and n
    using that by (metis LeastI Least_le le_neq_implies_less)
  then show ?thesis unfolding fit_contract_def searching_fit_def by auto
qed

lemma metrics_follow_cycles_witness:
  "train_with_metrics (\<lambda>g (inp :: u8 Producer) tgt rate. searching_fit (\<lambda>n. of_nat n)) 3 =
    Some [\<lparr>step = 1, m_loss = 0\<rparr>, \<lparr>step = 2, m_loss = 1\<rparr>, \<lparr>step = 3, m_loss = 2\<rparr>]"
  using metrics_follow_cycles [where fit = "\<lambda>g (inp :: u8 Producer) tgt rate. searching_fit (\<lambda>n. of_nat n)" and steps = 3,
      OF searching_fit_contract]
  by (simp add: upt_conv_Cons)

text \<open>
  A dataset pipeline is repeatable from its cache: for a runtime whose training depends on the
  tensors it is served, the second run pushes the same metrics as the first and leaves the same
  files, whatever the dataset object it is given, as long as it has the same size.
\<close>

theorem dataset_pipeline_repeatable:
  assumes "tensor_codec fit_t (write_tensor io) (read_tensor io)" and "list_all fit_t (map (draw b) [0..<base_size b])"
    and "0 < base_size b" and "base_size b' = base_size b" and "base_size b < io_fuel io"
    and "io_access io = fully" and "fs name = nothing"
    and "\<And>p q. fit_contract (fit training_graph p q learning_rate) (norms (served io p) (served io q))"
  shows "\<exists>m fs'. run_dataset_pipeline fit io b name steps fs = Some (m, fs') \<and>
    run_dataset_pipeline fit io b' name steps fs' = Some (m, fs') \<and> length m = max 1 steps"
proof -
  let ?ts = "map (draw b) [0..<base_size b]"
  have first: "open_cached io b name fs = Some (\<lparr>drawn = base_size b, records = ?ts, cursor = 0\<rparr>, fs(name := disk_of (write_tensor io) ?ts []))"
    using first_open [of "io_fuel io" "read_tensor io" "write_tensor io" b "[]"] assms(6,7) by (simp add: open_cached_def)
  have second: "open_cached io b' name (fs(name := disk_of (write_tensor io) ?ts [])) =
      Some (\<lparr>drawn = 0, records = ?ts, cursor = 0\<rparr>, fs(name := disk_of (write_tensor io) ?ts []))"
    using reopen [OF assms(1,2), of "io_fuel io" "[]" b'] assms(3-6) by (simp add: open_cached_def)
  let ?lbl = "ZeroProducer (length ?ts)"
  have m: "run_until (fit training_graph (Cached \<lparr>drawn = d, records = ?ts, cursor = 0\<rparr>) ?lbl learning_rate) steps =
      Some (map (\<lambda>i. \<lparr>step = of_nat (i + 1), m_loss = norms (served io (Cached \<lparr>drawn = 0, records = ?ts, cursor = 0\<rparr>))
        (served io ?lbl) i\<rparr>) [0..<max 1 steps])" for d
    using run_until_ok [OF assms(8), of "Cached \<lparr>drawn = d, records = ?ts, cursor = 0\<rparr>" ?lbl steps]
      served_drawn [where io = io and p = "\<lparr>drawn = 0, records = ?ts, cursor = 0\<rparr>" and d = d] by simp
  show ?thesis using m [of "base_size b"] m [of 0] by (simp add: run_dataset_pipeline_def first second size_of_def Let_def)
qed

definition byte_io :: "u8 harmonics_io" where
  "byte_io = \<lparr>read_tensor = byte_reader, write_tensor = byte_writer, scalar_tensor = \<lambda>bs. hd bs, no_tensor = 0,
     io_fuel = 9, io_access = fully\<rparr>"

lemma dataset_pipeline_repeatable_witness:
  "\<exists>m fs'. run_dataset_pipeline (\<lambda>g p q rate. searching_fit (\<lambda>i. ucast (served byte_io p i))) byte_io
      \<lparr>base_size = 2, draw = of_nat\<rparr> ''c'' 4 (\<lambda>_. nothing) = Some (m, fs') \<and>
    run_dataset_pipeline (\<lambda>g p q rate. searching_fit (\<lambda>i. ucast (served byte_io p i))) byte_io
      \<lparr>base_size = 2, draw = \<lambda>_. 0\<rparr> ''c'' 4 fs' = Some (m, fs') \<and> length m = max 1 4"
proof (rule dataset_pipeline_repeatable [where norms = "\<lambda>p q i. ucast (p i)"])
  show "tensor_codec (\<lambda>_. True) (write_tensor byte_io) (read_tensor byte_io)"
    using byte_codec by (simp add: byte_io_def)
qed (simp_all add: searching_fit_contract, simp_all add: byte_io_def list_all_iff)

text \<open>
  One cache name for two datasets mixes them up: \<open>production_training_pipeline\<close> with equal names
  and sizes trains on the input tensors as their own targets, and the target dataset is never
  read.
\<close>

theorem production_shared_cache:
  assumes "tensor_codec fit_t (write_tensor io) (read_tensor io)" and "list_all fit_t (map (draw b) [0..<base_size b])"
    and "0 < base_size b" and "base_size target = base_size b" and "base_size b < io_fuel io"
    and "io_access io = fully" and "fs name = nothing"
  shows "\<exists>src lbl fs'. records src = map (draw b) [0..<base_size b] \<and> records lbl = records src \<and> drawn lbl = 0 \<and>
    production_training_pipeline fit io b target name name steps fs =
      map_option (\<lambda>m. (m, fs')) (run_until (fit training_graph (Cached src) (Cached lbl) learning_rate) steps)"
proof -
  let ?ts = "map (draw b) [0..<base_size b]"
  let ?fs = "fs(name := disk_of (write_tensor io) ?ts [])"
  have first: "open_cached io b name fs = Some (\<lparr>drawn = base_size b, records = ?ts, cursor = 0\<rparr>, ?fs)"
    using first_open [of "io_fuel io" "read_tensor io" "write_tensor io" b "[]"] assms(6,7) by (simp add: open_cached_def)
  have second: "open_cached io target name ?fs = Some (\<lparr>drawn = 0, records = ?ts, cursor = 0\<rparr>, ?fs)"
    using reopen [OF assms(1,2), of "io_fuel io" "[]" target] assms(3-6) by (simp add: open_cached_def)
  show ?thesis
    by (intro exI [of _ "\<lparr>drawn = base_size b, records = ?ts, cursor = 0\<rparr>"]
        exI [of _ "\<lparr>drawn = 0, records = ?ts, cursor = 0\<rparr>"] exI [of _ ?fs])
      (simp add: production_training_pipeline_def first second)
qed

lemma production_shared_cache_witness:
  "\<exists>(src :: u8 DiskCacheProducer) (lbl :: u8 DiskCacheProducer) fs'. records src = map of_nat [0..<2] \<and> records lbl = records src \<and> drawn lbl = 0 \<and>
    production_training_pipeline (\<lambda>g p q rate. searching_fit (\<lambda>i. of_nat i)) byte_io
      \<lparr>base_size = 2, draw = of_nat\<rparr> \<lparr>base_size = 2, draw = \<lambda>_. 77\<rparr> ''c'' ''c'' 4 (\<lambda>_. nothing) =
      map_option (\<lambda>m. (m, fs')) (run_until (searching_fit (\<lambda>i. of_nat i)) 4)"
proof -
  have c: "tensor_codec (\<lambda>_. True) (write_tensor byte_io) (read_tensor byte_io)"
    using byte_codec by (simp add: byte_io_def)
  from production_shared_cache [OF c, of "\<lparr>base_size = 2, draw = of_nat\<rparr>" "\<lparr>base_size = 2, draw = \<lambda>_. 77\<rparr>"
      "\<lambda>_. nothing" "''c''" "\<lambda>g p q rate. searching_fit (\<lambda>i. of_nat i)" 4]
  show ?thesis by (simp add: byte_io_def list_all_iff)
qed

text \<open>
  C15: training resumes where it stopped: with a runtime that reads back its checkpoints and keeps
  the number of its weights, a run of \<open>s1\<close> steps without a checkpoint returns, a run of
  \<open>s2\<close> steps from the file it wrote returns, together they push the steps 1, 2, ...,
  \<open>s1 + s2\<close> without a gap or a repeat, and the second file records their number.
\<close>

theorem checkpoint_resumes:
  assumes "checkpoint_contract R" and "weights_contract R"
  shows "\<exists>m1 f1 m2 r. checkpoint_loop R True s1 None r0 = Inr (m1, f1) \<and>
    checkpoint_loop R True s2 f1 r0' = Inr (m2, Some (save_checkpoint R r @ write_u64 (of_nat (s1 + s2)))) \<and>
    map step (m1 @ m2) = map of_nat [1..<s1 + s2 + 1]"
proof -
  obtain m1 f1 where run1: "checkpoint_loop R True s1 None r0 = Inr (m1, f1)"
    using checkpoint_loop_returns [OF assms(2)] by blast
  obtain m2 f2 where run2: "checkpoint_loop R True s2 f1 r0' = Inr (m2, f2)"
    using checkpoint_loop_returns [OF assms(2)] by blast
  have "resume R None r0 = (r0, 0)" by (simp add: resume_def)
  from checkpoint_loop_result [OF run1 this] obtain r where
    m1: "map step m1 = map (\<lambda>i. ucast (of_nat i + 1 :: u64)) [0..<s1]" and
    f1: "f1 = Some (save_checkpoint R r @ write_u64 (of_nat s1))" by auto
  have "resume R f1 r0' = (r, of_nat s1)" unfolding f1 by (rule resume_saved [OF assms(1)])
  from checkpoint_loop_result [OF run2 this] obtain r' where
    m2: "map step m2 = map (\<lambda>i. ucast (of_nat s1 + of_nat i + 1 :: u64)) [0..<s2]" and
    f2: "f2 = Some (save_checkpoint R r' @ write_u64 (of_nat s1 + of_nat s2))" by auto
  have u: "(ucast (of_nat k :: u64) :: u32) = of_nat k" for k by (simp add: unsigned_of_nat word_of_nat_eq_iff)
  have shift: "map (\<lambda>i. ucast (of_nat s + of_nat i + 1 :: u64)) [0..<n] = (map of_nat [s + 1..<s + n + 1] :: u32 list)" for s n
  proof -
    have "[s + 1..<s + n + 1] = map (\<lambda>i. i + (s + 1)) [0..<n]"
      using map_add_upt [of "s + 1" n] by (simp only: add.commute add.left_commute)
    then have "map of_nat [s + 1..<s + n + 1] = (map (\<lambda>i. of_nat (i + (s + 1))) [0..<n] :: u32 list)"
      by (simp only: list.map_comp comp_def)
    also have "\<dots> = map (\<lambda>i. ucast (of_nat (i + (s + 1)) :: u64)) [0..<n]" by (simp only: u)
    finally show ?thesis by (simp add: ac_simps)
  qed
  have "map (\<lambda>i. ucast (of_nat i + 1 :: u64)) [0..<s1] = (map of_nat [1..<s1 + 1] :: u32 list)"
    using shift [of 0 s1] by simp
  moreover note shift [of s1 s2]
  moreover have "[1..<s1 + s2 + 1] = [1..<s1 + 1] @ [s1 + 1..<s1 + s2 + 1]"
    using upt_add_eq_append [of 1 "s1 + 1" s2] by (simp add: ac_simps del: upt_Suc)
  ultimately have "map step (m1 @ m2) = map of_nat [1..<s1 + s2 + 1]"
    unfolding map_append m1 m2 by (simp only: map_append)
  with run1 run2 f2 show ?thesis by auto
qed

text \<open>
  A run of no steps destroys the checkpoint: the parameters always start as empty tensors and
  are moved into the runtime before saving, so resuming for 0 steps replaces every saved weight by
  an empty one and keeps the step count.
\<close>

theorem checkpoint_zero_steps:
  assumes "checkpoint_contract R"
  shows "checkpoint_loop R True 0 (Some (save_checkpoint R r @ write_u64 t)) r0 = Inr ([],
    Some (save_checkpoint R (set_weights R (replicate (length (weights_of R r)) (empty_tensor R)) r) @ write_u64 t))"
  using resume_saved [OF assms, of r t r0] by (simp add: checkpoint_loop_def)

definition tiny_runtime :: "(u8, u8) runtime" where
  \<comment> \<open>one weight of one byte\<close>
  "tiny_runtime = \<lparr>forward = \<lambda>r. r + 1, weights_of = \<lambda>r. [r], set_weights = \<lambda>ws r. hd ws, gradients_l2_norm = \<lambda>ws. 0,
     shaped = \<lambda>_. True, grad_clip = f_one, clip_tensor = \<lambda>w c. w, optimizer = SGD, sgd_update = \<lambda>p g lr. p + g,
     adam_update = \<lambda>p g a b k lr. (p, a, b), rmsprop_update = \<lambda>p g a lr. (p, a), empty_tensor = 0, load_checkpoint = \<lambda>bs r. (hd bs, tl bs), save_checkpoint = \<lambda>r. [r]\<rparr>"

lemma tiny_runtime_contract: "checkpoint_contract tiny_runtime"
  by (simp add: checkpoint_contract_def tiny_runtime_def)

lemma checkpoint_resumes_witness:
  "\<exists>m1 f1 m2 r. checkpoint_loop tiny_runtime True 2 None 5 = Inr (m1, f1) \<and>
     checkpoint_loop tiny_runtime True 1 f1 0 = Inr (m2, Some ([r] @ write_u64 3)) \<and> map step (m1 @ m2) = [1, 2, 3]"
proof -
  have "weights_contract tiny_runtime" by (simp add: weights_contract_def tiny_runtime_def)
  from checkpoint_resumes [OF tiny_runtime_contract this, of 2 5 1 0]
  show ?thesis by (auto simp: tiny_runtime_def upt_rec)
qed

lemma checkpoint_zero_steps_witness:
  "checkpoint_loop tiny_runtime True 0 (Some ([77] @ write_u64 12)) 5 = Inr ([], Some ([0] @ write_u64 12))"
  using checkpoint_zero_steps [OF tiny_runtime_contract, of 77 12 5] by (simp add: tiny_runtime_def)

end
