(* ===== verification/Simulation.thy ===== *)
theory Simulation
  imports Matchmaking Training_Pipelines
begin

text \<open>
  The offline simulation (\<open>include/neuropet/simulation.hpp\<close>), which puts training,
  matchmaking and the ledger together. The generator is its state \<open>'g\<close> and three draws
  from it: a statistic, an index up to a bound, and a word; \<open>rng_contract\<close> is what the
  distributions of the standard library promise. The loop that draws an opponent may not end, so it
  and the fights run on fuel, and more fuel never changes a result.
\<close>

section \<open>The simulation\<close>

record 'g generator =
  stat_draw :: "'g \<Rightarrow> int \<times> 'g"
  index_draw :: "u64 \<Rightarrow> 'g \<Rightarrow> nat \<times> 'g"
  word_draw :: "'g \<Rightarrow> u32 \<times> 'g"

definition random_creature :: "'g generator \<Rightarrow> u32 \<Rightarrow> 'g \<Rightarrow> CreatureStats \<times> 'g" where
  "random_creature R i g =
     (let (p, g) = stat_draw R g; (d, g) = stat_draw R g; (st, g) = stat_draw R g
      in (\<lparr>cid = i, power = p, defense = d, stamina = st, items = []\<rparr>, g))"

fun spawn :: "'g generator \<Rightarrow> nat \<Rightarrow> nat \<Rightarrow> 'g \<Rightarrow> CreatureStats list \<times> 'g" where
  \<comment> \<open>\<open>n\<close> creatures from index \<open>i\<close> on\<close>
  "spawn R i 0 g = ([], g)"
| "spawn R i (Suc n) g =
     (let (c, g) = random_creature R (of_nat (i + 1)) g; (cs, g) = spawn R (Suc i) n g in (c # cs, g))"

fun redraw :: "nat \<Rightarrow> 'g generator \<Rightarrow> u64 \<Rightarrow> nat \<Rightarrow> nat \<Rightarrow> 'g \<Rightarrow> (nat \<times> 'g) option" where
  \<comment> \<open>\<open>while (a == b) b = dist(rng);\<close>\<close>
  "redraw 0 R hi a b g = None"
| "redraw (Suc n) R hi a b g = (if a = b then let (b, g) = index_draw R hi g in redraw n R hi a b g else Some (b, g))"

type_synonym 'g sim_result = "(MatchLedger Matchmaker \<times> 'g) res option"

definition one_battle ::
    "nat \<Rightarrow> 'g generator \<Rightarrow> CreatureStats list \<Rightarrow> u64 \<Rightarrow> MatchLedger Matchmaker \<Rightarrow> 'g \<Rightarrow> 'g sim_result" where
  "one_battle fuel R creatures hi mm g =
     (let (a, g) = index_draw R hi g; (b, g) = index_draw R hi g in
      case redraw fuel R hi a b g of
        None \<Rightarrow> None
      | Some (b, g) \<Rightarrow>
          (case rbind (at creatures a) (\<lambda>ca. rbind (at creatures b) (\<lambda>cb. Inr (enqueue (enqueue mm ca) cb))) of
             Inl e \<Rightarrow> Some (Inl e)
           | Inr mm \<Rightarrow> let (seed, g) = word_draw R g in
               map_option (\<lambda>r. rbind r (\<lambda>(w, mm). Inr (mm, g))) (try_match fuel record_result mm seed)))"

fun battle_loop ::
    "nat \<Rightarrow> 'g generator \<Rightarrow> CreatureStats list \<Rightarrow> u64 \<Rightarrow> nat \<Rightarrow> MatchLedger Matchmaker \<Rightarrow> 'g \<Rightarrow> 'g sim_result" where
  "battle_loop fuel R creatures hi 0 mm g = Some (Inr (mm, g))"
| "battle_loop fuel R creatures hi (Suc n) mm g =
     continue_with (one_battle fuel R creatures hi mm g) (\<lambda>(mm, g). battle_loop fuel R creatures hi n mm g)"

definition run_simulation ::
    "nat \<Rightarrow> 't graph_fit \<Rightarrow> 'g generator \<Rightarrow> nat \<Rightarrow> nat \<Rightarrow> nat \<Rightarrow> MatchLedger \<Rightarrow> 'g \<Rightarrow> (MatchLedger \<times> 'g) res option" where
  \<comment> \<open>the training loops push to a \<open>NullStreamer\<close>: all that matters is whether they return\<close>
  "run_simulation fuel trainer R creature_count steps battles l g =
     (let (creatures, g) = spawn R 0 creature_count g in
      if 0 < creature_count \<and> train_with_metrics trainer steps = None then None
      else continue_with
             (battle_loop fuel R creatures (of_nat creature_count - 1) battles
                \<lparr>queue = [], engine = clear_board, ledger = Some l\<rparr> g)
             (\<lambda>(mm, g). Some (Inr (case ledger mm of None \<Rightarrow> l | Some l' \<Rightarrow> l', g))))"

section \<open>What the library promises\<close>

definition index_state :: "'g generator \<Rightarrow> u64 \<Rightarrow> nat \<Rightarrow> 'g \<Rightarrow> 'g" where
  \<comment> \<open>the state after \<open>k\<close> draws of an index\<close>
  "index_state R hi k g = ((\<lambda>g. snd (index_draw R hi g)) ^^ k) g"

definition rng_contract :: "'g generator \<Rightarrow> bool" where
  \<comment> \<open>draws stay in range, and from no state are the draws of an index among at least two all the same\<close>
  "rng_contract R \<longleftrightarrow>
     (\<forall>g. 1 \<le> fst (stat_draw R g) \<and> fst (stat_draw R g) \<le> 10) \<and>
     (\<forall>hi g. fst (index_draw R hi g) \<le> unat hi) \<and>
     (\<forall>hi g. 1 \<le> hi \<longrightarrow> (\<exists>k. fst (index_draw R hi (index_state R hi k g)) \<noteq> fst (index_draw R hi g)))"

section \<open>More fuel\<close>

lemma redraw_mono: "redraw n R hi a b g = Some r \<Longrightarrow> n \<le> m \<Longrightarrow> redraw m R hi a b g = Some r"
proof (induction n arbitrary: m b g)
  case (Suc n)
  then obtain k where "m = Suc k" "n \<le> k" by (cases m) auto
  with Suc show ?case by (auto split: if_splits prod.splits)
qed simp

lemma fight_mono:
  assumes "fight n bd a b seed = Some r" and "n \<le> m"
  shows "fight m bd a b seed = Some r"
proof (cases "fight_start bd a b seed")
  case (Inr s)
  with assms(1) obtain t where t: "run_while fight_on (fight_step bd a b) n s = Some t" by (auto simp: fight_def)
  from run_while_le [OF t assms(2)] assms(1) Inr t show ?thesis by (simp add: fight_def)
qed (use assms(1) in \<open>simp add: fight_def\<close>)

lemma try_match_mono:
  assumes "try_match n rec mm seed = Some r" and "n \<le> m"
  shows "try_match m rec mm seed = Some r"
proof (cases "\<exists>a b rest. queue mm = a # b # rest")
  case True
  then obtain a b rest where q: "queue mm = a # b # rest" by blast
  with assms(1) obtain w where "fight n (engine mm) a b seed = Some w" by auto
  with fight_mono [OF this assms(2)] assms(1) q show ?thesis by simp
next
  case False
  with assms(1) show ?thesis by (auto split: list.splits)
qed

lemma one_battle_mono:
  assumes "one_battle n R cs hi mm g = Some r" and "n \<le> m"
  shows "one_battle m R cs hi mm g = Some r"
proof -
  obtain a g1 where a: "index_draw R hi g = (a, g1)" by fastforce
  obtain b0 g2 where b0: "index_draw R hi g1 = (b0, g2)" by fastforce
  from assms(1) a b0 obtain b g3 where b: "redraw n R hi a b0 g2 = Some (b, g3)"
    by (auto simp: one_battle_def split: option.splits)
  show ?thesis
    using assms a b0 b redraw_mono [OF b assms(2)]
    by (auto simp: one_battle_def simp del: try_match.simps split: sum.splits prod.splits intro!: try_match_mono [OF _ assms(2)])
qed

lemma battle_loop_mono: "battle_loop n R cs hi k mm g = Some r \<Longrightarrow> n \<le> m \<Longrightarrow> battle_loop m R cs hi k mm g = Some r"
proof (induction k arbitrary: mm g)
  case (Suc k)
  then obtain x where x: "one_battle n R cs hi mm g = Some x" by (cases "one_battle n R cs hi mm g") auto
  from Suc one_battle_mono [OF x Suc.prems(2)] x show ?case by (cases x) (auto split: prod.splits)
qed simp

section \<open>The loop that draws an opponent\<close>

lemma redraw_reaches:
  "fst (index_draw R hi (index_state R hi k g)) \<noteq> a \<Longrightarrow> redraw (k + 2) R hi a b g \<noteq> None"
proof (induction k arbitrary: b g)
  case (Suc k)
  obtain b' g' where d: "index_draw R hi g = (b', g')" by fastforce
  have "index_state R hi (Suc k) g = index_state R hi k g'"
    by (simp add: index_state_def funpow_Suc_right d del: funpow.simps)
  with Suc.IH [of g' b'] Suc.prems d show ?case by (cases "a = b") (simp_all add: numeral_2_eq_2 del: not_None_eq)
qed (simp add: index_state_def split_def numeral_2_eq_2)

lemma redraw_ends:
  assumes "rng_contract R" and "1 \<le> hi"
  shows "\<exists>n b' g'. redraw n R hi a b g = Some (b', g')"
proof -
  obtain k where "fst (index_draw R hi (index_state R hi k g)) \<noteq> fst (index_draw R hi g)"
    using assms unfolding rng_contract_def by blast
  then have "fst (index_draw R hi (index_state R hi k g)) \<noteq> a \<or> fst (index_draw R hi (index_state R hi 0 g)) \<noteq> a"
    by (auto simp: index_state_def)
  then obtain m where "redraw (m + 2) R hi a b g \<noteq> None" using redraw_reaches [of R hi _ g a b] by blast
  then obtain r where "redraw (m + 2) R hi a b g = Some r" by blast
  then show ?thesis by (cases r) blast
qed

section \<open>A battle\<close>

lemma random_creature_fit:
  assumes "rng_contract R" and "random_creature R i g = (c, g')"
  shows "cid c = i \<and> fit 70 c"
proof -
  obtain p d st where c: "c = basic i p d st" and r: "1 \<le> p" "p \<le> 10" "1 \<le> d" "d \<le> 10" "1 \<le> st" "st \<le> 10"
  proof -
    obtain p g1 where 1: "stat_draw R g = (p, g1)" by fastforce
    obtain d g2 where 2: "stat_draw R g1 = (d, g2)" by fastforce
    obtain st g3 where 3: "stat_draw R g2 = (st, g3)" by fastforce
    have "1 \<le> fst (stat_draw R x) \<and> fst (stat_draw R x) \<le> 10" for x using assms(1) by (simp add: rng_contract_def)
    from this [of g] this [of g1] this [of g2] 1 2 3 assms(2) that [of p d st] show ?thesis
      by (simp add: random_creature_def basic_def)
  qed
  have "fit 70 (basic i p d st)"
    unfolding fit_def by (intro exI [of _ p] exI [of _ d] exI [of _ st]) (use r in \<open>auto simp: in_i32_def\<close>)
  then show ?thesis using c by (simp add: basic_def)
qed

lemma spawn_fit:
  "rng_contract R \<Longrightarrow> spawn R i n g = (cs, g') \<Longrightarrow>
   map cid cs = map (\<lambda>k. of_nat (k + 1)) [i..<i + n] \<and> list_all (fit 70) cs"
proof (induction n arbitrary: i g cs g')
  case (Suc n)
  obtain c g1 where c: "random_creature R (of_nat (i + 1)) g = (c, g1)" by fastforce
  obtain ds g2 where ds: "spawn R (Suc i) n g1 = (ds, g2)" by fastforce
  from Suc.IH [OF Suc.prems(1) ds] random_creature_fit [OF Suc.prems(1) c] Suc.prems(2) c ds
  show ?case by (auto simp: upt_conv_Cons simp del: upt_Suc)
qed simp

lemma redraw_bound:
  assumes "\<And>g. fst (index_draw R hi g) \<le> unat hi"
  shows "redraw n R hi a b g = Some (c, g') \<Longrightarrow> b \<le> unat hi \<Longrightarrow> c \<le> unat hi \<and> c \<noteq> a"
proof (induction n arbitrary: b g)
  case (Suc n)
  show ?case
  proof (cases "a = b")
    case True
    obtain b' g1 where d: "index_draw R hi g = (b', g1)" by fastforce
    with assms [of g] have "b' \<le> unat hi" by simp
    with Suc True d show ?thesis by auto
  next
    case False
    with Suc.prems show ?thesis by auto
  qed
qed simp

lemma fit_mono: "fit k c \<Longrightarrow> k \<le> n \<Longrightarrow> fit n c"
  unfolding fit_def by (meson le_trans)

definition sensible :: "nat \<Rightarrow> MatchResult \<Rightarrow> bool" where
  \<comment> \<open>two different creatures of the simulation\<close>
  "sensible n r \<longleftrightarrow> winner r \<noteq> loser r \<and> {winner r, loser r} \<subseteq> of_nat ` {1..n}"

lemma enqueue_sel [simp]:
  "queue (enqueue m c) = queue m @ [c]" "engine (enqueue m c) = engine m" "ledger (enqueue m c) = ledger m"
  by (simp_all add: enqueue_def)

lemma one_battle_ok:
  assumes "rng_contract R" and "1 \<le> hi" and "unat hi < length cs" and "list_all (fit 70) cs"
    and "map cid cs = map (\<lambda>k. of_nat (k + 1)) [0..<length cs]" and "length cs < 2 ^ 32"
    and "queue mm = []" and "engine mm = clear_board" and "ledger mm = Some l"
  shows "\<exists>fuel mm' g' l' r. one_battle fuel R cs hi mm g = Some (Inr (mm', g')) \<and> queue mm' = [] \<and>
    engine mm' = clear_board \<and> ledger mm' = Some l' \<and> results l' = results l @ [r] \<and> sensible (length cs) r"
proof -
  have range: "fst (index_draw R hi g) \<le> unat hi" for g using assms(1) by (simp add: rng_contract_def)
  obtain a g1 where a: "index_draw R hi g = (a, g1)" by fastforce
  obtain b0 g2 where b0: "index_draw R hi g1 = (b0, g2)" by fastforce
  obtain n b g3 where n: "redraw n R hi a b0 g2 = Some (b, g3)" using redraw_ends [OF assms(1,2)] by blast
  define fuel where "fuel = max n 70"
  have b: "redraw fuel R hi a b0 g2 = Some (b, g3)" by (rule redraw_mono [OF n]) (simp add: fuel_def)
  have bounds: "a < length cs" "b < length cs" "b \<noteq> a"
    using range [of g] range [of g1] redraw_bound [OF range b] a b0 assms(3) by auto
  obtain seed g4 where seed: "word_draw R g3 = (seed, g4)" by fastforce
  have ids: "cid (cs ! k) = of_nat (k + 1)" if "k < length cs" for k
    using arg_cong [OF assms(5), of "\<lambda>xs. xs ! k"] that by simp
  have "fit 70 (cs ! a)" "fit 70 (cs ! b)" using bounds assms(4) by (auto simp: list_all_length)
  then have "fit fuel (cs ! a)" "fit fuel (cs ! b)" using fit_mono [of 70 _ fuel] by (simp_all add: fuel_def)
  moreover have "\<forall>p. clear_board p \<noteq> WALL" by (simp add: clear_board_def)
  ultimately obtain w where w: "fight fuel clear_board (cs ! a) (cs ! b) seed = Some (Inr w)" "w \<in> {cid (cs ! a), cid (cs ! b)}"
    using fit_fight by blast
  have differ: "cid (cs ! a) \<noteq> cid (cs ! b)"
  proof
    assume "cid (cs ! a) = cid (cs ! b)"
    then have "(of_nat (a + 1) :: u32) = of_nat (b + 1)" using ids bounds by simp
    then have "unat (of_nat (a + 1) :: u32) = unat (of_nat (b + 1) :: u32)" by (rule arg_cong)
    then have "a + 1 = b + 1"
      using bounds assms(6) by (simp only: unat_of_nat_u32)
    with bounds(3) show False by simp
  qed
  define x where "x = (if w = cid (cs ! a) then cid (cs ! b) else cid (cs ! a))"
  define l' where "l' = snd (record_result l w x)"
  have l': "results l' = results l @ [\<lparr>battle_id = next_id l, winner = w, loser = x\<rparr>]"
    by (simp add: l'_def record_result_def Let_def)
  let ?mm = "(enqueue (enqueue mm (cs ! a)) (cs ! b))\<lparr>queue := [], ledger := Some l'\<rparr>"
  have "try_match fuel record_result (enqueue (enqueue mm (cs ! a)) (cs ! b)) seed = Some (Inr (Some w, ?mm))"
    using assms(7-9) w(1) by (simp add: l'_def x_def Let_def)
  then have "one_battle fuel R cs hi mm g = Some (Inr (?mm, g4))"
    using a b0 b seed bounds by (simp add: one_battle_def)
  moreover have "sensible (length cs) \<lparr>battle_id = next_id l, winner = w, loser = x\<rparr>"
  proof -
    have "cid (cs ! k) \<in> of_nat ` {1..length cs}" if "k < length cs" for k
      using ids [OF that] that by (auto intro!: image_eqI [of _ _ "k + 1"])
    then show ?thesis using w(2) differ bounds by (auto simp: sensible_def x_def)
  qed
  ultimately show ?thesis using l' assms(8) by (intro exI [of _ fuel] exI [of _ ?mm] exI [of _ g4] exI [of _ l']) auto
qed

lemma battle_loop_ok:
  assumes "rng_contract R" and "1 \<le> hi" and "unat hi < length cs" and "list_all (fit 70) cs"
    and "map cid cs = map (\<lambda>k. of_nat (k + 1)) [0..<length cs]" and "length cs < 2 ^ 32"
  shows "queue mm = [] \<Longrightarrow> engine mm = clear_board \<Longrightarrow> ledger mm = Some l \<Longrightarrow>
    \<exists>fuel mm' g' l' rs. battle_loop fuel R cs hi n mm g = Some (Inr (mm', g')) \<and> ledger mm' = Some l' \<and>
      results l' = results l @ rs \<and> length rs = n \<and> list_all (sensible (length cs)) rs"
proof (induction n arbitrary: mm g l)
  case (Suc n)
  from one_battle_ok [OF assms Suc.prems, of g] obtain F1 m1 g1 l1 r where
    1: "one_battle F1 R cs hi mm g = Some (Inr (m1, g1))" "queue m1 = []" "engine m1 = clear_board" "ledger m1 = Some l1"
       "results l1 = results l @ [r]" "sensible (length cs) r" by blast
  from Suc.IH [OF 1(2-4), of g1] obtain F2 m2 g2 l2 rs where
    2: "battle_loop F2 R cs hi n m1 g1 = Some (Inr (m2, g2))" "ledger m2 = Some l2" "results l2 = results l1 @ rs"
       "length rs = n" "list_all (sensible (length cs)) rs" by blast
  from one_battle_mono [OF 1(1), of "max F1 F2"] battle_loop_mono [OF 2(1), of "max F1 F2"]
  show ?case using 1 2 by (intro exI [of _ "max F1 F2"] exI [of _ m2] exI [of _ g2] exI [of _ l2] exI [of _ "r # rs"]) simp
qed simp

lemma run_simulation_ok:
  assumes "rng_contract R" and "2 \<le> n" and "n < 2 ^ 32"
    and "fit_contract (trainer training_graph (ConstProducer f_one) (ConstProducer f_zero) learning_rate) norms"
  shows "\<exists>F l' g' rs. (\<forall>fuel\<ge>F. run_simulation fuel trainer R n steps battles l g = Some (Inr (l', g'))) \<and>
    results l' = results l @ rs \<and> length rs = battles \<and> list_all (sensible n) rs"
proof -
  obtain cs g1 where cs: "spawn R 0 n g = (cs, g1)" by fastforce
  from spawn_fit [OF assms(1) cs] have c: "map cid cs = map (\<lambda>k. of_nat (k + 1)) [0..<n]" "list_all (fit 70) cs" by auto
  then have len: "length cs = n" by (metis length_map length_upt minus_nat.diff_0)
  have "(of_nat n - 1 :: u64) = of_nat (n - 1)" using assms(2) by (simp add: of_nat_diff)
  moreover have "unat (of_nat (n - 1) :: u64) = n - 1"
    using assms(3) by (simp add: unsigned_of_nat take_bit_nat_eq_self)
  ultimately have hi: "unat (of_nat n - 1 :: u64) = n - 1" by simp
  then have "1 \<le> (of_nat n - 1 :: u64)" using assms(2) by (simp add: word_le_nat_alt)
  from battle_loop_ok [OF assms(1) this, of cs "\<lparr>queue = [], engine = clear_board, ledger = Some l\<rparr>" l battles g1]
  obtain F mm' g' l' rs where r:
    "battle_loop F R cs (of_nat n - 1) battles \<lparr>queue = [], engine = clear_board, ledger = Some l\<rparr> g1 = Some (Inr (mm', g'))"
    "ledger mm' = Some l'" "results l' = results l @ rs" "length rs = battles" "list_all (sensible n) rs"
    using c len hi assms(2,3) by auto
  have "train_with_metrics trainer steps \<noteq> None" using run_until_ok [OF assms(4)] by (simp add: train_with_metrics_def)
  then have "run_simulation fuel trainer R n steps battles l g = Some (Inr (l', g'))" if "F \<le> fuel" for fuel
    using cs r(2) battle_loop_mono [OF r(1) that] by (simp add: run_simulation_def)
  with r(3-5) show ?thesis by blast
qed

section \<open>Properties\<close>

text \<open>
  C23: the simulation does what it says: with at least two creatures (and fewer than \<open>2 ^ 32\<close>), a
  generator whose draws are in range and never stuck on one index, and a training runtime that
  calls the stop callback after every cycle, it returns: every
  loop ends, the one that draws a different opponent and the fights included, and from some fuel
  on the result is the same. The ledger has then grown by exactly one entry per battle, each between two
  different creatures of the simulation.
\<close>

theorem simulation_fills_ledger:
  assumes "rng_contract R" and "2 \<le> n" and "n < 2 ^ 32"
    and "fit_contract (trainer training_graph (ConstProducer f_one) (ConstProducer f_zero) learning_rate) norms"
  shows "\<exists>F l' g' rs. (\<forall>fuel\<ge>F. run_simulation fuel trainer R n steps battles l g = Some (Inr (l', g'))) \<and>
    results l' = results l @ rs \<and> length rs = battles \<and> list_all (sensible n) rs"
  using assms by (rule run_simulation_ok)

definition counter_rng :: "nat generator" where
  \<comment> \<open>a state that counts, and draws that alternate\<close>
  "counter_rng = \<lparr>stat_draw = \<lambda>g. (int (g mod 10) + 1, Suc g),
     index_draw = \<lambda>hi g. (if g mod 2 = 0 then 0 else min 1 (unat hi), Suc g), word_draw = \<lambda>g. (of_nat g, Suc g)\<rparr>"

lemma counter_contract: "rng_contract counter_rng"
proof -
  have "fst (index_draw counter_rng hi (index_state counter_rng hi 1 g)) \<noteq> fst (index_draw counter_rng hi g)" if "1 \<le> hi" for hi g
  proof -
    have "1 \<le> unat hi" using that by (simp add: word_le_nat_alt)
    then show ?thesis by (auto simp: counter_rng_def index_state_def mod_Suc min_def)
  qed
  then show ?thesis by (auto simp: rng_contract_def) (auto simp: counter_rng_def word_le_nat_alt)
qed

lemma simulation_fills_ledger_witness:
  "\<exists>F l' g' rs. (\<forall>fuel\<ge>F. run_simulation fuel (\<lambda>g (p :: u8 Producer) q rate. searching_fit (\<lambda>n. 0)) counter_rng 3 2 4 new_ledger 0 = Some (Inr (l', g'))) \<and>
    results l' = results new_ledger @ rs \<and> length rs = 4 \<and> list_all (sensible 3) rs"
  by (rule simulation_fills_ledger [OF counter_contract _ _ searching_fit_contract]) simp_all

text \<open>
  One creature is too few: with a single creature and at least one battle, the loop that draws a
  different opponent never ends, whatever the generator does.
\<close>

theorem simulation_of_one_diverges:
  assumes "\<And>g. fst (index_draw R 0 g) = 0" and "0 < battles"
  shows "run_simulation fuel trainer R 1 steps battles l g = None"
proof -
  have r: "redraw n R 0 0 0 g = None" for n g
  proof (induction n arbitrary: g)
    case (Suc n)
    from assms(1) [of g] Suc show ?case by (auto split: prod.splits)
  qed simp
  have "one_battle fuel R cs 0 mm g = None" for cs mm g
    using assms(1) [of g] assms(1) [of "snd (index_draw R 0 g)"] r
    by (auto simp: one_battle_def split_def Let_def)
  then have "battle_loop fuel R cs 0 battles mm g = None" for cs mm g
    using assms(2) by (cases battles) auto
  then show ?thesis by (simp add: run_simulation_def split_def Let_def)
qed

lemma simulation_of_one_diverges_witness:
  "\<forall>fuel. run_simulation fuel (\<lambda>g (p :: u8 Producer) q rate. searching_fit (\<lambda>n. 0)) counter_rng 1 2 1 new_ledger 0 = None"
  by (intro allI simulation_of_one_diverges) (simp_all add: counter_rng_def)

end
