(* ===== verification/Hatching.thy ===== *)
theory Hatching
  imports Prelude
begin

text \<open>
  Creature genesis (\<open>include/neuropet/hatching.hpp\<close>): the body plan derived from a seed
  and the SplitMix64 stream of initial weights. \<open>EVP_sha3_256\<close> of OpenSSL is the
  argument \<open>sha3\<close>; what the code relies on is that a digest has 32 bytes.
  \<open>std::array\<close> values are lists of the array's length.
\<close>

section \<open>Topology\<close>

record HatchTopology =
  sensor_count :: u8
  append_count :: u8
  sensor_size :: "u8 list"
  append_size :: "u8 list"

definition keccak256_bytes :: "(u8 list \<Rightarrow> u8 list) \<Rightarrow> u8 list \<Rightarrow> u8 list" where
  "keccak256_bytes sha3 data = sha3 data"

definition SIZE_TABLE :: "u8 list" where
  "SIZE_TABLE = [32, 48, 64, 96]"

definition derive_topology :: "(u8 list \<Rightarrow> u8 list) \<Rightarrow> u8 list \<Rightarrow> HatchTopology" where
  "derive_topology sha3 seed =
     (let bits = keccak256_bytes sha3 seed;
          sc = (ucast (bits ! 0) OR push_bit 8 (ucast (bits ! 1))) :: u16;
          ac = (ucast (bits ! 2) OR push_bit 8 (ucast (bits ! 3))) :: u16
      in \<lparr>sensor_count = ucast (1 + sc mod 4),
          append_count = ucast (1 + ac mod 4),
          sensor_size = map (\<lambda>i. SIZE_TABLE ! unat (bits ! (4 + 2 * i) AND 3)) [0..<4],
          append_size = map (\<lambda>i. SIZE_TABLE ! unat (bits ! (20 + 2 * i) AND 3)) [0..<4]\<rparr>)"

section \<open>Weights\<close>

definition splitmix64 :: "u64 \<Rightarrow> u64 \<times> u64" where
  \<comment> \<open>the output and the advanced state\<close>
  "splitmix64 state =
     (let s = state + 0x9E3779B97F4A7C15;
          z1 = (s XOR drop_bit 30 s) * 0xBF58476D1CE4E5B9;
          z2 = (z1 XOR drop_bit 27 z1) * 0x94D049BB133111EB
      in (z2 XOR drop_bit 31 z2, s))"

definition next_weight :: "u64 \<Rightarrow> i8 \<times> u64" where
  "next_weight state =
     (let (r, s) = splitmix64 state in (ucast (drop_bit 2 r mod 17 - 8), s))"

fun weights_from :: "nat \<Rightarrow> u64 \<Rightarrow> i8 list" where
  "weights_from 0 state = []"
| "weights_from (Suc n) state = (let (w, s) = next_weight state in w # weights_from n s)"

definition generate_genesis_weights :: "nat \<Rightarrow> u64 \<Rightarrow> i8 list" where
  "generate_genesis_weights count seed = weights_from count seed"

section \<open>The mixer is a permutation\<close>

lemma xor_shift_zero:
  fixes d :: "'a::len word"
  assumes "0 < k" and "d XOR drop_bit k d = 0"
  shows "d = 0"
proof -
  have e: "drop_bit k d = d" using assms(2) by (metis xor.assoc xor.right_neutral xor_self_eq)
  have i: "drop_bit (k * m) d = d" for m
    by (induction m) (use e in \<open>auto simp: drop_bit_drop_bit [symmetric]\<close>)
  have "drop_bit (k * LENGTH('a)) d = 0"
    using assms(1) by (intro bit_word_eqI) (auto simp: bit_simps dest!: bit_imp_le_length)
  with i show ?thesis by metis
qed

lemma xor_shift_inj:
  fixes x y :: "'a::len word"
  assumes "0 < k" and "x XOR drop_bit k x = y XOR drop_bit k y"
  shows "x = y"
proof -
  have "(x XOR y) XOR drop_bit k (x XOR y) = (x XOR drop_bit k x) XOR (y XOR drop_bit k y)"
    by (simp add: drop_bit_xor xor.assoc xor.left_commute)
  then have "(x XOR y) XOR drop_bit k (x XOR y) = 0" by (simp add: assms(2))
  then have "x XOR y = 0" using assms(1) by (rule xor_shift_zero [rotated])
  moreover have "x = (x XOR y) XOR y" by (simp add: xor.assoc)
  ultimately show ?thesis by simp
qed

lemma mult_unit_inj:
  fixes a b :: "'a::len word"
  assumes "c * i = 1" and "a * c = b * c"
  shows "a = b"
  by (metis assms mult.assoc mult.right_neutral)


definition mix :: "u64 \<Rightarrow> u64" where
  "mix s = fst (splitmix64 (s - 0x9E3779B97F4A7C15))"

lemma splitmix64_eq: "splitmix64 s = (mix (s + 0x9E3779B97F4A7C15), s + 0x9E3779B97F4A7C15)"
  by (simp add: mix_def splitmix64_def Let_def)

lemma mix_inj: "mix x = mix y \<Longrightarrow> x = y"
proof -
  assume eq: "mix x = mix y"
  have u1: "(0xBF58476D1CE4E5B9 :: u64) * 0x96de1b173f119089 = 1" by simp
  have u2: "(0x94D049BB133111EB :: u64) * 0x319642b2d24d8ec3 = 1" by simp
  define f where "f z = (z XOR drop_bit 30 z) * 0xBF58476D1CE4E5B9" for z :: u64
  define g where "g z = (z XOR drop_bit 27 z) * 0x94D049BB133111EB" for z :: u64
  have "mix z = g (f z) XOR drop_bit 31 (g (f z))" for z
    by (simp add: mix_def splitmix64_def Let_def f_def g_def)
  with eq have "g (f x) = g (f y)" using xor_shift_inj [of 31 "g (f x)" "g (f y)"] by simp
  then have "f x XOR drop_bit 27 (f x) = f y XOR drop_bit 27 (f y)"
    unfolding g_def by (rule mult_unit_inj [OF u2])
  then have "f x = f y" by (rule xor_shift_inj [rotated]) simp
  then have "x XOR drop_bit 30 x = y XOR drop_bit 30 y"
    unfolding f_def by (rule mult_unit_inj [OF u1])
  then show "x = y" by (rule xor_shift_inj [rotated]) simp
qed

text \<open>The stream in closed form: draw \<open>n\<close> mixes \<open>seed + (n + 1) * gamma\<close>.\<close>

fun splitmix_stream :: "nat \<Rightarrow> u64 \<Rightarrow> u64 list" where
  "splitmix_stream 0 s = []"
| "splitmix_stream (Suc n) s = (let (r, t) = splitmix64 s in r # splitmix_stream n t)"

lemma length_splitmix_stream [simp]: "length (splitmix_stream n s) = n"
  by (induction n arbitrary: s) (auto simp: splitmix64_eq)

lemma splitmix_stream_nth:
  "i < n \<Longrightarrow> splitmix_stream n s ! i = mix (s + of_nat (Suc i) * 0x9E3779B97F4A7C15)"
proof (induction n arbitrary: s i)
  case (Suc n)
  then show ?case by (cases i) (auto simp: splitmix64_eq algebra_simps)
qed simp

lemma of_nat_u64_inj: "i < 2 ^ 64 \<Longrightarrow> j < 2 ^ 64 \<Longrightarrow> (of_nat i :: u64) = of_nat j \<Longrightarrow> i = j"
proof -
  assume b: "i < 2 ^ 64" "j < 2 ^ 64" and "(of_nat i :: u64) = of_nat j"
  then have "unat (of_nat i :: u64) = unat (of_nat j :: u64)" by simp
  with b show "i = j" by (simp add: unsigned_of_nat take_bit_nat_eq_self)
qed

definition weight_of :: "u64 \<Rightarrow> i8" where
  "weight_of r = ucast (drop_bit 2 r mod 17 - 8)"

lemma weights_from_stream: "weights_from n s = map weight_of (splitmix_stream n s)"
  by (induction n arbitrary: s) (auto simp: next_weight_def weight_of_def splitmix64_eq)

lemma weight_of_range: "- 8 \<le> sint (weight_of r) \<and> sint (weight_of r) \<le> 8"
proof -
  define m where "m = drop_bit 2 r mod (17 :: u64)"
  have "unat m < 17" by (simp add: m_def unat_mod)
  moreover have "m = of_nat (unat m)" by simp
  ultimately obtain k where "m = of_nat k" "k < 17" by metis
  then have "k \<in> {0,1,2,3,4,5,6,7,8,9,10,11,12,13,14,15,16}"
    by (simp only: insert_iff empty_iff simp_thms) arith
  moreover have "(ucast (- 1 :: u64) :: i8) = - 1"
    by (rule bit_word_eqI) (simp add: bit_simps)
  ultimately show ?thesis
    unfolding weight_of_def m_def [symmetric] \<open>m = of_nat k\<close> by auto
qed

section \<open>Properties\<close>

text \<open>
  C33: every genesis weight lies in \<open>[-8, 8]\<close>, there are as many as requested, and a longer
  request with the same seed extends a shorter one.
\<close>

theorem genesis_weights_range:
  "length (generate_genesis_weights n seed) = n \<and>
   sint ` set (generate_genesis_weights n seed) \<subseteq> {- 8..8} \<and>
   take n (generate_genesis_weights (n + m) seed) = generate_genesis_weights n seed"
proof -
  have "take n (splitmix_stream (n + m) s) = splitmix_stream n s" for s
    by (rule nth_equalityI) (auto simp: splitmix_stream_nth)
  then show ?thesis
    using weight_of_range by (auto simp: generate_genesis_weights_def weights_from_stream take_map)
qed

text \<open>
  C32: SplitMix64 does not repeat: the first \<open>2 ^ 64\<close> outputs from any seed are pairwise
  different, so the generator behind the genesis weights has the full period of its state.
\<close>

theorem splitmix_distinct:
  assumes "n \<le> 2 ^ 64"
  shows "distinct (splitmix_stream n seed)"
proof -
  have "splitmix_stream n seed ! i \<noteq> splitmix_stream n seed ! j" if "i < n" "j < n" "i \<noteq> j" for i j
  proof
    assume "splitmix_stream n seed ! i = splitmix_stream n seed ! j"
    then have "of_nat (Suc i) * 0x9E3779B97F4A7C15 = of_nat (Suc j) * (0x9E3779B97F4A7C15 :: u64)"
      using that mix_inj by (simp only: splitmix_stream_nth) force
    moreover have "(0x9E3779B97F4A7C15 :: u64) * 0xf1de83e19937733d = 1" by simp
    ultimately have "of_nat (Suc i) = (of_nat (Suc j) :: u64)" using mult_unit_inj by blast
    then have "of_nat i = (of_nat j :: u64)" by simp
    with that assms of_nat_u64_inj [of i j] show False by auto
  qed
  then show ?thesis by (auto simp: distinct_conv_nth)
qed

lemma splitmix_distinct_witness: "(3::nat) \<le> 2 ^ 64 \<and> distinct (splitmix_stream 3 0x0001020304050607)"
proof
  show "(3::nat) \<le> 2 ^ 64" by simp
  then show "distinct (splitmix_stream 3 0x0001020304050607)" by (rule splitmix_distinct)
qed

text \<open>
  Whatever the digest, a hatched creature has one to four sensors, one to four appendages,
  and four slot sizes of each kind, all from the size table.
\<close>

theorem topology_bounds:
  "(let t = derive_topology sha3 seed in
     1 \<le> unat (sensor_count t) \<and> unat (sensor_count t) \<le> 4 \<and>
     1 \<le> unat (append_count t) \<and> unat (append_count t) \<le> 4 \<and>
     length (sensor_size t) = 4 \<and> length (append_size t) = 4 \<and>
     set (sensor_size t) \<union> set (append_size t) \<subseteq> set SIZE_TABLE)"
proof -
  have "1 \<le> unat (ucast (1 + c mod 4) :: u8) \<and> unat (ucast (1 + c mod 4) :: u8) \<le> 4" for c :: u16
  proof -
    have "unat (c mod 4) < 4" by (simp add: unat_mod)
    moreover have "c mod 4 = of_nat (unat (c mod 4))" by simp
    ultimately obtain k where "c mod 4 = of_nat k" "k < 4" by metis
    then have "k \<in> {0,1,2,3}" by auto
    then show ?thesis using \<open>c mod 4 = of_nat k\<close> by auto
  qed
  moreover have "SIZE_TABLE ! unat (b AND 3) \<in> set SIZE_TABLE" for b :: u8
  proof -
    have "unat (b AND 3) < 4" using word_and_le1 [of b 3] by (simp add: word_le_nat_alt)
    then show ?thesis by (intro nth_mem) (simp add: SIZE_TABLE_def)
  qed
  ultimately show ?thesis by (auto simp: derive_topology_def Let_def)
qed

lemma genesis_test_vector:
  "map sint (generate_genesis_weights 5 0x0001020304050607) = [- 4, - 7, 7, - 4, - 8]"
  by code_simp

end
