(* ===== verification/Traits.thy ===== *)
theory Traits
  imports Hatching Eth_Encoding
begin

text \<open>
  The packed visual traits of \<open>include/neuropet/traits.hpp\<close>: a body, up to four sensors
  and up to four appendages, each a 4-bit shape and a 12-bit HSV colour, in an \<open>unsigned
  __int128\<close>. A shift of a 128-bit value by 128 or more is undefined in C++;
  \<open>push_field\<close> and \<open>pop_field\<close> fault there.
\<close>

record HSV =
  hue :: u8
  sat :: u8
  bright :: u8

record VisualTraits =
  body_shape :: u8
  body_colour :: HSV
  sensor_shape :: "u8 list"
  sensor_colour :: "HSV list"
  appendage_shape :: "u8 list"
  appendage_colour :: "HSV list"
  sensors :: u8
  appendages :: u8

definition MAX_SENSORS :: nat where "MAX_SENSORS = 4"
definition MAX_APPENDAGES :: nat where "MAX_APPENDAGES = 4"

definition pack_hsv :: "HSV \<Rightarrow> u16" where
  "pack_hsv c = push_bit 8 (ucast (hue c AND 15)) OR push_bit 4 (ucast (sat c AND 15)) OR
     ucast (bright c AND 15)"

definition unpack_hsv :: "u16 \<Rightarrow> HSV" where
  "unpack_hsv p =
     \<lparr>hue = ucast (drop_bit 8 p AND 15), sat = ucast (drop_bit 4 p AND 15), bright = ucast (p AND 15)\<rparr>"

section \<open>The bit cursor\<close>

definition push_field :: "u32 \<Rightarrow> nat \<Rightarrow> u128 \<times> nat \<Rightarrow> (u128 \<times> nat) res" where
  "push_field value width = (\<lambda>(out, bits).
     if bits < 128
     then Inr (out OR push_bit bits (ucast value AND (push_bit width 1 - 1)), bits + width)
     else Inl Shift_Too_Wide)"

definition pop_field :: "u128 \<Rightarrow> nat \<Rightarrow> nat \<Rightarrow> (u32 \<times> nat) res" where
  "pop_field packed width bits =
     (if bits < 128
      then Inr (ucast (drop_bit bits packed AND (push_bit width 1 - 1)), bits + width)
      else Inl Shift_Too_Wide)"

definition push_slot :: "u8 \<Rightarrow> HSV \<Rightarrow> u128 \<times> nat \<Rightarrow> (u128 \<times> nat) res" where
  "push_slot shape colour st =
     rbind (push_field (ucast shape) 4 st) (push_field (ucast (pack_hsv colour)) 12)"

definition pack_traits :: "VisualTraits \<Rightarrow> u128 res" where
  "pack_traits t =
     rbind (push_slot (body_shape t) (body_colour t) (0, 0)) (\<lambda>st.
     rbind (rfold (\<lambda>i st. rbind (at (sensor_shape t) i) (\<lambda>sh. rbind (at (sensor_colour t) i) (\<lambda>co.
              push_slot sh co st))) [0..<min (unat (sensors t)) MAX_SENSORS] st) (\<lambda>st.
     rbind (rfold (\<lambda>i st. rbind (at (appendage_shape t) i) (\<lambda>sh. rbind (at (appendage_colour t) i) (\<lambda>co.
              push_slot sh co st))) [0..<min (unat (appendages t)) MAX_APPENDAGES] st) (\<lambda>st.
     Inr (fst st))))"

definition pop_slot :: "u128 \<Rightarrow> nat \<Rightarrow> ((u8 \<times> HSV) \<times> nat) res" where
  "pop_slot packed bits =
     rbind (pop_field packed 4 bits) (\<lambda>(sh, bits1).
     rbind (pop_field packed 12 bits1) (\<lambda>(co, bits2). Inr ((ucast sh, unpack_hsv (ucast co)), bits2)))"

definition black :: HSV where
  "black = \<lparr>hue = 0, sat = 0, bright = 0\<rparr>"

definition unpack_sensor :: "u128 \<Rightarrow> nat \<Rightarrow> VisualTraits \<times> nat \<Rightarrow> (VisualTraits \<times> nat) res" where
  \<comment> \<open>the body of the loop over the sensors\<close>
  "unpack_sensor packed i st =
     rbind (pop_slot packed (snd st)) (\<lambda>((sh, co), bits').
       Inr ((fst st)\<lparr>sensor_shape := (sensor_shape (fst st))[i := sh],
                    sensor_colour := (sensor_colour (fst st))[i := co]\<rparr>, bits'))"

definition unpack_appendage :: "u128 \<Rightarrow> nat \<Rightarrow> VisualTraits \<times> nat \<Rightarrow> (VisualTraits \<times> nat) res" where
  \<comment> \<open>the body of the loop over the appendages\<close>
  "unpack_appendage packed i st =
     rbind (pop_slot packed (snd st)) (\<lambda>((sh, co), bits').
       Inr ((fst st)\<lparr>appendage_shape := (appendage_shape (fst st))[i := sh],
                    appendage_colour := (appendage_colour (fst st))[i := co]\<rparr>, bits'))"

definition unpack_traits :: "u128 \<Rightarrow> u8 \<Rightarrow> u8 \<Rightarrow> VisualTraits res" where
  "unpack_traits packed sens apps =
     (let t = \<lparr>body_shape = 0, body_colour = black,
               sensor_shape = replicate MAX_SENSORS 0, sensor_colour = replicate MAX_SENSORS black,
               appendage_shape = replicate MAX_APPENDAGES 0,
               appendage_colour = replicate MAX_APPENDAGES black,
               sensors = sens, appendages = apps\<rparr> in
      rbind (pop_slot packed 0) (\<lambda>((sh, co), bits).
      rbind (rfold (unpack_sensor packed) [0..<min (unat sens) MAX_SENSORS] (t\<lparr>body_shape := sh, body_colour := co\<rparr>, bits)) (\<lambda>st.
      rbind (rfold (unpack_appendage packed) [0..<min (unat apps) MAX_APPENDAGES] st) (\<lambda>st.
      Inr (fst st)))))"

definition trait_name_hash :: "(u8 list \<Rightarrow> u8 list) \<Rightarrow> string \<Rightarrow> u8 list" where
  "trait_name_hash sha3 name = keccak256_bytes sha3 (map of_char name)"

definition traits_to_bytes :: "u128 \<Rightarrow> u8 list" where
  "traits_to_bytes v = map (\<lambda>k. ucast (drop_bit ((15 - k) * 8) v)) [0..<16]"

definition traits_hex :: "u128 \<Rightarrow> string" where
  "traits_hex v = to_hex (replicate 16 0 @ traits_to_bytes v)"

section \<open>HSV\<close>

definition hsv_ok :: "HSV \<Rightarrow> bool" where
  "hsv_ok c \<longleftrightarrow> hue c < 16 \<and> sat c < 16 \<and> bright c < 16"

lemma mask_15: "x AND 15 = take_bit 4 x" for x :: "'a::len word"
  by (simp add: take_bit_eq_mask mask_eq_exp_minus_1)

lemma mask_4095: "x AND 4095 = take_bit 12 x" for x :: "'a::len word"
  by (simp add: take_bit_eq_mask mask_eq_exp_minus_1)

lemma take_bit_u8: "x < 16 \<Longrightarrow> take_bit 4 x = x" for x :: u8
proof -
  assume "x < 16"
  then have "take_bit 4 (unat x) = unat x" by (simp add: word_less_nat_alt take_bit_nat_eq_self_iff)
  then show ?thesis by (metis unsigned_take_bit_eq word_unat_eq_iff)
qed

definition norm_hsv :: "HSV \<Rightarrow> HSV" where
  "norm_hsv c = \<lparr>hue = take_bit 4 (hue c), sat = take_bit 4 (sat c), bright = take_bit 4 (bright c)\<rparr>"

lemma norm_hsv_ok: "hsv_ok c \<Longrightarrow> norm_hsv c = c"
  by (cases c) (simp add: norm_hsv_def hsv_ok_def take_bit_u8)

lemma unpack_pack_hsv: "unpack_hsv (pack_hsv c) = norm_hsv c"
proof -
  have "ucast (drop_bit 8 (pack_hsv c) AND 15) = take_bit 4 (hue c)"
    by (rule bit_word_eqI) (auto simp: pack_hsv_def mask_15 bit_simps)
  moreover have "ucast (drop_bit 4 (pack_hsv c) AND 15) = take_bit 4 (sat c)"
    by (rule bit_word_eqI) (auto simp: pack_hsv_def mask_15 bit_simps)
  moreover have "ucast (pack_hsv c AND 15) = take_bit 4 (bright c)"
    by (rule bit_word_eqI) (auto simp: pack_hsv_def mask_15 bit_simps)
  ultimately show ?thesis by (simp add: unpack_hsv_def norm_hsv_def)
qed

lemma pack_hsv_12: "take_bit 12 (pack_hsv c) = pack_hsv c"
  by (rule bit_word_eqI) (auto simp: pack_hsv_def mask_15 bit_simps)

section \<open>Slots\<close>

text \<open>A shape and its colour take 16 bits; the traits are a row of slots, the first one lowest.\<close>

definition slot :: "u8 \<times> HSV \<Rightarrow> u128" where
  "slot x = take_bit 4 (ucast (fst x)) OR push_bit 4 (ucast (pack_hsv (snd x)))"

definition norm_slot :: "u8 \<times> HSV \<Rightarrow> u8 \<times> HSV" where
  "norm_slot x = (take_bit 4 (fst x), norm_hsv (snd x))"

definition decode_slot :: "u128 \<Rightarrow> u8 \<times> HSV" where
  "decode_slot w = (ucast (take_bit 4 w), unpack_hsv (ucast (take_bit 12 (drop_bit 4 w))))"

fun slots :: "(u8 \<times> HSV) list \<Rightarrow> u128" where
  "slots [] = 0"
| "slots (x # xs) = slot x OR push_bit 16 (slots xs)"

lemma field_masks: "push_bit 4 1 - 1 = (15 :: u128)" "push_bit 12 1 - 1 = (4095 :: u128)"
  by simp_all

lemma slot_16: "take_bit 16 (slot x) = slot x"
proof -
  have p: "bit (pack_hsv (snd x)) n \<Longrightarrow> n < 12" for n
    by (metis bit_take_bit_iff pack_hsv_12)
  show ?thesis
    by (rule bit_word_eqI) (auto simp: slot_def bit_simps dest: p)
qed

lemma decode_slot_take: "decode_slot (take_bit 16 w) = decode_slot w"
  by (simp add: decode_slot_def drop_bit_take_bit)

lemma decode_slot: "decode_slot (slot x) = norm_slot x"
proof -
  have "(ucast (take_bit 4 (slot x)) :: u8) = take_bit 4 (fst x)"
    by (rule bit_word_eqI) (auto simp: slot_def bit_simps)
  moreover have "ucast (take_bit 12 (drop_bit 4 (slot x))) = pack_hsv (snd x)"
    by (subst pack_hsv_12 [symmetric], rule bit_word_eqI) (auto simp: slot_def bit_simps)
  ultimately show ?thesis
    by (simp add: decode_slot_def norm_slot_def unpack_pack_hsv)
qed

lemma take_slots: "take_bit 16 (slots (x # xs)) = slot x"
  by (simp add: take_bit_or take_bit_push_bit slot_16)

lemma slots_bits: "length xs \<le> 8 \<Longrightarrow> take_bit (16 * length xs) (slots xs) = slots xs"
proof (induction xs)
  case (Cons x xs)
  have b: "\<not> n < 16 * length xs \<Longrightarrow> \<not> bit (slots xs) n" for n
    using Cons by (metis Suc_leD bit_take_bit_iff length_Cons)
  have s: "16 \<le> n \<Longrightarrow> \<not> bit (slot x) n" for n
    by (metis bit_take_bit_iff slot_16 not_less)
  show ?case
  proof (rule bit_word_eqI)
    fix n assume "n < LENGTH(128)"
    show "bit (take_bit (16 * length (x # xs)) (slots (x # xs))) n = bit (slots (x # xs)) n"
    proof (cases "n < 16 + 16 * length xs")
      case False
      then have "\<not> n - 16 < 16 * length xs" "16 \<le> n" by linarith+
      with b [of "n - 16"] s [of n] show ?thesis by (simp add: bit_simps)
    qed (simp add: bit_simps)
  qed
qed simp

lemma drop_slots: "k \<le> length xs \<Longrightarrow> length xs \<le> 8 \<Longrightarrow> drop_bit (16 * k) (slots xs) = slots (drop k xs)"
proof (induction xs arbitrary: k)
  case (Cons x xs)
  have b: "bit (slots xs) n \<Longrightarrow> n < 16 * length xs" for n
    using slots_bits [of xs] Cons.prems by (metis Suc_leD bit_take_bit_iff length_Cons)
  have "drop_bit 16 (slots (x # xs)) = slots xs"
  proof (rule bit_word_eqI)
    fix n assume "n < LENGTH(128)"
    have "\<not> bit (slot x) (16 + n)" by (metis bit_take_bit_iff not_add_less1 slot_16)
    with b [of n] Cons.prems show "bit (drop_bit 16 (slots (x # xs))) n = bit (slots xs) n"
      by (auto simp: bit_simps)
  qed
  note d = this
  show ?case
  proof (cases k)
    case (Suc m)
    have "drop_bit (16 * k) (slots (x # xs)) = drop_bit (16 * m) (drop_bit 16 (slots (x # xs)))"
      by (simp only: Suc drop_bit_drop_bit mult_Suc_right add.commute)
    with d Suc Cons show ?thesis by simp
  qed simp
qed simp

lemma decode_slots:
  "k < length xs \<Longrightarrow> length xs \<le> 8 \<Longrightarrow> decode_slot (drop_bit (16 * k) (slots xs)) = norm_slot (xs ! k)"
  using drop_slots [of k xs] take_slots [of "xs ! k" "drop (Suc k) xs"]
  by (metis Cons_nth_drop_Suc decode_slot decode_slot_take less_imp_le)

lemma push_slot_eq:
  assumes "b + 16 \<le> 128"
  shows "push_slot sh co (out, b) = Inr (out OR push_bit b (slot (sh, co)), b + 16)"
proof -
  have "(ucast (ucast sh :: u32) :: u128) AND 15 = take_bit 4 (ucast sh)"
    by (rule bit_word_eqI) (auto simp: mask_15 bit_simps)
  moreover have "(ucast (ucast (pack_hsv co) :: u32) :: u128) AND 4095 = ucast (pack_hsv co)"
    by (subst (2) pack_hsv_12 [symmetric], rule bit_word_eqI) (auto simp: mask_4095 bit_simps)
  ultimately show ?thesis
    using assms
    by (simp add: push_slot_def push_field_def field_masks slot_def push_bit_or or.assoc)
qed

lemma push_slots:
  "rfold (\<lambda>x. push_slot (fst x) (snd x)) xs (out, b) =
     (if b + 16 * length xs \<le> 128 \<or> xs = [] then Inr (out OR push_bit b (slots xs), b + 16 * length xs)
      else Inl Shift_Too_Wide)"
  if "16 dvd b" "b \<le> 128"
  using that
proof (induction xs arbitrary: out b)
  case (Cons x xs)
  show ?case
  proof (cases "b + 16 \<le> 128")
    case True
    then show ?thesis
      using Cons by (auto simp: push_slot_eq push_bit_or or.assoc add.commute split: if_splits)
  next
    case False
    with Cons.prems have "b = 128" by (auto elim!: dvdE)
    then show ?thesis by (simp add: push_slot_def push_field_def)
  qed
qed simp


section \<open>Packing and unpacking whole creatures\<close>

definition active :: "nat \<Rightarrow> u8 list \<Rightarrow> HSV list \<Rightarrow> (u8 \<times> HSV) list" where
  "active n shapes colours = take n (zip shapes colours)"

definition n_sensors :: "VisualTraits \<Rightarrow> nat" where
  "n_sensors t = min (unat (sensors t)) MAX_SENSORS"

definition n_appendages :: "VisualTraits \<Rightarrow> nat" where
  "n_appendages t = min (unat (appendages t)) MAX_APPENDAGES"

definition all_slots :: "VisualTraits \<Rightarrow> (u8 \<times> HSV) list" where
  "all_slots t = (body_shape t, body_colour t) #
     active (n_sensors t) (sensor_shape t) (sensor_colour t) @
     active (n_appendages t) (appendage_shape t) (appendage_colour t)"

definition arrays_ok :: "VisualTraits \<Rightarrow> bool" where
  "arrays_ok t \<longleftrightarrow> length (sensor_shape t) = MAX_SENSORS \<and> length (sensor_colour t) = MAX_SENSORS \<and>
     length (appendage_shape t) = MAX_APPENDAGES \<and> length (appendage_colour t) = MAX_APPENDAGES"

lemma n_bounds: "n_sensors t \<le> 4" "n_appendages t \<le> 4"
  by (simp_all add: n_sensors_def n_appendages_def MAX_SENSORS_def MAX_APPENDAGES_def)

lemma length_all_slots:
  "arrays_ok t \<Longrightarrow> length (all_slots t) = 1 + n_sensors t + n_appendages t"
  by (simp add: all_slots_def active_def arrays_ok_def n_sensors_def n_appendages_def)

lemma push_active:
  assumes "length shapes = 4" and "length colours = 4" and "n \<le> 4"
  shows "rfold (\<lambda>i st. rbind (at shapes i) (\<lambda>sh. rbind (at colours i) (\<lambda>co. push_slot sh co st))) [0..<n] st
    = rfold (\<lambda>x. push_slot (fst x) (snd x)) (active n shapes colours) st"
proof -
  have "rfold (\<lambda>i st. rbind (at shapes i) (\<lambda>sh. rbind (at colours i) (\<lambda>co. push_slot sh co st))) [0..<n] st
    = rfold (\<lambda>i. (\<lambda>x. push_slot (fst x) (snd x)) (zip shapes colours ! i)) [0..<n] st"
    using assms by (intro rfold_cong) auto
  also have "\<dots> = rfold (\<lambda>x. push_slot (fst x) (snd x)) (active n shapes colours) st"
    unfolding active_def by (rule rfold_nth) (use assms in simp)
  finally show ?thesis .
qed

lemma pack_traits_slots:
  assumes "arrays_ok t"
  shows "pack_traits t =
    (if length (all_slots t) \<le> 8 then Inr (slots (all_slots t)) else Inl Shift_Too_Wide)"
proof -
  let ?ps = "rfold (\<lambda>x. push_slot (fst x) (snd x))"
  have "pack_traits t = rbind (?ps (all_slots t) (0, 0)) (\<lambda>st. Inr (fst st))"
    using assms n_bounds
    by (simp add: pack_traits_def all_slots_def rfold_append push_active arrays_ok_def MAX_SENSORS_def
        MAX_APPENDAGES_def n_sensors_def n_appendages_def rbind_assoc)
  also have "\<dots> = (if length (all_slots t) \<le> 8 then Inr (slots (all_slots t)) else Inl Shift_Too_Wide)"
    by (subst push_slots) (auto simp: all_slots_def)
  finally show ?thesis .
qed

lemma pop_slot_eq:
  assumes "bits + 16 \<le> 128"
  shows "pop_slot packed bits = Inr (decode_slot (drop_bit bits packed), bits + 16)"
proof -
  have "(ucast (ucast (w AND 15) :: u32) :: u8) = ucast (take_bit 4 w)" for w :: u128
    by (rule bit_word_eqI) (auto simp: mask_15 bit_simps)
  moreover have "(ucast (ucast (w AND 4095) :: u32) :: u16) = ucast (take_bit 12 w)" for w :: u128
    by (rule bit_word_eqI) (auto simp: mask_4095 bit_simps)
  ultimately show ?thesis
    using assms by (simp add: pop_slot_def pop_field_def field_masks decode_slot_def drop_bit_drop_bit add.commute)
qed

definition fill :: "nat \<Rightarrow> nat \<Rightarrow> (nat \<Rightarrow> 'a) \<Rightarrow> 'a \<Rightarrow> 'a list" where
  \<comment> \<open>an array of \<open>n\<close> elements whose first \<open>k\<close> are given by \<open>f\<close> and whose others are \<open>z\<close>\<close>
  "fill n k f z = map f [0..<k] @ replicate (n - k) z"

lemma fill_0: "replicate n z = fill n 0 f z"
  by (simp add: fill_def)

lemma fill_update: "k < n \<Longrightarrow> (fill n k f z)[k := f k] = fill n (Suc k) f z"
  by (simp add: fill_def list_update_append Suc_diff_Suc [symmetric])


definition slot_at :: "u128 \<Rightarrow> nat \<Rightarrow> u8 \<times> HSV" where
  "slot_at packed k = decode_slot (drop_bit (16 * k) packed)"

lemma pop_slot_at:
  "k < 8 \<Longrightarrow> pop_slot packed (16 * k) = Inr (slot_at packed k, 16 * Suc k)"
  by (subst pop_slot_eq) (auto simp: slot_at_def)

definition decoded :: "u128 \<Rightarrow> u8 \<Rightarrow> u8 \<Rightarrow> nat \<Rightarrow> nat \<Rightarrow> VisualTraits" where
  "decoded packed sens apps n m =
     \<lparr>body_shape = fst (slot_at packed 0), body_colour = snd (slot_at packed 0),
      sensor_shape = fill 4 n (\<lambda>i. fst (slot_at packed (1 + i))) 0,
      sensor_colour = fill 4 n (\<lambda>i. snd (slot_at packed (1 + i))) black,
      appendage_shape = fill 4 m (\<lambda>i. fst (slot_at packed (1 + n + i))) 0,
      appendage_colour = fill 4 m (\<lambda>i. snd (slot_at packed (1 + n + i))) black,
      sensors = sens, appendages = apps\<rparr>"

lemma decoded_0: "decoded packed sens apps n 0 = (decoded packed sens apps n 0)
    \<lparr>appendage_shape := replicate 4 0, appendage_colour := replicate 4 black\<rparr>"
  by (simp add: decoded_def fill_def)

lemma decoded_Suc_sensor:
  "n < 4 \<Longrightarrow> (decoded packed sens apps n 0)
     \<lparr>sensor_shape := (sensor_shape (decoded packed sens apps n 0))[n := fst (slot_at packed (1 + n))],
      sensor_colour := (sensor_colour (decoded packed sens apps n 0))[n := snd (slot_at packed (1 + n))]\<rparr>
   = decoded packed sens apps (Suc n) 0"
  using fill_update [of n 4 "\<lambda>i. fst (slot_at packed (1 + i))" 0]
    fill_update [of n 4 "\<lambda>i. snd (slot_at packed (1 + i))" black]
  by (simp add: decoded_def) (simp add: fill_def)

lemma decoded_Suc_appendage:
  "m < 4 \<Longrightarrow> (decoded packed sens apps n m)
     \<lparr>appendage_shape := (appendage_shape (decoded packed sens apps n m))[m := fst (slot_at packed (1 + n + m))],
      appendage_colour := (appendage_colour (decoded packed sens apps n m))[m := snd (slot_at packed (1 + n + m))]\<rparr>
   = decoded packed sens apps n (Suc m)"
  using fill_update [of m 4 "\<lambda>i. fst (slot_at packed (1 + n + i))" 0]
    fill_update [of m 4 "\<lambda>i. snd (slot_at packed (1 + n + i))" black]
  by (simp add: decoded_def)

lemma unpack_traits_eq:
  fixes sens apps :: u8
  defines "n \<equiv> min (unat sens) MAX_SENSORS" and "m \<equiv> min (unat apps) MAX_APPENDAGES"
  assumes "n + m < 8"
  shows "unpack_traits packed sens apps = Inr (decoded packed sens apps n m)"
proof -
  let ?D = "decoded packed sens apps"
  have nm: "n \<le> 4" "m \<le> 4" by (simp_all add: n_def m_def MAX_SENSORS_def MAX_APPENDAGES_def)
  have S: "ensures (rfold (unpack_sensor packed) [0..<n] (?D 0 0, 16)) (\<lambda>st. st = (?D n 0, 16 * (1 + n)))"
  proof (rule rfold_upt [where P = "\<lambda>i st. st = (?D i 0, 16 * (1 + i))"])
    fix i st assume "i < n" and st: "st = (?D i 0, 16 * (1 + i))"
    then show "ensures (unpack_sensor packed i st) (\<lambda>st. st = (?D (Suc i) 0, 16 * (1 + Suc i)))"
      using nm pop_slot_at [of "1 + i" packed] decoded_Suc_sensor [of i packed sens apps]
      by (simp add: unpack_sensor_def case_prod_beta)
  qed simp
  have A: "ensures (rfold (unpack_appendage packed) [0..<m] (?D n 0, 16 * (1 + n)))
      (\<lambda>st. st = (?D n m, 16 * (1 + n + m)))"
  proof (rule rfold_upt [where P = "\<lambda>i st. st = (?D n i, 16 * (1 + n + i))"])
    fix i st assume "i < m" and st: "st = (?D n i, 16 * (1 + n + i))"
    then show "ensures (unpack_appendage packed i st) (\<lambda>st. st = (?D n (Suc i), 16 * (1 + n + Suc i)))"
      using nm assms(3) pop_slot_at [of "1 + n + i" packed] decoded_Suc_appendage [of i packed sens apps n]
      by (simp add: unpack_appendage_def case_prod_beta)
  qed simp
  have body: "\<lparr>body_shape = fst (slot_at packed 0), body_colour = snd (slot_at packed 0),
      sensor_shape = replicate MAX_SENSORS 0, sensor_colour = replicate MAX_SENSORS black,
      appendage_shape = replicate MAX_APPENDAGES 0, appendage_colour = replicate MAX_APPENDAGES black,
      sensors = sens, appendages = apps\<rparr> = ?D 0 0"
    by (simp add: decoded_def fill_def MAX_SENSORS_def MAX_APPENDAGES_def)
  have "unpack_traits packed sens apps =
      rbind (rfold (unpack_sensor packed) [0..<n] (?D 0 0, 16)) (\<lambda>st.
      rbind (rfold (unpack_appendage packed) [0..<m] st) (\<lambda>st. Inr (fst st)))"
    using pop_slot_at [of 0 packed] body
    by (simp add: unpack_traits_def Let_def n_def m_def case_prod_beta)
  then show ?thesis using S A by (auto simp: ensures_iff)
qed

section \<open>Properties\<close>

definition traits_ok :: "VisualTraits \<Rightarrow> bool" where
  "traits_ok t \<longleftrightarrow> arrays_ok t \<and>
     list_all (\<lambda>(sh, co). sh < 16 \<and> hsv_ok co) (all_slots t) \<and>
     drop (n_sensors t) (sensor_shape t) = replicate (4 - n_sensors t) 0 \<and>
     drop (n_sensors t) (sensor_colour t) = replicate (4 - n_sensors t) black \<and>
     drop (n_appendages t) (appendage_shape t) = replicate (4 - n_appendages t) 0 \<and>
     drop (n_appendages t) (appendage_colour t) = replicate (4 - n_appendages t) black"

lemma norm_slot_ok: "sh < 16 \<Longrightarrow> hsv_ok co \<Longrightarrow> norm_slot (sh, co) = (sh, co)"
  by (simp add: norm_slot_def norm_hsv_ok take_bit_u8)

lemma fill_eq:
  assumes "length xs = 4" and "k \<le> 4" and "\<And>i. i < k \<Longrightarrow> f i = xs ! i" and "drop k xs = replicate (4 - k) z"
  shows "fill 4 k f z = xs"
proof -
  have "map f [0..<k] = take k xs"
    using assms(1-3) by (intro nth_equalityI) auto
  with assms(4) show ?thesis by (metis append_take_drop_id fill_def)
qed

lemma all_slots_nth:
  assumes "arrays_ok t"
  shows "all_slots t ! 0 = (body_shape t, body_colour t)"
    and "i < n_sensors t \<Longrightarrow> all_slots t ! (1 + i) = (sensor_shape t ! i, sensor_colour t ! i)"
    and "i < n_appendages t \<Longrightarrow>
      all_slots t ! (1 + n_sensors t + i) = (appendage_shape t ! i, appendage_colour t ! i)"
  using assms n_bounds [of t]
  by (auto simp: all_slots_def active_def arrays_ok_def nth_append MAX_SENSORS_def MAX_APPENDAGES_def)


text \<open>
  C31: traits survive the packing. For a well-formed creature (nibble-sized components, unused
  slots zero) with at most seven active sensors and appendages, \<open>pack_traits\<close> succeeds and
  \<open>unpack_traits\<close> gives the same traits back.
\<close>

theorem traits_roundtrip:
  assumes "traits_ok t" and "n_sensors t + n_appendages t < 8"
  shows "\<exists>p. pack_traits t = Inr p \<and> unpack_traits p (sensors t) (appendages t) = Inr t"
proof -
  let ?xs = "all_slots t" and ?p = "slots (all_slots t)"
  have arr: "arrays_ok t" using assms(1) by (simp add: traits_ok_def)
  have len: "length ?xs = 1 + n_sensors t + n_appendages t" by (rule length_all_slots [OF arr])
  have at: "slot_at ?p k = ?xs ! k" if "k < length ?xs" for k
  proof -
    have "?xs ! k \<in> set ?xs" using that by simp
    moreover have "\<forall>x\<in>set ?xs. norm_slot x = x"
      using assms(1) norm_slot_ok by (auto simp: traits_ok_def list_all_iff)
    ultimately have "norm_slot (?xs ! k) = ?xs ! k" by blast
    then show ?thesis
      using decode_slots [OF that] assms(2) len by (simp add: slot_at_def)
  qed
  have nths: "slot_at ?p 0 = (body_shape t, body_colour t)"
    "\<And>i. i < n_sensors t \<Longrightarrow> slot_at ?p (1 + i) = (sensor_shape t ! i, sensor_colour t ! i)"
    "\<And>i. i < n_appendages t \<Longrightarrow> slot_at ?p (1 + n_sensors t + i) = (appendage_shape t ! i, appendage_colour t ! i)"
    using all_slots_nth [OF arr] at len by auto
  have ok: "drop (n_sensors t) (sensor_shape t) = replicate (4 - n_sensors t) 0"
    "drop (n_sensors t) (sensor_colour t) = replicate (4 - n_sensors t) black"
    "drop (n_appendages t) (appendage_shape t) = replicate (4 - n_appendages t) 0"
    "drop (n_appendages t) (appendage_colour t) = replicate (4 - n_appendages t) black"
    and l: "length (sensor_shape t) = 4" "length (sensor_colour t) = 4"
    "length (appendage_shape t) = 4" "length (appendage_colour t) = 4"
    using assms(1) by (auto simp: traits_ok_def arrays_ok_def MAX_SENSORS_def MAX_APPENDAGES_def)
  have "decoded ?p (sensors t) (appendages t) (n_sensors t) (n_appendages t) = t"
    using nths ok l n_bounds [of t]
    by (cases t) (auto simp: decoded_def intro!: fill_eq)
  moreover have "pack_traits t = Inr ?p"
    using pack_traits_slots [OF arr] len assms(2) by simp
  ultimately show ?thesis
    using unpack_traits_eq [of "sensors t" "appendages t" ?p] assms(2)
    by (simp add: n_sensors_def n_appendages_def)
qed

definition flare_drake :: VisualTraits where
  "flare_drake = \<lparr>body_shape = 3, body_colour = \<lparr>hue = 1, sat = 2, bright = 3\<rparr>,
     sensor_shape = [4, 5, 0, 0],
     sensor_colour = [\<lparr>hue = 4, sat = 5, bright = 6\<rparr>, \<lparr>hue = 6, sat = 7, bright = 8\<rparr>, black, black],
     appendage_shape = [2, 0, 0, 0],
     appendage_colour = [\<lparr>hue = 8, sat = 9, bright = 10\<rparr>, black, black, black],
     sensors = 2, appendages = 1\<rparr>"

lemma traits_roundtrip_witness:
  "\<exists>p. pack_traits flare_drake = Inr p \<and>
     unpack_traits p (sensors flare_drake) (appendages flare_drake) = Inr flare_drake"
proof (rule traits_roundtrip)
  show "traits_ok flare_drake" "n_sensors flare_drake + n_appendages flare_drake < 8" by code_simp+
qed

text \<open>
  A fully developed creature does not fit. With four (or more) sensors and four (or more)
  appendages the nine slots need 144 bits, the last shifts are by 128 and 132 bits, and packing
  is undefined behaviour; in every other case it succeeds.
\<close>

theorem traits_overflow:
  assumes "arrays_ok t"
  shows "pack_traits t = Inl Shift_Too_Wide \<longleftrightarrow> 4 \<le> unat (sensors t) \<and> 4 \<le> unat (appendages t)"
proof -
  have "1 + n_sensors t + n_appendages t \<le> 8 \<longleftrightarrow> \<not> (4 \<le> unat (sensors t) \<and> 4 \<le> unat (appendages t))"
    unfolding n_sensors_def n_appendages_def MAX_SENSORS_def MAX_APPENDAGES_def by linarith
  with pack_traits_slots [OF assms] length_all_slots [OF assms] show ?thesis by auto
qed

lemma traits_overflow_witness:
  "pack_traits (flare_drake\<lparr>sensors := 4, appendages := 4\<rparr>) = Inl Shift_Too_Wide"
proof -
  have "arrays_ok (flare_drake\<lparr>sensors := 4, appendages := 4\<rparr>)"
    by (simp add: flare_drake_def arrays_ok_def MAX_SENSORS_def MAX_APPENDAGES_def)
  from traits_overflow [OF this] show ?thesis by simp
qed

text \<open>
  \<open>traits_hex\<close> prints the packed value as one 256-bit big-endian word: 64 hex digits that
  read back as the value.
\<close>

theorem traits_hex_word: "abi_word (traits_hex v) (unat v)"
proof -
  have "be_val (traits_to_bytes v) = unat v"
    using be_val_bytes [of 16 v] unat_bound [of v] by (simp add: traits_to_bytes_def)
  moreover have "length (traits_to_bytes v) = 16" by (simp add: traits_to_bytes_def)
  ultimately show ?thesis
    by (simp add: abi_word_def traits_hex_def be_val_append del: to_hex_simps)
qed

end
