(* ===== verification/Async_Matmul.thy ===== *)
theory Async_Matmul
  imports Training "HOL-Library.Sublist"
begin

text \<open>
  \<open>int8_matmul_gpu_async\<close> of \<open>int8_kernel.hpp\<close>: a multiply as a task of
  the dispatch queue. The task holds copies of the two operands and a reference to the result
  vector, so the client's vectors are a memory, a job is the captured copies with the index of its
  result, and a step of the composed system is an action of the client thread or a step of the
  queue, in which a finished job has written its product. A future is ready once its job is among
  the finished ones. The worker writes result vectors without a lock, so an access of the client to
  the result of a job whose future it has not waited for is a data race: the step then has no state
  (\<open>None\<close>), as has the fault of a job.
\<close>

section \<open>Jobs\<close>

type_synonym memory = "nat \<Rightarrow> i8 list"

record job =
  left_matrix :: "i8 list"
  right_matrix :: "i8 list"
  target :: nat
  rows :: nat
  columns :: nat
  inner :: nat

definition int8_matmul_gpu_async :: "memory \<Rightarrow> nat \<Rightarrow> nat \<Rightarrow> nat \<Rightarrow> nat \<Rightarrow> nat \<Rightarrow> nat \<Rightarrow> job" where
  \<comment> \<open>what the lambda captures: \<open>A\<close> and \<open>B\<close> by value, \<open>C\<close> by reference\<close>
  "int8_matmul_gpu_async mem A B C M N K =
     \<lparr>left_matrix = mem A, right_matrix = mem B, target = C, rows = M, columns = N, inner = K\<rparr>"

definition run_job :: "multiply \<Rightarrow> job \<Rightarrow> memory \<Rightarrow> memory res option" where
  "run_job mult j mem =
     continue_with (mult (left_matrix j) (right_matrix j) (rows j) (columns j) (inner j))
       (\<lambda>out. Some (Inr (mem(target j := out))))"

section \<open>The client, the queue and its worker\<close>

text \<open>
  The client is one thread, or several that order their accesses among themselves. Its actions
  name vectors: it submits a multiply, stores into a vector (destroying one is such a store),
  reads one, or waits for the future of its \<open>i\<close>-th multiply.
\<close>

datatype action = Multiply nat nat nat nat nat nat | Store nat "i8 list" | Read nat | Wait nat

record async =
  jobs :: "job dispatch"
  mem :: memory
  awaited :: "nat set"

definition async_init :: "memory \<Rightarrow> async" where
  "async_init m = \<lparr>jobs = dispatch_init, mem = m, awaited = {}\<rparr>"

definition unawaited :: "async \<Rightarrow> nat \<Rightarrow> bool" where
  \<comment> \<open>the vector is the result of a multiply whose future has not been waited for\<close>
  "unawaited s X \<longleftrightarrow> (\<exists>i<length (submitted (jobs s)). target (submitted (jobs s) ! i) = X \<and> i \<notin> awaited s)"

fun touches :: "action \<Rightarrow> nat set" where
  \<comment> \<open>the vectors the client thread itself reads or writes\<close>
  "touches (Multiply A B C M N K) = {A, B}"
| "touches (Store X v) = {X}"
| "touches (Read X) = {X}"
| "touches (Wait i) = {}"

definition races :: "async \<Rightarrow> action \<Rightarrow> bool" where
  "races s a \<longleftrightarrow> (\<exists>X\<in>touches a. unawaited s X)"

inductive async_step :: "multiply \<Rightarrow> async \<Rightarrow> action option \<Rightarrow> async option \<Rightarrow> bool" for mult where
  race: "races s a \<Longrightarrow> async_step mult s (Some a) None"
| submit: "\<not> races s (Multiply A B C M N K) \<Longrightarrow> dispatch_step (jobs s) q \<Longrightarrow>
     submitted q = submitted (jobs s) @ [int8_matmul_gpu_async (mem s) A B C M N K] \<Longrightarrow>
     async_step mult s (Some (Multiply A B C M N K)) (Some (s\<lparr>jobs := q\<rparr>))"
| store: "\<not> races s (Store X v) \<Longrightarrow> async_step mult s (Some (Store X v)) (Some (s\<lparr>mem := (mem s)(X := v)\<rparr>))"
| read: "\<not> races s (Read X) \<Longrightarrow> async_step mult s (Some (Read X)) (Some s)"
| await: "i < length (finished (jobs s)) \<Longrightarrow> async_step mult s (Some (Wait i)) (Some (s\<lparr>awaited := insert i (awaited s)\<rparr>))"
| silent: "dispatch_step (jobs s) q \<Longrightarrow> submitted q = submitted (jobs s) \<Longrightarrow> finished q = finished (jobs s) \<Longrightarrow>
     async_step mult s None (Some (s\<lparr>jobs := q\<rparr>))"
| complete: "dispatch_step (jobs s) q \<Longrightarrow> finished q = finished (jobs s) @ [j] \<Longrightarrow>
     run_job mult j (mem s) = Some (Inr m) \<Longrightarrow> async_step mult s None (Some (s\<lparr>jobs := q, mem := m\<rparr>))"
| crash: "dispatch_step (jobs s) q \<Longrightarrow> finished q = finished (jobs s) @ [j] \<Longrightarrow>
     run_job mult j (mem s) = Some (Inl e) \<Longrightarrow> async_step mult s None None"

inductive async_run :: "multiply \<Rightarrow> memory \<Rightarrow> action list \<Rightarrow> async \<Rightarrow> bool" for mult m where
  begins: "async_run mult m [] (async_init m)"
| acts: "async_run mult m as s \<Longrightarrow> async_step mult s (Some a) (Some t) \<Longrightarrow> async_run mult m (as @ [a]) t"
| moves: "async_run mult m as s \<Longrightarrow> async_step mult s None (Some t) \<Longrightarrow> async_run mult m as t"

inductive_cases async_crashE: "async_step mult s None None"

section \<open>The synchronous program\<close>

text \<open>
  What the same actions do without a queue: a multiply computes the saturated product of the
  current operands and stores it at once. \<open>sized\<close> says that each multiply finds operands of the
  announced sizes, with sums that fit 32 bits and no more columns than its tiles compute rightly.
\<close>

fun sync_step :: "action \<Rightarrow> memory \<Rightarrow> memory" where
  "sync_step (Multiply A B C M N K) m = m(C := matmul_ref (m A) (m B) M N K)"
| "sync_step (Store X v) m = m(X := v)"
| "sync_step (Read X) m = m"
| "sync_step (Wait i) m = m"

abbreviation sync_run :: "action list \<Rightarrow> memory \<Rightarrow> memory" where
  "sync_run \<equiv> fold sync_step"

fun sized_action :: "nat \<Rightarrow> action \<Rightarrow> memory \<Rightarrow> bool" where
  "sized_action cols (Multiply A B C M N K) m \<longleftrightarrow>
     length (m A) = M * K \<and> length (m B) = K * N \<and> K \<le> 131071 \<and> N \<le> cols \<and> M < 2 ^ 31"
| "sized_action cols a m \<longleftrightarrow> True"

fun sized :: "nat \<Rightarrow> action list \<Rightarrow> memory \<Rightarrow> bool" where
  "sized cols [] m \<longleftrightarrow> True"
| "sized cols (a # as) m \<longleftrightarrow> sized_action cols a m \<and> sized cols as (sync_step a m)"

lemma sized_append [simp]: "sized cols (as @ bs) m \<longleftrightarrow> sized cols as m \<and> sized cols bs (sync_run as m)"
  by (induction as arbitrary: m) auto

section \<open>What is still to be written\<close>

definition product_of :: "job \<Rightarrow> i8 list" where
  "product_of j = matmul_ref (left_matrix j) (right_matrix j) (rows j) (columns j) (inner j)"

definition store_product :: "job \<Rightarrow> memory \<Rightarrow> memory" where
  "store_product j m = m(target j := product_of j)"

definition job_ok :: "nat \<Rightarrow> job \<Rightarrow> bool" where
  "job_ok cols j \<longleftrightarrow> length (left_matrix j) = rows j * inner j \<and> length (right_matrix j) = inner j * columns j \<and>
     inner j \<le> 131071 \<and> columns j \<le> cols \<and> rows j < 2 ^ 31"

definition pending :: "'t dispatch \<Rightarrow> 't list" where
  "pending q = in_hand (worker q) @ tasks q"

lemma submitted_pending: "dispatch_inv q \<Longrightarrow> submitted q = finished q @ pending q"
  by (simp add: dispatch_inv_def pending_def)

lemma step_pending:
  assumes "dispatch_step q r" and "dispatch_inv q"
  shows "submitted r = submitted q @ js \<Longrightarrow> finished r = finished q @ ks \<Longrightarrow> pending q @ js = ks @ pending r"
  using submitted_pending [OF assms(2)] submitted_pending [OF dispatch_inv_step [OF assms]] by simp

lemma finished_grows: "dispatch_step s t \<Longrightarrow> finished t \<noteq> finished s \<Longrightarrow>
    \<exists>j. worker s = Running j \<and> finished t = finished s @ [j] \<and> submitted t = submitted s"
  by (erule dispatch_stepE) auto

lemma pending_unawaited:
  assumes "dispatch_inv (jobs s)" and "awaited s \<subseteq> {..<length (finished (jobs s))}" and "j \<in> set (pending (jobs s))"
  shows "unawaited s (target j)"
proof -
  obtain k where "k < length (pending (jobs s))" "pending (jobs s) ! k = j" using assms(3) by (auto simp: in_set_conv_nth)
  with assms(1,2) show ?thesis unfolding unawaited_def
    by (intro exI [of _ "length (finished (jobs s)) + k"]) (auto simp: submitted_pending nth_append)
qed

lemma products_elsewhere: "x \<notin> target ` set js \<Longrightarrow> fold store_product js m x = m x"
  by (induction js arbitrary: m) (auto simp: store_product_def)

lemma products_update: "x \<notin> target ` set js \<Longrightarrow> fold store_product js (m(x := v)) = (fold store_product js m)(x := v)"
proof (induction js arbitrary: m)
  case (Cons j js)
  then have "store_product j (m(x := v)) = (store_product j m)(x := v)" by (auto simp: store_product_def)
  moreover have "fold store_product js ((store_product j m)(x := v)) = (fold store_product js (store_product j m))(x := v)"
    using Cons.prems by (intro Cons.IH) simp
  ultimately show ?case by (simp only: fold_simps)
qed simp

definition simulates :: "nat \<Rightarrow> memory \<Rightarrow> async \<Rightarrow> bool" where
  \<comment> \<open>once the pending jobs have stored their products, the memory is that of the synchronous program\<close>
  "simulates cols m' s \<longleftrightarrow> dispatch_inv (jobs s) \<and> awaited s \<subseteq> {..<length (finished (jobs s))} \<and>
     list_all (job_ok cols) (pending (jobs s)) \<and> fold store_product (pending (jobs s)) (mem s) = m'"

lemma simulatesD:
  assumes "simulates cols m' s"
  shows "dispatch_inv (jobs s)" and "awaited s \<subseteq> {..<length (finished (jobs s))}"
    and "list_all (job_ok cols) (pending (jobs s))" and "fold store_product (pending (jobs s)) (mem s) = m'"
  using assms by (simp_all add: simulates_def)

lemma simulates_reads:
  assumes "simulates cols m' s" and "\<not> unawaited s X"
  shows "X \<notin> target ` set (pending (jobs s))" and "mem s X = m' X"
proof -
  note d = simulatesD [OF assms(1)]
  from pending_unawaited [OF d(1,2)] assms(2) show "X \<notin> target ` set (pending (jobs s))" by blast
  from products_elsewhere [OF this, of "mem s"] d(4) show "mem s X = m' X" by simp
qed

lemma simulates_act:
  assumes "async_step mult s (Some a) (Some t)" and "simulates cols m' s" and "sized_action cols a m'"
  shows "simulates cols (sync_step a m') t"
proof -
  note d = simulatesD [OF assms(2)]
  from assms(1) show ?thesis
  proof (cases rule: async_step.cases)
    case (submit A B C M N K q)
    let ?j = "int8_matmul_gpu_async (mem s) A B C M N K"
    have fin: "finished q = finished (jobs s)" using finished_grows [OF submit(4)] submit(5) by fastforce
    have p: "pending q = pending (jobs s) @ [?j]" using step_pending [OF submit(4) d(1) submit(5), of "[]"] fin by simp
    have ab: "mem s A = m' A" "mem s B = m' B"
      using submit(3) simulates_reads(2) [OF assms(2)] by (auto simp: races_def)
    with assms(3) submit(1) have "job_ok cols ?j" by (simp add: job_ok_def int8_matmul_gpu_async_def)
    moreover have "store_product ?j m' = sync_step a m'"
      by (simp add: submit(1) store_product_def product_of_def int8_matmul_gpu_async_def ab)
    ultimately show ?thesis
      using d dispatch_inv_step [OF submit(4) d(1)] by (simp add: simulates_def submit(2) p fin)
  next
    case (store X v)
    then have "\<not> unawaited s X" by (simp add: races_def)
    from products_update [OF simulates_reads(1) [OF assms(2) this]] d show ?thesis
      by (simp add: simulates_def store(1,2))
  qed (use d in \<open>auto simp: simulates_def\<close>)
qed

text \<open>What the queue relies on: a multiply that is right for every matrix up to \<open>cols\<close> columns.\<close>

locale matmul_service =
  fixes mult :: multiply and cols :: nat
  assumes mult_ok: "length A = M * K \<Longrightarrow> length B = K * N \<Longrightarrow> K \<le> 131071 \<Longrightarrow> N \<le> cols \<Longrightarrow> M < 2 ^ 31 \<Longrightarrow>
    mult A B M N K = Some (Inr (matmul_ref A B M N K))"
begin

lemma run_job_ok: "job_ok cols j \<Longrightarrow> run_job mult j m = Some (Inr (store_product j m))"
  by (simp add: run_job_def job_ok_def mult_ok store_product_def product_of_def)

lemma finishing:
  assumes "simulates cols m' s" and "dispatch_step (jobs s) q" and "finished q = finished (jobs s) @ [j]"
  shows "pending (jobs s) = j # pending q \<and> job_ok cols j"
proof -
  have "submitted q = submitted (jobs s)" using finished_grows [OF assms(2)] assms(3) by simp
  then have "pending (jobs s) = j # pending q"
    using step_pending [OF assms(2) simulatesD(1) [OF assms(1)], of "[]" "[j]"] assms(3) by simp
  with simulatesD(3) [OF assms(1)] show ?thesis by simp
qed

lemma simulates_move:
  assumes "async_step mult s None (Some t)" and "simulates cols m' s"
  shows "simulates cols m' t"
proof -
  note d = simulatesD [OF assms(2)]
  from assms(1) show ?thesis
  proof (cases rule: async_step.cases)
    case (silent q)
    then have "pending q = pending (jobs s)" using step_pending [OF silent(2) d(1), of "[]" "[]"] by simp
    with silent d dispatch_inv_step [OF silent(2) d(1)] show ?thesis by (simp add: simulates_def)
  next
    case (complete q j m)
    note f = finishing [OF assms(2) complete(2,3)]
    with complete(4) have "m = store_product j (mem s)" by (simp add: run_job_ok)
    with complete(1-3) f d dispatch_inv_step [OF complete(2) d(1)] show ?thesis by (auto simp: simulates_def)
  qed
qed

lemma simulates_run: "async_run mult m as s \<Longrightarrow> sized cols as m \<Longrightarrow> simulates cols (sync_run as m) s"
proof (induction rule: async_run.induct)
  case begins
  show ?case by (simp add: simulates_def async_init_def pending_def) (simp add: dispatch_init_def)
next
  case (acts as s a t)
  then show ?case using simulates_act [of mult s a t] by simp
qed (auto intro: simulates_move)

lemma no_crash: "simulates cols m' s \<Longrightarrow> \<not> async_step mult s None None"
  by (auto elim!: async_crashE dest: finishing simp: run_job_ok)

lemma drains:
  assumes "simulates cols m' s" and "stop (jobs s)" and "worker (jobs s) \<noteq> Exited"
  shows "\<exists>t. async_step mult s None (Some t)"
proof -
  obtain q where q: "dispatch_step (jobs s) q" using worker_moves [OF simulatesD(1) [OF assms(1)] assms(2,3)] by blast
  have sub: "submitted q = submitted (jobs s)" using stopped_step [OF q assms(2)] by simp
  show ?thesis
  proof (cases "finished q = finished (jobs s)")
    case True
    with q sub show ?thesis by (blast intro: silent)
  next
    case False
    with finished_grows [OF q] obtain j where j: "finished q = finished (jobs s) @ [j]" by blast
    with finishing [OF assms(1) q] complete [OF q j run_job_ok] show ?thesis by blast
  qed
qed

end

sublocale matmul_service \<subseteq> gemm
  by unfold_locales (auto intro: mult_ok)

lemma kernel_service:
  assumes "\<And>M N. complete_schedule (tile_width bld) workers (sched M N) M N" and "shader_contract registered"
  shows "matmul_service (kernel_multiply bld vulkan available registered workers sched) (max_columns bld)"
  using assms by unfold_locales (auto intro!: kernel_multiply_ok)

interpretation serial: matmul_service "kernel_multiply bld False False None workers (serial_schedule bld workers)" "max_columns bld" for bld workers
  by (rule kernel_service) (simp_all add: serial_complete)

section \<open>Properties\<close>

text \<open>
  C6: a client of the asynchronous multiply that is free of data races computes what the synchronous
  program computes, in every build, with or without a registered GPU function that keeps the
  shader's contract, under every interleaving with the worker and every complete schedule of the
  multiply's own threads. When the multiplies find operands of their announced sizes in the
  synchronous program, then after any run whose steps do not race, that is, whose client waits for
  the future of a multiply before it reads, stores into or passes on its result: every vector the
  client may look at holds the synchronous value; once the jobs under way have stored their products
  the whole memory does, and when all have finished it does already; no job faults; and while the
  queue is being destroyed it can move on until every job is finished.
\<close>

theorem async_products:
  assumes "async_run (kernel_multiply bld vulkan available registered workers sched) m as s"
    and "\<And>M N. complete_schedule (tile_width bld) workers (sched M N) M N" and "shader_contract registered"
    and "sized (max_columns bld) as m"
  shows "(\<forall>X. unawaited s X \<or> mem s X = sync_run as m X) \<and>
    submitted (jobs s) = finished (jobs s) @ pending (jobs s) \<and>
    fold store_product (pending (jobs s)) (mem s) = sync_run as m \<and>
    (finished (jobs s) \<noteq> submitted (jobs s) \<or> mem s = sync_run as m) \<and>
    \<not> async_step (kernel_multiply bld vulkan available registered workers sched) s None None \<and>
    (stop (jobs s) \<longrightarrow> finished (jobs s) = submitted (jobs s) \<and> worker (jobs s) = Exited \<or>
       (\<exists>t. async_step (kernel_multiply bld vulkan available registered workers sched) s None (Some t)))"
proof -
  note srv = kernel_service [OF assms(2,3), of vulkan available]
  note sim = matmul_service.simulates_run [OF srv assms(1,4)]
  note d = simulatesD [OF sim]
  note sub = submitted_pending [OF d(1)]
  have "worker (jobs s) = Exited \<Longrightarrow> finished (jobs s) = submitted (jobs s)"
    using d(1) by (simp add: dispatch_inv_def)
  moreover have "finished (jobs s) = submitted (jobs s) \<Longrightarrow> mem s = sync_run as m" using sub d(4) by simp
  ultimately show ?thesis
    using sub d(4) simulates_reads(2) [OF sim] matmul_service.no_crash [OF srv sim] matmul_service.drains [OF srv sim]
    by blast
qed

definition one_job :: "job dispatch" where
  \<comment> \<open>the queue after one job has been submitted and run\<close>
  "one_job = \<lparr>tasks = [], stop = False, worker = Checking, notifies = 1,
     finished = [int8_matmul_gpu_async (\<lambda>_. [100, 2]) 0 1 7 1 1 2],
     submitted = [int8_matmul_gpu_async (\<lambda>_. [100, 2]) 0 1 7 1 1 2]\<rparr>"

definition one_result :: async where
  "one_result = \<lparr>jobs = one_job, mem = (\<lambda>_. [100, 2])(7 := [127]), awaited = {0}\<rparr>"

lemma one_job_runs:
  "async_run (kernel_multiply Avx2_Build False False None 1 (serial_schedule Avx2_Build 1)) (\<lambda>_. [100, 2])
     [Multiply 0 1 7 1 1 2, Wait 0] one_result"
proof -
  let ?mult = "kernel_multiply Avx2_Build False False None 1 (serial_schedule Avx2_Build 1)"
  let ?m = "\<lambda>_ :: nat. [100, 2 :: i8]"
  let ?j = "int8_matmul_gpu_async ?m 0 1 7 1 1 2"
  let ?q1 = "dispatch_init\<lparr>tasks := [?j], submitted := [?j], notifies := 1\<rparr>"
  let ?q2 = "?q1\<lparr>worker := Running ?j, tasks := []\<rparr>"
  let ?s1 = "\<lparr>jobs = ?q1, mem = ?m, awaited = {}\<rparr>" and ?s2 = "\<lparr>jobs = ?q2, mem = ?m, awaited = {}\<rparr>"
  let ?s3 = "\<lparr>jobs = one_job, mem = ?m(7 := [127]), awaited = {}\<rparr>"
  have "dispatch_step dispatch_init ?q1"
    using enqueue [of "dispatch_init :: job dispatch" ?j] by (simp add: dispatch_init_def)
  moreover have "\<not> races (async_init ?m) (Multiply 0 1 7 1 1 2)"
    by (simp add: races_def unawaited_def async_init_def) (simp add: dispatch_init_def)
  ultimately have "async_step ?mult (async_init ?m) (Some (Multiply 0 1 7 1 1 2)) (Some ?s1)"
    using submit [of "async_init ?m" 0 1 7 1 1 2 ?q1 ?mult] by (simp add: async_init_def) (simp add: dispatch_init_def)
  from async_run.acts [OF async_run.begins this]
  have 1: "async_run ?mult ?m [Multiply 0 1 7 1 1 2] ?s1" by simp
  have "dispatch_step ?q1 ?q2" by (rule take_task) (simp_all add: dispatch_init_def)
  then have "async_step ?mult ?s1 None (Some ?s2)" using silent [of ?s1 ?q2 ?mult] by simp
  note 2 = async_run.moves [OF 1 this]
  have "dispatch_step ?q2 one_job"
    using finish [of ?q2 ?j] by (simp add: dispatch_init_def one_job_def)
  moreover have "product_of ?j = [127]" unfolding product_of_def int8_matmul_gpu_async_def by code_simp
  then have "run_job ?mult ?j ?m = Some (Inr (?m(7 := [127])))"
    using serial.run_job_ok [of Avx2_Build ?j 1 ?m] by (simp add: job_ok_def store_product_def) (simp add: int8_matmul_gpu_async_def)
  ultimately have "async_step ?mult ?s2 None (Some ?s3)"
    using complete [of ?s2 one_job ?j ?mult "?m(7 := [127])"] by (simp add: one_job_def dispatch_init_def)
  note 3 = async_run.moves [OF 2 this]
  have "async_step ?mult ?s3 (Some (Wait 0)) (Some one_result)"
    using await [of 0 ?s3 ?mult] by (simp add: one_job_def one_result_def)
  from async_run.acts [OF 3 this] show ?thesis by simp
qed

lemma async_products_witness:
  "async_run (kernel_multiply Avx2_Build False False None 1 (serial_schedule Avx2_Build 1)) (\<lambda>_. [100, 2])
     [Multiply 0 1 7 1 1 2, Wait 0] one_result \<and> \<not> unawaited one_result 7 \<and>
   sync_run [Multiply 0 1 7 1 1 2, Wait 0] (\<lambda>_. [100, 2]) 7 = [127] \<and> mem one_result 7 = [127]"
proof -
  let ?as = "[Multiply 0 1 7 1 1 2, Wait 0]" and ?m = "\<lambda>_ :: nat. [100, 2 :: i8]"
  have "sized (max_columns Avx2_Build) ?as ?m" by simp
  note ok = async_products [OF one_job_runs serial_complete shader_contract_None this]
  have free: "\<not> unawaited one_result 7" by (simp add: unawaited_def one_result_def one_job_def)
  have "matmul_ref [100, 2] [100, 2] 1 1 2 = [127]" by code_simp
  then have "sync_run ?as ?m 7 = [127]" by simp
  moreover have "mem one_result 7 = sync_run ?as ?m 7" using conjunct1 [OF ok] free by blast
  ultimately show ?thesis using one_job_runs free by simp
qed

end
