(* ===== verification/Kernel_Cache.thy ===== *)
theory Kernel_Cache
  imports Binary_IO
begin

text \<open>
  The on-disk cache of compiled kernels (\<open>include/harmonics/kernel_cache.hpp\<close>). The
  structures it saves belong to the Harmonics library: their scalar members are the bytes of their
  object representation, whose widths the record \<open>widths\<close> gives, and
  \<open>write_string\<close> and \<open>read_string\<close> are arguments, of which the round trip
  relies on \<open>string_codec\<close> only. A \<open>None\<close> result is
  \<open>std::nullopt\<close>.
\<close>

section \<open>Kernels\<close>

record widths =
  w_backend :: nat
  w_compiled :: nat
  w_device :: nat
  w_kind :: nat
  w_index :: nat

record cycle_op =
  source_kind :: "u8 list"
  source_index :: "u8 list"
  target_kind :: "u8 list"
  target_index :: "u8 list"
  backward :: bool
  func :: "string option"

record gpu_op = cycle_op +
  shader :: string
  spirv :: "u32 list"

record 'o kernels =
  backend :: "u8 list"
  compiled :: "u8 list"
  device_index :: "u8 list"
  ops :: "'o list"

section \<open>Storing\<close>

definition write_op :: "string_writer \<Rightarrow> ('a cycle_op_scheme) \<Rightarrow> u8 list" where
  \<comment> \<open>the part of an operation that both formats share\<close>
  "write_op wr p = source_kind p @ source_index p @ target_kind p @ target_index p @
     [if backward p then 1 else 0] @ [if func p \<noteq> None then 1 else 0] @
     (case func p of None \<Rightarrow> [] | Some f \<Rightarrow> wr f)"

definition write_gpu_op :: "string_writer \<Rightarrow> gpu_op \<Rightarrow> u8 list" where
  "write_gpu_op wr p = write_op wr p @ wr (shader p) @
     write_u32 (of_nat (length (spirv p))) @ concat (map write_u32 (spirv p))"

definition store_kernels :: "u8 list \<Rightarrow> ('o \<Rightarrow> u8 list) \<Rightarrow> u32 \<Rightarrow> 'o kernels \<Rightarrow> u8 list" where
  "store_kernels magic write_one version k = magic @ write_u32 version @ backend k @ compiled k @ device_index k @
     write_u32 (of_nat (length (ops k))) @ concat (map write_one (ops k))"

definition HGKG :: "u8 list" where "HGKG = [0x48, 0x47, 0x4b, 0x47]"
definition HGKF :: "u8 list" where "HGKF = [0x48, 0x47, 0x4b, 0x46]"

text \<open>What the file holds afterwards, given what it held and whether it can be opened for writing.\<close>

definition store_gpu_kernels :: "string_writer \<Rightarrow> u32 \<Rightarrow> bool \<Rightarrow> u8 list option \<Rightarrow> gpu_op kernels \<Rightarrow> u8 list option" where
  "store_gpu_kernels wr version opened old k =
     (if \<not> opened then old else Some (store_kernels HGKG (write_gpu_op wr) version k))"

definition store_fpga_kernels :: "string_writer \<Rightarrow> u32 \<Rightarrow> bool \<Rightarrow> u8 list option \<Rightarrow> cycle_op kernels \<Rightarrow> u8 list option" where
  "store_fpga_kernels wr version opened old k =
     (if \<not> opened then old else Some (store_kernels HGKF (write_op wr) version k))"

section \<open>Loading\<close>

text \<open>
  Members that \<open>{}\<close> initialises start as zero bytes; \<open>junk\<close> is what the
  uninitialised locals hold (\<open>magic\<close>, \<open>count\<close>, \<open>words\<close>).
\<close>

definition read_op :: "widths \<Rightarrow> string_reader \<Rightarrow> istream \<Rightarrow> (cycle_op \<times> istream) res" where
  "read_op w rd s =
     rbind (raw (w_kind w) s) (\<lambda>(sk, s). rbind (raw (w_index w) s) (\<lambda>(si, s).
     rbind (raw (w_kind w) s) (\<lambda>(tk, s). rbind (raw (w_index w) s) (\<lambda>(ti, s).
     rbind (raw 1 s) (\<lambda>(back, s). rbind (raw 1 s) (\<lambda>(has_fn, s).
     rbind (if hd has_fn \<noteq> 0 then rbind (rd s) (\<lambda>(f, s). Inr (Some f, s)) else Inr (None, s)) (\<lambda>(fn, s).
     Inr (\<lparr>source_kind = sk, source_index = si, target_kind = tk, target_index = ti,
       backward = hd back \<noteq> 0, func = fn\<rparr>, s))))))))"

definition read_gpu_op :: "u8 list \<Rightarrow> widths \<Rightarrow> string_reader \<Rightarrow> istream \<Rightarrow> (gpu_op \<times> istream) res" where
  "read_gpu_op junk w rd s =
     rbind (read_op w rd s) (\<lambda>(p, s). rbind (rd s) (\<lambda>(sh, s).
     rbind (read_word junk s) (\<lambda>(words, s).
     rbind (raw (4 * unat words) s) (\<lambda>(bs, s).
     Inr (cycle_op.extend p \<lparr>shader = sh, spirv = words_of_bytes (unat words) bs\<rparr>, s)))))"

definition read_kernels :: "u8 list \<Rightarrow> widths \<Rightarrow> (istream \<Rightarrow> ('o \<times> istream) res) \<Rightarrow> istream \<Rightarrow> ('o kernels \<times> istream) res" where
  "read_kernels junk w read_one s =
     rbind (read_word junk s) (\<lambda>(ver, s). rbind (raw (w_backend w) s) (\<lambda>(be, s).
     rbind (raw (w_compiled w) s) (\<lambda>(co, s). rbind (raw (w_device w) s) (\<lambda>(dev, s).
     rbind (read_word junk s) (\<lambda>(count, s).
     rbind (read_times (unat count) read_one s) (\<lambda>(ps, s).
     Inr (\<lparr>backend = be, compiled = co, device_index = dev, ops = ps\<rparr>, s)))))))"

definition load_kernels ::
    "u8 list \<Rightarrow> u8 list \<Rightarrow> (istream \<Rightarrow> ('o kernels \<times> istream) res) \<Rightarrow> u8 list option \<Rightarrow> 'o kernels option res" where
  "load_kernels magic junk rd file =
     (case file of
        None \<Rightarrow> Inr None
      | Some bs \<Rightarrow>
          let (m, s) = istream_read (take 4 junk) (good bs) in
          if m \<noteq> magic then Inr None else rbind (rd s) (\<lambda>(k, s). Inr (Some k)))"

definition load_gpu_kernels :: "u8 list \<Rightarrow> widths \<Rightarrow> string_reader \<Rightarrow> u8 list option \<Rightarrow> gpu_op kernels option res" where
  "load_gpu_kernels junk w rd file = load_kernels HGKG junk (read_kernels junk w (read_gpu_op junk w rd)) file"

definition load_fpga_kernels :: "u8 list \<Rightarrow> widths \<Rightarrow> string_reader \<Rightarrow> u8 list option \<Rightarrow> cycle_op kernels option res" where
  "load_fpga_kernels junk w rd file = load_kernels HGKF junk (read_kernels junk w (read_op w rd)) file"

section \<open>Round trips\<close>

definition op_ok :: "widths \<Rightarrow> ('a cycle_op_scheme) \<Rightarrow> bool" where
  "op_ok w p \<longleftrightarrow> length (source_kind p) = w_kind w \<and> length (source_index p) = w_index w \<and>
     length (target_kind p) = w_kind w \<and> length (target_index p) = w_index w \<and>
     (case func p of None \<Rightarrow> True | Some f \<Rightarrow> length f < 2 ^ 32)"

definition gpu_op_ok :: "widths \<Rightarrow> gpu_op \<Rightarrow> bool" where
  "gpu_op_ok w p \<longleftrightarrow> op_ok w p \<and> length (shader p) < 2 ^ 32 \<and> length (spirv p) < 2 ^ 32"

definition kernels_ok :: "widths \<Rightarrow> ('o \<Rightarrow> bool) \<Rightarrow> 'o kernels \<Rightarrow> bool" where
  "kernels_ok w okp k \<longleftrightarrow> length (backend k) = w_backend w \<and> length (compiled k) = w_compiled w \<and>
     length (device_index k) = w_device w \<and> length (ops k) < 2 ^ 32 \<and> list_all okp (ops k)"

lemma gives_up_op: "string_codec wr rd \<Longrightarrow> failed s \<Longrightarrow> gives_up (read_op w rd s)"
  unfolding read_op_def by (intro gives_up_rules gives_up_rd [of wr rd])

lemma gives_up_gpu_op: "string_codec wr rd \<Longrightarrow> failed s \<Longrightarrow> gives_up (read_gpu_op junk w rd s)"
  unfolding read_gpu_op_def by (intro gives_up_rules gives_up_op [of wr rd] gives_up_rd [of wr rd])

definition base_op :: "('a cycle_op_scheme) \<Rightarrow> cycle_op" where
  "base_op p = \<lparr>source_kind = source_kind p, source_index = source_index p, target_kind = target_kind p,
     target_index = target_index p, backward = backward p, func = func p\<rparr>"

lemma inverts_op:
  assumes "string_codec wr rd" and "op_ok w p"
  shows "inverts (read_op w rd) (base_op p) (write_op wr p)"
proof -
  note len = assms(2)[unfolded op_ok_def]
  have fn: "inverts (\<lambda>s. if hd [if func p \<noteq> None then 1 else 0 :: u8] \<noteq> 0 then rbind (rd s) (\<lambda>(x, s). Inr (Some x, s)) else Inr (None, s))
      (func p) (case func p of None \<Rightarrow> [] | Some x \<Rightarrow> wr x)"
    by (rule inverts_func) (use assms in \<open>auto simp: op_ok_def\<close>)
  have "inverts (read_op w rd) (base_op p) (source_kind p @ source_index p @ target_kind p @ target_index p @
     [if backward p then 1 else 0] @ [if func p \<noteq> None then 1 else 0] @
     (case func p of None \<Rightarrow> [] | Some f \<Rightarrow> wr f) @ [])"
    unfolding read_op_def
    by (intro inverts_raw_then inverts_bind [OF fn] inverts_return_eq gives_up_rules gives_up_rd [OF assms(1)])
      (use len in \<open>auto simp: base_op_def\<close>)
  then show ?thesis by (simp add: write_op_def)
qed

lemma inverts_gpu_op:
  assumes "string_codec wr rd" and "gpu_op_ok w p" and "4 \<le> length junk"
  shows "inverts (read_gpu_op junk w rd) p (write_gpu_op wr p)"
proof -
  note len = assms(2)[unfolded gpu_op_ok_def]
  have p: "inverts (read_op w rd) (base_op p) (write_op wr p)" and sh: "inverts rd (shader p) (wr (shader p))"
    using assms by (auto simp: gpu_op_ok_def string_codec_def intro: inverts_op)
  have n: "unat (of_nat (length (spirv p)) :: u32) = length (spirv p)"
    using len by (intro unat_of_nat_u32) simp
  have w: "length (concat (map write_u32 ws)) = 4 * length ws" for ws by (induction ws) auto
  have "inverts (read_gpu_op junk w rd) p (write_op wr p @ wr (shader p) @
      write_u32 (of_nat (length (spirv p))) @ concat (map write_u32 (spirv p)) @ [])"
    unfolding read_gpu_op_def
    by (intro inverts_bind [OF p] inverts_bind [OF sh] inverts_word_then [OF assms(3)] inverts_raw_then
        inverts_return_eq gives_up_rules gives_up_rd [OF assms(1)])
      (use words_of_bytes_concat [of "spirv p" "[]"] in \<open>auto simp: n w base_op_def cycle_op.defs\<close>)
  then show ?thesis by (simp add: write_gpu_op_def)
qed

lemma inverts_kernels:
  assumes "kernels_ok w okp k" and "4 \<le> length junk" and "\<And>p. okp p \<Longrightarrow> inverts rd p (wr p)"
    and "\<And>s. failed s \<Longrightarrow> gives_up (rd s)"
  shows "inverts (read_kernels junk w rd) k
    (write_u32 ver @ backend k @ compiled k @ device_index k @ write_u32 (of_nat (length (ops k))) @ concat (map wr (ops k)))"
proof -
  note len = assms(1)[unfolded kernels_ok_def]
  have n: "unat (of_nat (length (ops k)) :: u32) = length (ops k)"
    using len by (intro unat_of_nat_u32) simp
  have ps: "inverts (read_times (unat (of_nat (length (ops k)) :: u32)) rd) (ops k) (concat (map wr (ops k)))"
    unfolding n by (rule inverts_times) (use len assms(3,4) in \<open>auto simp: list_all_iff\<close>)
  have "inverts (read_kernels junk w rd) k (write_u32 ver @ backend k @ compiled k @ device_index k @
      write_u32 (of_nat (length (ops k))) @ concat (map wr (ops k)) @ [])"
    unfolding read_kernels_def
    by (intro inverts_word_then [OF assms(2)] inverts_raw_then inverts_bind [OF ps] inverts_return_eq gives_up_rules
        gives_up_times [OF assms(4)]) (use len in auto)
  then show ?thesis by simp
qed

lemma load_stored:
  assumes "inverts rd k bs" and "length magic = 4" and "4 \<le> length junk"
  shows "load_kernels magic junk rd (Some (magic @ bs @ extra)) = Inr (Some k)"
proof -
  have "istream_read (take 4 junk) (good (magic @ bs @ extra)) = (magic, good (bs @ extra))"
    using assms(2,3) by (simp add: istream_read_def good_def)
  with invertsD(1) [OF assms(1), of extra] show ?thesis by (simp add: load_kernels_def)
qed

section \<open>One file\<close>

text \<open>
  A kernel file gives back what was stored in it: for string functions that invert each other, a GPU
  or FPGA kernel set whose members have the widths of the platform and whose counts fit 32 bits
  is loaded from the file it was stored to, whatever version wrote it.
\<close>

lemma gpu_kernels_stored:
  assumes "string_codec wr rd" and "4 \<le> length junk" and "kernels_ok w (gpu_op_ok w) g"
  shows "load_gpu_kernels junk w rd (store_gpu_kernels wr ver True old g) = Inr (Some g)"
proof -
  have "inverts (read_kernels junk w (read_gpu_op junk w rd)) g
    (write_u32 ver @ backend g @ compiled g @ device_index g @ write_u32 (of_nat (length (ops g))) @
     concat (map (write_gpu_op wr) (ops g)))"
    by (rule inverts_kernels [OF assms(3,2)]) (auto intro: inverts_gpu_op gives_up_gpu_op assms)
  from load_stored [OF this, of HGKG junk "[]"] assms(2) show ?thesis
    by (simp add: load_gpu_kernels_def store_gpu_kernels_def store_kernels_def HGKG_def)
qed

lemma fpga_kernels_stored:
  assumes "string_codec wr rd" and "4 \<le> length junk" and "kernels_ok w (op_ok w) f"
  shows "load_fpga_kernels junk w rd (store_fpga_kernels wr ver True old f) = Inr (Some f)"
proof -
  have "inverts (read_op w rd) p (write_op wr p)" if "op_ok w p" for p :: cycle_op
    using inverts_op [OF assms(1) that] by (cases p) (simp add: base_op_def)
  then have "inverts (read_kernels junk w (read_op w rd)) f
    (write_u32 ver @ backend f @ compiled f @ device_index f @ write_u32 (of_nat (length (ops f))) @
     concat (map (write_op wr) (ops f)))"
    by (rule inverts_kernels [OF assms(3,2)]) (auto intro: gives_up_op assms)
  from load_stored [OF this, of HGKF junk "[]"] assms(2) show ?thesis
    by (simp add: load_fpga_kernels_def store_fpga_kernels_def store_kernels_def HGKF_def)
qed

definition sample_widths :: widths where
  "sample_widths = \<lparr>w_backend = 1, w_compiled = 1, w_device = 4, w_kind = 1, w_index = 8\<rparr>"

definition sample_op :: cycle_op where
  "sample_op = \<lparr>source_kind = [1], source_index = replicate 8 2, target_kind = [3], target_index = replicate 8 0,
     backward = True, func = Some ''relu''\<rparr>"

definition sample_kernels :: "'o \<Rightarrow> 'o kernels" where
  "sample_kernels p = \<lparr>backend = [2], compiled = [1], device_index = [0, 0, 0, 0], ops = [p]\<rparr>"

text \<open>
  The readers never look at the state of the stream: a file cut right after its magic number is
  not a miss. It loads as a kernel set with zeroed members and as many operations as the
  uninitialised count says; here none.
\<close>

theorem kernel_cache_truncated:
  "load_gpu_kernels [0, 0, 0, 0] w rd (Some HGKG) =
     Inr (Some \<lparr>backend = replicate (w_backend w) 0, compiled = replicate (w_compiled w) 0,
       device_index = replicate (w_device w) 0, ops = []\<rparr>) \<and>
   load_fpga_kernels [0, 0, 0, 0] w rd (Some HGKF) =
     Inr (Some \<lparr>backend = replicate (w_backend w) 0, compiled = replicate (w_compiled w) 0,
       device_index = replicate (w_device w) 0, ops = []\<rparr>)"
  by (simp add: load_gpu_kernels_def load_fpga_kernels_def load_kernels_def read_kernels_def read_word_def raw_def
      istream_read_def good_def HGKG_def HGKF_def word_of_bytes_def)

section \<open>The cache directory\<close>

text \<open>
  The files of the cache, by path. \<open>created\<close> tells whether
  \<open>create_directories\<close> succeeds (it throws otherwise), \<open>opens\<close> the paths
  that can be opened for writing.
\<close>

type_synonym kernel_files = "string \<Rightarrow> u8 list option"

definition kernels_dir :: "string option \<Rightarrow> bool \<Rightarrow> string res" where
  \<comment> \<open>with the value of the environment variable \<open>HARMONICS_CACHE_DIR\<close>\<close>
  "kernels_dir env created =
     (let dir = path_append (case env of None \<Rightarrow> ''.harmonics/cache'' | Some e \<Rightarrow> e) ''kernels''
      in if created then Inr dir else Inl (Thrown ''create_directories''))"

definition store_gpu_at ::
    "string option \<Rightarrow> bool \<Rightarrow> (string \<Rightarrow> bool) \<Rightarrow> string_writer \<Rightarrow> u32 \<Rightarrow> gpu_op kernels \<Rightarrow> string \<Rightarrow> kernel_files \<Rightarrow> kernel_files res" where
  "store_gpu_at env created opens wr ver k key fs =
     rbind (kernels_dir env created) (\<lambda>dir. let path = path_append dir (key @ ''.gpu'')
       in Inr (fs(path := store_gpu_kernels wr ver (opens path) (fs path) k)))"

definition store_fpga_at ::
    "string option \<Rightarrow> bool \<Rightarrow> (string \<Rightarrow> bool) \<Rightarrow> string_writer \<Rightarrow> u32 \<Rightarrow> cycle_op kernels \<Rightarrow> string \<Rightarrow> kernel_files \<Rightarrow> kernel_files res" where
  "store_fpga_at env created opens wr ver k key fs =
     rbind (kernels_dir env created) (\<lambda>dir. let path = path_append dir (key @ ''.fpga'')
       in Inr (fs(path := store_fpga_kernels wr ver (opens path) (fs path) k)))"

definition load_gpu_at ::
    "string option \<Rightarrow> bool \<Rightarrow> u8 list \<Rightarrow> widths \<Rightarrow> string_reader \<Rightarrow> string \<Rightarrow> kernel_files \<Rightarrow> gpu_op kernels option res" where
  "load_gpu_at env created junk w rd key fs =
     rbind (kernels_dir env created) (\<lambda>dir. load_gpu_kernels junk w rd (fs (path_append dir (key @ ''.gpu''))))"

definition load_fpga_at ::
    "string option \<Rightarrow> bool \<Rightarrow> u8 list \<Rightarrow> widths \<Rightarrow> string_reader \<Rightarrow> string \<Rightarrow> kernel_files \<Rightarrow> cycle_op kernels option res" where
  "load_fpga_at env created junk w rd key fs =
     rbind (kernels_dir env created) (\<lambda>dir. load_fpga_kernels junk w rd (fs (path_append dir (key @ ''.fpga''))))"

text \<open>A sequence of stores, and the two maps it stands for.\<close>

datatype cache_store = Store_Gpu string "gpu_op kernels" | Store_Fpga string "cycle_op kernels"

fun do_stores ::
    "string option \<Rightarrow> (string \<Rightarrow> bool) \<Rightarrow> string_writer \<Rightarrow> u32 \<Rightarrow> cache_store list \<Rightarrow> kernel_files \<Rightarrow> kernel_files res" where
  "do_stores env opens wr ver [] fs = Inr fs"
| "do_stores env opens wr ver (Store_Gpu key k # cs) fs =
     rbind (store_gpu_at env True opens wr ver k key fs) (do_stores env opens wr ver cs)"
| "do_stores env opens wr ver (Store_Fpga key k # cs) fs =
     rbind (store_fpga_at env True opens wr ver k key fs) (do_stores env opens wr ver cs)"

fun gpu_book :: "cache_store list \<Rightarrow> (string \<Rightarrow> gpu_op kernels option) \<Rightarrow> string \<Rightarrow> gpu_op kernels option" where
  "gpu_book [] m = m"
| "gpu_book (Store_Gpu key k # cs) m = gpu_book cs (m(key \<mapsto> k))"
| "gpu_book (Store_Fpga key k # cs) m = gpu_book cs m"

fun fpga_book :: "cache_store list \<Rightarrow> (string \<Rightarrow> cycle_op kernels option) \<Rightarrow> string \<Rightarrow> cycle_op kernels option" where
  "fpga_book [] m = m"
| "fpga_book (Store_Gpu key k # cs) m = fpga_book cs m"
| "fpga_book (Store_Fpga key k # cs) m = fpga_book cs (m(key \<mapsto> k))"

definition plain_key :: "string \<Rightarrow> bool" where
  \<comment> \<open>one component of a path\<close>
  "plain_key key \<longleftrightarrow> CHR ''/'' \<notin> set key \<and> CHR 0x00 \<notin> set key"

fun store_fits :: "widths \<Rightarrow> cache_store \<Rightarrow> bool" where
  "store_fits w (Store_Gpu key k) \<longleftrightarrow> plain_key key \<and> kernels_ok w (gpu_op_ok w) k"
| "store_fits w (Store_Fpga key k) \<longleftrightarrow> plain_key key \<and> kernels_ok w (op_ok w) k"

definition kernel_path :: "string option \<Rightarrow> string \<Rightarrow> string" where
  "kernel_path env name = path_append (path_append (case env of None \<Rightarrow> ''.harmonics/cache'' | Some e \<Rightarrow> e) ''kernels'') name"

lemma kernels_dir_True: "kernels_dir env True = Inr (path_append (case env of None \<Rightarrow> ''.harmonics/cache'' | Some e \<Rightarrow> e) ''kernels'')"
  by (simp add: kernels_dir_def)

lemma plain_head: "plain_key key \<Longrightarrow> e \<noteq> CHR ''/'' \<Longrightarrow> take 1 (key @ e # es) \<noteq> ''/''"
  by (cases key) (auto simp: plain_key_def)

lemma gpu_not_fpga: "key @ ''.gpu'' \<noteq> key' @ ''.fpga''"
  by (auto dest: arg_cong [of _ _ last])

lemma kernel_path_simps [simp]:
  assumes "plain_key key" and "plain_key key'"
  shows "kernel_path env (key @ ''.gpu'') = kernel_path env (key' @ ''.gpu'') \<longleftrightarrow> key = key'"
    and "kernel_path env (key @ ''.fpga'') = kernel_path env (key' @ ''.fpga'') \<longleftrightarrow> key = key'"
    and "kernel_path env (key @ ''.gpu'') \<noteq> kernel_path env (key' @ ''.fpga'')"
    and "kernel_path env (key' @ ''.fpga'') \<noteq> kernel_path env (key @ ''.gpu'')"
  using assms plain_head [OF assms(1)] plain_head [OF assms(2)]
    gpu_not_fpga [of key key'] gpu_not_fpga [of key key', symmetric]
  by (simp_all add: kernel_path_def path_append_inj)

text \<open>The file at a path: what the books say of its key, or else what it held before.\<close>

definition shelved :: "('o \<Rightarrow> u8 list) \<Rightarrow> (string \<Rightarrow> string) \<Rightarrow> kernel_files \<Rightarrow> (string \<Rightarrow> 'o option) \<Rightarrow> kernel_files \<Rightarrow> bool" where
  "shelved enc path fs0 m fs \<longleftrightarrow>
     (\<forall>key. plain_key key \<longrightarrow> fs (path key) = (case m key of None \<Rightarrow> fs0 (path key) | Some k \<Rightarrow> Some (enc k)))"

lemma do_stores_shelved:
  fixes env wr ver
  defines "gp \<equiv> \<lambda>key. kernel_path env (key @ ''.gpu'')" and "fp \<equiv> \<lambda>key. kernel_path env (key @ ''.fpga'')"
    and "ge \<equiv> store_kernels HGKG (write_gpu_op wr) ver" and "fe \<equiv> store_kernels HGKF (write_op wr) ver"
  assumes "\<forall>c\<in>set cs. store_fits w c" and "\<forall>p. opens p"
    and "shelved ge gp fs0 m fs" and "shelved fe fp fs0 n fs"
  shows "\<exists>fs'. do_stores env opens wr ver cs fs = Inr fs' \<and>
    shelved ge gp fs0 (gpu_book cs m) fs' \<and> shelved fe fp fs0 (fpga_book cs n) fs'"
  using assms(5-)
proof (induction cs arbitrary: fs m n)
  case (Cons c cs)
  show ?case
  proof (cases c)
    case (Store_Gpu key k)
    let ?fs = "fs(gp key := Some (ge k))"
    have "plain_key key" using Cons.prems(1) Store_Gpu by simp
    with Cons.prems(3,4) have "shelved ge gp fs0 (m(key \<mapsto> k)) ?fs" "shelved fe fp fs0 n ?fs"
      by (auto simp: shelved_def gp_def fp_def)
    moreover have "store_gpu_at env True opens wr ver k key fs = Inr ?fs"
      using Cons.prems(2) by (simp add: store_gpu_at_def kernels_dir_True Let_def store_gpu_kernels_def
        gp_def ge_def kernel_path_def)
    ultimately show ?thesis using Cons.IH [OF _ Cons.prems(2)] Cons.prems(1) by (simp add: Store_Gpu)
  next
    case (Store_Fpga key k)
    let ?fs = "fs(fp key := Some (fe k))"
    have "plain_key key" using Cons.prems(1) Store_Fpga by simp
    with Cons.prems(3,4) have "shelved ge gp fs0 m ?fs" "shelved fe fp fs0 (n(key \<mapsto> k)) ?fs"
      by (auto simp: shelved_def gp_def fp_def)
    moreover have "store_fpga_at env True opens wr ver k key fs = Inr ?fs"
      using Cons.prems(2) by (simp add: store_fpga_at_def kernels_dir_True Let_def store_fpga_kernels_def
        fp_def fe_def kernel_path_def)
    ultimately show ?thesis using Cons.IH [OF _ Cons.prems(2)] Cons.prems(1) by (simp add: Store_Fpga)
  qed
qed simp

lemma gpu_book_fits:
  "\<forall>c\<in>set cs. store_fits w c \<Longrightarrow> \<forall>key k. m key = Some k \<longrightarrow> kernels_ok w (gpu_op_ok w) k \<Longrightarrow>
    gpu_book cs m key = Some g \<Longrightarrow> kernels_ok w (gpu_op_ok w) g"
  by (induction cs m rule: gpu_book.induct) (simp_all split: if_splits)

lemma fpga_book_fits:
  "\<forall>c\<in>set cs. store_fits w c \<Longrightarrow> \<forall>key k. m key = Some k \<longrightarrow> kernels_ok w (op_ok w) k \<Longrightarrow>
    fpga_book cs m key = Some f \<Longrightarrow> kernels_ok w (op_ok w) f"
  by (induction cs m rule: fpga_book.induct) (simp_all split: if_splits)

lemma load_at:
  "load_gpu_at env True junk w rd key fs = load_gpu_kernels junk w rd (fs (kernel_path env (key @ ''.gpu'')))"
  "load_fpga_at env True junk w rd key fs = load_fpga_kernels junk w rd (fs (kernel_path env (key @ ''.fpga'')))"
  by (simp_all add: load_gpu_at_def load_fpga_at_def kernels_dir_True kernel_path_def)

section \<open>Properties\<close>

text \<open>
  C17: the cache directory is two maps, one of GPU and one of FPGA kernel sets. Whatever the
  environment says of its place, after any sequence of stores under keys that are plain file
  names, a load gives back the last kernel set of its kind stored under the key, unless none
  was: then it reads what the directory held before. The two kinds never overwrite each other.
  (The stores succeed: the directory can be created and every file opened; the kernel sets have
  the widths of the platform and their counts fit 32 bits; the string functions invert each
  other.)
\<close>

theorem kernel_cache_maps:
  assumes "string_codec wr rd" and "4 \<le> length junk" and "\<forall>c\<in>set cs. store_fits w c" and "\<forall>p. opens p"
  shows "\<exists>fs'. do_stores env opens wr ver cs fs = Inr fs' \<and>
    (\<forall>key. plain_key key \<longrightarrow>
       load_gpu_at env True junk w rd key fs' =
         (case gpu_book cs Map.empty key of None \<Rightarrow> load_gpu_at env True junk w rd key fs | Some g \<Rightarrow> Inr (Some g)) \<and>
       load_fpga_at env True junk w rd key fs' =
         (case fpga_book cs Map.empty key of None \<Rightarrow> load_fpga_at env True junk w rd key fs | Some f \<Rightarrow> Inr (Some f)))"
proof -
  have g: "load_gpu_kernels junk w rd (Some (store_kernels HGKG (write_gpu_op wr) ver g)) = Inr (Some g)"
    if "gpu_book cs Map.empty key = Some g" for key g
    using gpu_kernels_stored [OF assms(1,2) gpu_book_fits [OF assms(3) _ that], where ver = ver and old = None]
    by (simp add: store_gpu_kernels_def)
  have f: "load_fpga_kernels junk w rd (Some (store_kernels HGKF (write_op wr) ver f)) = Inr (Some f)"
    if "fpga_book cs Map.empty key = Some f" for key f
    using fpga_kernels_stored [OF assms(1,2) fpga_book_fits [OF assms(3) _ that], where ver = ver and old = None]
    by (simp add: store_fpga_kernels_def)
  from do_stores_shelved [OF assms(3,4), of wr ver env fs Map.empty fs Map.empty] obtain fs'
    where "do_stores env opens wr ver cs fs = Inr fs'"
      "shelved (store_kernels HGKG (write_gpu_op wr) ver) (\<lambda>key. kernel_path env (key @ ''.gpu'')) fs (gpu_book cs Map.empty) fs'"
      "shelved (store_kernels HGKF (write_op wr) ver) (\<lambda>key. kernel_path env (key @ ''.fpga'')) fs (fpga_book cs Map.empty) fs'"
    by (auto simp: shelved_def)
  then show ?thesis
    by (intro exI [of _ fs']) (auto simp: load_at shelved_def g f split: option.split)
qed

text \<open>Three stores under two keys; a third key was never stored.\<close>

lemma kernel_cache_maps_witness:
  "\<exists>fs'. do_stores None (\<lambda>p. True) plain_writer 1
       [Store_Fpga ''a'' (sample_kernels sample_op),
        Store_Gpu ''a'' (sample_kernels (cycle_op.extend sample_op \<lparr>shader = ''s'', spirv = [5, 6]\<rparr>)),
        Store_Gpu ''a'' (sample_kernels (cycle_op.extend sample_op \<lparr>shader = ''t'', spirv = []\<rparr>))] (\<lambda>p. None) = Inr fs' \<and>
     load_gpu_at None True [7, 7, 7, 7] sample_widths plain_reader ''a'' fs' =
       Inr (Some (sample_kernels (cycle_op.extend sample_op \<lparr>shader = ''t'', spirv = []\<rparr>))) \<and>
     load_fpga_at None True [7, 7, 7, 7] sample_widths plain_reader ''a'' fs' = Inr (Some (sample_kernels sample_op)) \<and>
     load_gpu_at None True [7, 7, 7, 7] sample_widths plain_reader ''b'' fs' = Inr None"
proof -
  let ?cs = "[Store_Fpga ''a'' (sample_kernels sample_op),
    Store_Gpu ''a'' (sample_kernels (cycle_op.extend sample_op \<lparr>shader = ''s'', spirv = [5, 6]\<rparr>)),
    Store_Gpu ''a'' (sample_kernels (cycle_op.extend sample_op \<lparr>shader = ''t'', spirv = []\<rparr>))]"
  have keys: "plain_key ''a''" "plain_key ''b''" by (simp_all add: plain_key_def)
  have fits: "\<forall>c\<in>set ?cs. store_fits sample_widths c"
    by (simp add: keys kernels_ok_def gpu_op_ok_def op_ok_def sample_kernels_def sample_op_def sample_widths_def cycle_op.defs)
  from kernel_cache_maps [OF plain_codec _ fits, of "[7, 7, 7, 7]" "\<lambda>p. True" None 1 "\<lambda>p. None"] obtain fs' where r:
    "do_stores None (\<lambda>p. True) plain_writer 1 ?cs (\<lambda>p. None) = Inr fs'"
    "\<And>key. plain_key key \<Longrightarrow> load_gpu_at None True [7, 7, 7, 7] sample_widths plain_reader key fs' =
       (case gpu_book ?cs Map.empty key of None \<Rightarrow> load_gpu_at None True [7, 7, 7, 7] sample_widths plain_reader key (\<lambda>p. None)
        | Some g \<Rightarrow> Inr (Some g))"
    "\<And>key. plain_key key \<Longrightarrow> load_fpga_at None True [7, 7, 7, 7] sample_widths plain_reader key fs' =
       (case fpga_book ?cs Map.empty key of None \<Rightarrow> load_fpga_at None True [7, 7, 7, 7] sample_widths plain_reader key (\<lambda>p. None)
        | Some f \<Rightarrow> Inr (Some f))"
    by auto
  have "load_gpu_at None True [7, 7, 7, 7] sample_widths plain_reader ''b'' (\<lambda>p. None) = Inr None"
    by (simp add: load_at load_gpu_kernels_def load_kernels_def)
  with r(1) r(2) [OF keys(1)] r(2) [OF keys(2)] r(3) [OF keys(1)] show ?thesis
    by (intro exI [of _ fs']) simp
qed

end
