(* ===== verification/Graph_Diff.thy ===== *)
theory Graph_Diff
  imports Binary_IO
begin

text \<open>
  The graph difference tool (\<open>tools/graph_diff_cli.cpp\<close>): its file format and its three
  commands. Graphs, differences and the operations on them belong to the Harmonics library. A layer
  declaration is its name and the members the format does not save (of type \<open>'d\<close>, with
  the value \<open>d0\<close> a default-constructed layer has); the graph operations are the record
  \<open>graph_ops\<close>. The file system maps paths to contents, and a run of the tool gives its
  exit code, the new file system and its messages; an exception nobody catches is
  \<open>Inl\<close>.
\<close>

section \<open>The file format\<close>

record flow =
  src :: string
  dst :: string
  flow_backward :: bool
  flow_func :: "string option"

record 'd graph_diff =
  added_layers :: "(string \<times> 'd) list"
  removed_layers :: "string list"
  added_flows :: "flow list"
  removed_flows :: "flow list"

definition write_flow :: "string_writer \<Rightarrow> flow \<Rightarrow> u8 list" where
  "write_flow wr f = wr (src f) @ wr (dst f) @ [if flow_backward f then 1 else 0] @
     [if flow_func f \<noteq> None then 1 else 0] @ (case flow_func f of None \<Rightarrow> [] | Some x \<Rightarrow> wr x)"

definition read_byte :: "u8 list \<Rightarrow> istream \<Rightarrow> (u8 list \<times> istream) res" where
  \<comment> \<open>into an uninitialised \<open>uint8_t\<close>\<close>
  "read_byte junk s = Inr (istream_read (take 1 junk) s)"

definition read_flow :: "u8 list \<Rightarrow> string_reader \<Rightarrow> istream \<Rightarrow> (flow \<times> istream) res" where
  "read_flow junk rd s =
     rbind (rd s) (\<lambda>(a, s). rbind (rd s) (\<lambda>(b, s).
     rbind (read_byte junk s) (\<lambda>(back, s). rbind (read_byte junk s) (\<lambda>(has, s).
     rbind (if hd has \<noteq> 0 then rbind (rd s) (\<lambda>(f, s). Inr (Some f, s)) else Inr (None, s)) (\<lambda>(fn, s).
     Inr (\<lparr>src = a, dst = b, flow_backward = hd back \<noteq> 0, flow_func = fn\<rparr>, s))))))"

definition HGRD :: "u8 list" where "HGRD = [0x48, 0x47, 0x52, 0x44]"

definition write_block :: "('a \<Rightarrow> u8 list) \<Rightarrow> 'a list \<Rightarrow> u8 list" where
  "write_block wr xs = write_u32 (of_nat (length xs)) @ concat (map wr xs)"

definition save_graph_diff :: "string_writer \<Rightarrow> 'd graph_diff \<Rightarrow> u8 list" where
  "save_graph_diff wr d = HGRD @ write_block (wr \<circ> fst) (added_layers d) @ write_block wr (removed_layers d) @
     write_block (write_flow wr) (added_flows d) @ write_block (write_flow wr) (removed_flows d)"

definition read_block :: "u8 list \<Rightarrow> (istream \<Rightarrow> ('a \<times> istream) res) \<Rightarrow> istream \<Rightarrow> ((u8 list \<times> 'a list) \<times> istream) res" where
  \<comment> \<open>the bytes of \<open>count\<close> before and after: the variable is shared by the four blocks\<close>
  "read_block count rd s =
     (let (b, s) = istream_read count s in
      rbind (read_times (unat (word_of_bytes b)) rd s) (\<lambda>(xs, s). Inr ((b, xs), s)))"

definition read_layer :: "'d \<Rightarrow> string_reader \<Rightarrow> istream \<Rightarrow> ((string \<times> 'd) \<times> istream) res" where
  "read_layer d0 rd s = rbind (rd s) (\<lambda>(n, s). Inr ((n, d0), s))"

definition read_diff :: "'d \<Rightarrow> u8 list \<Rightarrow> string_reader \<Rightarrow> istream \<Rightarrow> ('d graph_diff \<times> istream) res" where
  \<comment> \<open>what follows the magic number\<close>
  "read_diff d0 junk rd s =
     rbind (read_block (take 4 junk) (read_layer d0 rd) s) (\<lambda>((c, al), s).
     rbind (read_block c rd s) (\<lambda>((c, rl), s).
     rbind (read_block c (read_flow junk rd) s) (\<lambda>((c, af), s).
     rbind (read_block c (read_flow junk rd) s) (\<lambda>((c, rf), s).
     Inr (\<lparr>added_layers = al, removed_layers = rl, added_flows = af, removed_flows = rf\<rparr>, s)))))"

definition load_graph_diff :: "'d \<Rightarrow> u8 list \<Rightarrow> string_reader \<Rightarrow> u8 list \<Rightarrow> 'd graph_diff res" where
  "load_graph_diff d0 junk rd file =
     (let (magic, s) = istream_read (take 4 junk) (good file) in
      if magic \<noteq> HGRD then Inl (Thrown ''invalid diff file'')
      else rbind (read_diff d0 junk rd s) (\<lambda>(d, s). Inr d))"

section \<open>The commands\<close>

record ('g, 'd) graph_ops =
  load_graph :: "u8 list \<Rightarrow> 'g res"
  save_graph :: "'g \<Rightarrow> u8 list"
  diff_graphs :: "'g \<Rightarrow> 'g \<Rightarrow> 'd graph_diff"
  apply_diff :: "'g \<Rightarrow> 'd graph_diff \<Rightarrow> 'g"
  merge_graphs :: "'g \<Rightarrow> 'g \<Rightarrow> 'g"

type_synonym files = "string \<rightharpoonup> u8 list"

datatype message = Usage string | Summary nat nat nat nat | Failure string

fun out_option :: "string list \<Rightarrow> string \<Rightarrow> string" where
  \<comment> \<open>the loop over \<open>argv[4..]\<close>: the last \<open>-o\<close> that has an argument wins\<close>
  "out_option [] out_path = out_path"
| "out_option [a] out_path = out_path"
| "out_option (a # b # args) out_path =
     (if a = ''-o'' then out_option args b else out_option (b # args) out_path)"

type_synonym outcome = "(int \<times> files \<times> message list) res"

definition write_to :: "(string \<Rightarrow> bool) \<Rightarrow> string \<Rightarrow> u8 list \<Rightarrow> files \<Rightarrow> outcome" where
  "write_to writable path bytes fs =
     (if \<not> writable path then Inr (1, fs, [Failure ''failed to open output file''])
      else Inr (0, fs(path \<mapsto> bytes), []))"

definition diff_command :: "('g, 'd) graph_ops \<Rightarrow> string_writer \<Rightarrow> (string \<Rightarrow> bool) \<Rightarrow> string list \<Rightarrow> files \<Rightarrow> outcome" where
  "diff_command G wr writable argv fs =
     (let out_path = out_option (drop 4 argv) [] in
      case (fs (argv ! 2), fs (argv ! 3)) of
        (Some in1, Some in2) \<Rightarrow>
          rbind (load_graph G in1) (\<lambda>g1. rbind (load_graph G in2) (\<lambda>g2.
          let diff = diff_graphs G g1 g2 in
          if out_path \<noteq> [] then write_to writable out_path (save_graph_diff wr diff) fs
          else Inr (0, fs, [Summary (length (added_layers diff)) (length (removed_layers diff))
                              (length (added_flows diff)) (length (removed_flows diff))])))
      | _ \<Rightarrow> Inr (1, fs, [Failure ''failed to open input files'']))"

definition apply_command ::
    "('g, 'd) graph_ops \<Rightarrow> 'd \<Rightarrow> u8 list \<Rightarrow> string_reader \<Rightarrow> (string \<Rightarrow> bool) \<Rightarrow> string list \<Rightarrow> files \<Rightarrow> outcome" where
  "apply_command G d0 junk rd writable argv fs =
     (let out_path = out_option (drop 4 argv) (argv ! 2) in
      case (fs (argv ! 2), fs (argv ! 3)) of
        (Some gin, Some din) \<Rightarrow>
          rbind (load_graph G gin) (\<lambda>g. rbind (load_graph_diff d0 junk rd din) (\<lambda>diff.
          write_to writable out_path (save_graph G (apply_diff G g diff)) fs))
      | _ \<Rightarrow> Inr (1, fs, [Failure ''failed to open input files'']))"

definition merge_command :: "('g, 'd) graph_ops \<Rightarrow> (string \<Rightarrow> bool) \<Rightarrow> string list \<Rightarrow> files \<Rightarrow> outcome" where
  "merge_command G writable argv fs =
     (let out_path = out_option (drop 4 argv) (argv ! 2) in
      case (fs (argv ! 2), fs (argv ! 3)) of
        (Some in1, Some in2) \<Rightarrow>
          rbind (load_graph G in1) (\<lambda>g1. rbind (load_graph G in2) (\<lambda>g2.
          write_to writable out_path (save_graph G (merge_graphs G g1 g2)) fs))
      | _ \<Rightarrow> Inr (1, fs, [Failure ''failed to open input files'']))"

definition graph_diff_main ::
    "('g, 'd) graph_ops \<Rightarrow> 'd \<Rightarrow> u8 list \<Rightarrow> string_writer \<Rightarrow> string_reader \<Rightarrow> (string \<Rightarrow> bool) \<Rightarrow> string list \<Rightarrow> files \<Rightarrow> outcome" where
  "graph_diff_main G d0 junk wr rd writable argv fs =
     (let usage = Inr (1, fs, [Usage (argv ! 0)]) in
      if length argv < 2 then usage
      else if argv ! 1 = ''diff'' then (if length argv < 4 then usage else diff_command G wr writable argv fs)
      else if argv ! 1 = ''apply'' then (if length argv < 4 then usage else apply_command G d0 junk rd writable argv fs)
      else if argv ! 1 = ''merge'' then (if length argv < 4 then usage else merge_command G writable argv fs)
      else usage)"

section \<open>Reading back\<close>

definition flow_ok :: "flow \<Rightarrow> bool" where
  "flow_ok f \<longleftrightarrow> length (src f) < 2 ^ 32 \<and> length (dst f) < 2 ^ 32 \<and>
     (case flow_func f of None \<Rightarrow> True | Some x \<Rightarrow> length x < 2 ^ 32)"

definition diff_ok :: "'d graph_diff \<Rightarrow> bool" where
  "diff_ok d \<longleftrightarrow> length (added_layers d) < 2 ^ 32 \<and> length (removed_layers d) < 2 ^ 32 \<and>
     length (added_flows d) < 2 ^ 32 \<and> length (removed_flows d) < 2 ^ 32 \<and>
     list_all (\<lambda>l. length (fst l) < 2 ^ 32) (added_layers d) \<and> list_all (\<lambda>n. length n < 2 ^ 32) (removed_layers d) \<and>
     list_all flow_ok (added_flows d) \<and> list_all flow_ok (removed_flows d)"

definition names_only :: "'d \<Rightarrow> 'd graph_diff \<Rightarrow> 'd graph_diff" where
  \<comment> \<open>what survives a save: of an added layer its name\<close>
  "names_only d0 d = d\<lparr>added_layers := map (\<lambda>l. (fst l, d0)) (added_layers d)\<rparr>"

lemma inverts_byte: "junk \<noteq> [] \<Longrightarrow> inverts (read_byte junk) [b] [b]"
  unfolding read_byte_def by (rule inverts_read) (cases junk; simp)

lemma gives_up_byte: "failed s \<Longrightarrow> gives_up (read_byte junk s)"
  unfolding read_byte_def by (rule gives_up_read)

lemmas inverts_byte_then = inverts_bind [OF inverts_byte]

lemma gives_up_flow: "string_codec wr rd \<Longrightarrow> failed s \<Longrightarrow> gives_up (read_flow junk rd s)"
  unfolding read_flow_def by (intro gives_up_rules gives_up_byte gives_up_rd [of wr rd])

lemma gives_up_diff_layer: "string_codec wr rd \<Longrightarrow> failed s \<Longrightarrow> gives_up (read_layer d0 rd s)"
  unfolding read_layer_def by (intro gives_up_rules gives_up_rd [of wr rd])

lemma inverts_flow:
  assumes "string_codec wr rd" and "flow_ok f" and "junk \<noteq> []"
  shows "inverts (read_flow junk rd) f (write_flow wr f)"
proof -
  have a: "inverts rd (src f) (wr (src f))" and b: "inverts rd (dst f) (wr (dst f))"
    using assms by (auto simp: string_codec_def flow_ok_def)
  have fn: "inverts (\<lambda>s. if hd [if flow_func f \<noteq> None then 1 else 0 :: u8] \<noteq> 0 then rbind (rd s) (\<lambda>(x, s). Inr (Some x, s)) else Inr (None, s))
      (flow_func f) (case flow_func f of None \<Rightarrow> [] | Some x \<Rightarrow> wr x)"
    by (rule inverts_func) (use assms in \<open>auto simp: flow_ok_def\<close>)
  have "inverts (read_flow junk rd) f (wr (src f) @ wr (dst f) @ [if flow_backward f then 1 else 0] @
     [if flow_func f \<noteq> None then 1 else 0] @ (case flow_func f of None \<Rightarrow> [] | Some x \<Rightarrow> wr x) @ [])"
    unfolding read_flow_def
    by (intro inverts_bind [OF a] inverts_bind [OF b] inverts_byte_then [OF assms(3)] inverts_bind [OF fn] inverts_return_eq
        gives_up_rules gives_up_byte gives_up_rd [OF assms(1)]) auto
  then show ?thesis by (simp add: write_flow_def)
qed

lemma inverts_layer_name:
  assumes "string_codec wr rd" and "length (fst l) < 2 ^ 32"
  shows "inverts (read_layer d0 rd) (fst l, d0) ((wr \<circ> fst) l)"
proof -
  have a: "inverts rd (fst l) (wr (fst l))" using assms by (simp add: string_codec_def)
  have "inverts (read_layer d0 rd) (fst l, d0) (wr (fst l) @ [])"
    unfolding read_layer_def by (intro inverts_bind [OF a] inverts_return gives_up_rules)
  then show ?thesis by simp
qed

lemma inverts_block:
  assumes "length xs < 2 ^ 32" and "\<And>x. x \<in> set xs \<Longrightarrow> inverts rd (f x) (wr x)"
    and "\<And>s. failed s \<Longrightarrow> gives_up (rd s)" and "length count = 4"
  shows "inverts (read_block count rd) (write_u32 (of_nat (length xs)), map f xs) (write_block wr xs)"
proof -
  let ?c = "write_u32 (of_nat (length xs))"
  have n: "unat (word_of_bytes ?c) = length xs" by (simp only: word_of_bytes_write unat_of_nat_u32 [OF assms(1)])
  have xs: "inverts (read_times (unat (word_of_bytes ?c)) rd) (map f xs) (concat (map wr xs))"
    unfolding n by (rule inverts_map_times [OF assms(2,3)])
  have c: "inverts (\<lambda>s. Inr (istream_read count s)) ?c ?c"
    by (rule inverts_read) (simp add: assms(4))
  have "inverts (\<lambda>s. rbind (Inr (istream_read count s)) (\<lambda>(b, s). rbind (read_times (unat (word_of_bytes b)) rd s) (\<lambda>(xs, s). Inr ((b, xs), s))))
      (?c, map f xs) (?c @ concat (map wr xs) @ [])"
    by (intro inverts_bind [OF c] inverts_bind [OF xs] inverts_return gives_up_rules gives_up_times assms(3))
  moreover have "read_block count rd = (\<lambda>s. rbind (Inr (istream_read count s)) (\<lambda>(b, s). rbind (read_times (unat (word_of_bytes b)) rd s) (\<lambda>(xs, s). Inr ((b, xs), s))))"
    by (auto simp: read_block_def fun_eq_iff)
  ultimately show ?thesis by (simp add: write_block_def)
qed

lemma gives_up_block: "(\<And>s. failed s \<Longrightarrow> gives_up (rd s)) \<Longrightarrow> failed s \<Longrightarrow> gives_up (read_block count rd s)"
  unfolding read_block_def by (auto simp: istream_read_def Let_def intro!: gives_up_bind gives_up_times)

text \<open>The bind rules for a reader of pairs.\<close>

lemma inverts_bind_pair:
  assumes "inverts P (x1, x2) bs" and "inverts (Q x1 x2) y cs" and "\<And>a b s. failed s \<Longrightarrow> gives_up (Q a b s)"
  shows "inverts (\<lambda>s. rbind (P s) (\<lambda>((a, b), s'). Q a b s')) y (bs @ cs)"
  using inverts_bind [of P "(x1, x2)" bs "\<lambda>(a, b). Q a b" y cs] assms by (simp add: split_def)

lemma gives_up_bind_pair:
  "gives_up m \<Longrightarrow> (\<And>a b s. failed s \<Longrightarrow> gives_up (Q a b s)) \<Longrightarrow> gives_up (rbind m (\<lambda>((a, b), s). Q a b s))"
  using gives_up_bind [of m "\<lambda>(a, b). Q a b"] by (simp add: split_def)

lemma inverts_diff:
  assumes "string_codec wr rd" and "diff_ok d" and "4 \<le> length junk"
  shows "inverts (read_diff d0 junk rd) (names_only d0 d)
    (write_block (wr \<circ> fst) (added_layers d) @ write_block wr (removed_layers d) @
     write_block (write_flow wr) (added_flows d) @ write_block (write_flow wr) (removed_flows d))"
proof -
  note len = assms(2)[unfolded diff_ok_def list_all_iff]
  have up: "\<And>s. failed s \<Longrightarrow> gives_up (read_layer d0 rd s)" "\<And>s. failed s \<Longrightarrow> gives_up (rd s)"
    "\<And>s. failed s \<Longrightarrow> gives_up (read_flow junk rd s)"
    by (rule gives_up_diff_layer [OF assms(1)] gives_up_rd [OF assms(1)] gives_up_flow [OF assms(1)]; assumption)+
  have junk: "junk \<noteq> []" using assms(3) by auto
  let ?c1 = "write_u32 (of_nat (length (added_layers d)))" and ?c2 = "write_u32 (of_nat (length (removed_layers d)))"
    and ?c3 = "write_u32 (of_nat (length (added_flows d)))" and ?c4 = "write_u32 (of_nat (length (removed_flows d)))"
  have b1: "inverts (read_block (take 4 junk) (read_layer d0 rd)) (?c1, map (\<lambda>l. (fst l, d0)) (added_layers d))
      (write_block (wr \<circ> fst) (added_layers d))"
  proof (rule inverts_block)
    show "inverts (read_layer d0 rd) (fst l, d0) ((wr \<circ> fst) l)" if "l \<in> set (added_layers d)" for l
      by (rule inverts_layer_name [OF assms(1)]) (use len that in auto)
  qed (use len up(1) assms(3) in simp_all)
  have b2: "inverts (read_block ?c1 rd) (?c2, removed_layers d) (write_block wr (removed_layers d))"
  proof (rule inverts_block [of "removed_layers d" rd "\<lambda>x. x" wr ?c1, unfolded list.map_ident])
    show "inverts rd n (wr n)" if "n \<in> set (removed_layers d)" for n
      using assms(1) len that by (simp add: string_codec_def)
  qed (use len up(2) in simp_all)
  have b3: "inverts (read_block ?c2 (read_flow junk rd)) (?c3, added_flows d) (write_block (write_flow wr) (added_flows d))"
  proof (rule inverts_block [of "added_flows d" "read_flow junk rd" "\<lambda>x. x" "write_flow wr" ?c2, unfolded list.map_ident])
    show "inverts (read_flow junk rd) f (write_flow wr f)" if "f \<in> set (added_flows d)" for f
      by (rule inverts_flow [OF assms(1) _ junk]) (use len that in auto)
  qed (use len up(3) in simp_all)
  have b4: "inverts (read_block ?c3 (read_flow junk rd)) (?c4, removed_flows d) (write_block (write_flow wr) (removed_flows d))"
  proof (rule inverts_block [of "removed_flows d" "read_flow junk rd" "\<lambda>x. x" "write_flow wr" ?c3, unfolded list.map_ident])
    show "inverts (read_flow junk rd) f (write_flow wr f)" if "f \<in> set (removed_flows d)" for f
      by (rule inverts_flow [OF assms(1) _ junk]) (use len that in auto)
  qed (use len up(3) in simp_all)
  have "inverts (read_diff d0 junk rd) (names_only d0 d)
    (write_block (wr \<circ> fst) (added_layers d) @ write_block wr (removed_layers d) @
     write_block (write_flow wr) (added_flows d) @ write_block (write_flow wr) (removed_flows d) @ [])"
    unfolding read_diff_def
    by (intro inverts_bind_pair [OF b1] inverts_bind_pair [OF b2] inverts_bind_pair [OF b3] inverts_bind_pair [OF b4]
        inverts_return_eq gives_up_bind_pair gives_up_block gives_up_Inr up) (simp_all add: names_only_def)
  then show ?thesis by simp
qed

lemma load_saved_diff:
  assumes "string_codec wr rd" and "diff_ok d" and "4 \<le> length junk"
  shows "load_graph_diff d0 junk rd (save_graph_diff wr d @ extra) = Inr (names_only d0 d)"
proof -
  let ?bs = "write_block (wr \<circ> fst) (added_layers d) @ write_block wr (removed_layers d) @
     write_block (write_flow wr) (added_flows d) @ write_block (write_flow wr) (removed_flows d)"
  have "istream_read (take 4 junk) (good (HGRD @ ?bs @ extra)) = (HGRD, good (?bs @ extra))"
    using assms(3) by (simp add: istream_read_def good_def HGRD_def)
  then show ?thesis
    using invertsD(1) [OF inverts_diff [OF assms], of d0 extra]
    by (simp add: load_graph_diff_def save_graph_diff_def)
qed

lemma write_to_frame: "write_to writable path bytes fs = Inr (c, fs', ms) \<Longrightarrow>
  (c = 0 \<or> fs' = fs) \<and> (\<exists>p. \<forall>q. q = p \<or> fs' q = fs q)"
  by (auto simp: write_to_def split: if_splits)

section \<open>Properties\<close>

text \<open>
  A saved difference is read back with its flows and layer names, whatever follows it in the
  file and whatever the uninitialised variables held; every other member of an added layer is
  lost.
\<close>

theorem graph_diff_roundtrip:
  assumes "string_codec wr rd" and "diff_ok d" and "4 \<le> length junk"
  shows "load_graph_diff d0 junk rd (save_graph_diff wr d @ extra) = Inr (names_only d0 d)"
  by (rule load_saved_diff [OF assms])

definition sample_diff :: "nat graph_diff" where
  "sample_diff = \<lparr>added_layers = [(''dense'', 5)], removed_layers = [''old''],
     added_flows = [\<lparr>src = ''a'', dst = ''b'', flow_backward = True, flow_func = Some ''mse''\<rparr>], removed_flows = []\<rparr>"

lemma sample_diff_ok: "diff_ok sample_diff"
  by (simp add: sample_diff_def diff_ok_def flow_ok_def)

lemma graph_diff_roundtrip_witness:
  "load_graph_diff 0 [1, 2, 3, 4] plain_reader (save_graph_diff plain_writer sample_diff @ [9]) =
     Inr (sample_diff\<lparr>added_layers := [(''dense'', 0)]\<rparr>)"
  using graph_diff_roundtrip [OF plain_codec sample_diff_ok, of "[1, 2, 3, 4]" 0 "[9]"]
  by (simp add: names_only_def sample_diff_def)

text \<open>
  C18: the tool composes with itself: \<open>diff base upd -o d\<close> followed by \<open>apply
  base d -o out\<close> succeeds and leaves in \<open>out\<close> the base graph with what the file
  keeps of the difference applied: the removed layers and all flows, but of the added layers the
  names only (\<open>names_only\<close>), every other member being that of a default layer.
  (\<open>docs/GraphDiffCLI.md\<close> promises the edits that turn the base into the update.)
\<close>

theorem diff_then_apply:
  assumes "string_codec wr rd" and "4 \<le> length junk" and "fs old = Some b1" and "fs new = Some b2"
    and "load_graph G b1 = Inr g1" and "load_graph G b2 = Inr g2" and "diff_ok (diff_graphs G g1 g2)"
    and "writable d" and "writable out" and "d \<noteq> []" and "d \<noteq> old"
  shows "\<exists>fs1. graph_diff_main G d0 junk wr rd writable [prog, ''diff'', old, new, ''-o'', d] fs = Inr (0, fs1, []) \<and>
    graph_diff_main G d0 junk wr rd writable [prog, ''apply'', old, d, ''-o'', out] fs1 =
      Inr (0, fs1(out \<mapsto> save_graph G (apply_diff G g1 (names_only d0 (diff_graphs G g1 g2)))), [])"
proof -
  have "load_graph_diff d0 junk rd (save_graph_diff wr (diff_graphs G g1 g2)) = Inr (names_only d0 (diff_graphs G g1 g2))"
    using load_saved_diff [OF assms(1,7,2), of d0 "[]"] by simp
  with assms show ?thesis
    by (auto simp: graph_diff_main_def diff_command_def apply_command_def write_to_def eval_nat_numeral Let_def
        simp del: fun_upd_apply intro!: exI [of _ "fs(d \<mapsto> save_graph_diff wr (diff_graphs G g1 g2))"])
      (simp_all add: write_to_def fun_eq_iff)
qed

text \<open>
  A difference file says nothing of a new layer but its name: differences whose added layers have
  the same names in the same order, whatever else is in them, are saved as the same bytes.
\<close>

theorem added_layers_forgotten:
  assumes "map fst ls = map fst ls'"
  shows "save_graph_diff wr (d\<lparr>added_layers := ls\<rparr>) = save_graph_diff wr (d\<lparr>added_layers := ls'\<rparr>)"
proof -
  have "map (wr \<circ> fst) ls = map (wr \<circ> fst) ls'" using assms by (metis list.map_comp)
  moreover have "length ls = length ls'" using assms by (metis length_map)
  ultimately show ?thesis by (simp add: save_graph_diff_def write_block_def)
qed

definition sample_graph_ops :: "(nat, nat) graph_ops" where
  "sample_graph_ops = \<lparr>load_graph = \<lambda>bs. Inr (length bs), save_graph = \<lambda>g. replicate g 7, diff_graphs = \<lambda>a b. sample_diff,
     apply_diff = \<lambda>g d. g + length (added_layers d), merge_graphs = \<lambda>a b. a + b\<rparr>"

lemma diff_then_apply_witness:
  "\<exists>fs1. graph_diff_main sample_graph_ops 0 [1, 2, 3, 4] plain_writer plain_reader (\<lambda>_. True)
      [''gd'', ''diff'', ''a'', ''b'', ''-o'', ''d''] [''a'' \<mapsto> [1], ''b'' \<mapsto> [2]] = Inr (0, fs1, []) \<and>
    graph_diff_main sample_graph_ops 0 [1, 2, 3, 4] plain_writer plain_reader (\<lambda>_. True)
      [''gd'', ''apply'', ''a'', ''d'', ''-o'', ''o''] fs1 = Inr (0, fs1(''o'' \<mapsto> [7, 7]), [])"
proof -
  have r: "save_graph sample_graph_ops (apply_diff sample_graph_ops 1 (names_only 0 (diff_graphs sample_graph_ops 1 1))) = [7, 7]"
    by (simp add: sample_graph_ops_def names_only_def sample_diff_def)
  show ?thesis
    unfolding r [symmetric]
    by (rule diff_then_apply [OF plain_codec, where new = "''b''" and ?b1.0 = "[1]" and ?b2.0 = "[2]" and ?g1.0 = 1 and ?g2.0 = 1])
      (simp_all add: sample_graph_ops_def sample_diff_ok)
qed

text \<open>
  The tool is careful with files: whenever it returns, it has changed at most one of them, and
  none when its exit code is not 0.
\<close>

theorem graph_diff_frame:
  assumes "graph_diff_main G d0 junk wr rd writable argv fs = Inr (c, fs', ms)"
  shows "(c = 0 \<or> fs' = fs) \<and> (\<exists>p. \<forall>q. q = p \<or> fs' q = fs q)"
  using assms write_to_frame [of writable _ _ fs c fs' ms]
  by (auto simp: graph_diff_main_def diff_command_def apply_command_def merge_command_def Let_def res_simps
      split: if_splits option.splits)

lemma graph_diff_frame_witness:
  "(0 = (0 :: int) \<or> [''a'' \<mapsto> [1, 2], ''b'' \<mapsto> [1]] = [''a'' \<mapsto> [1 :: u8], ''b'' \<mapsto> [1]]) \<and>
   (\<exists>p. \<forall>q. q = p \<or> [''a'' \<mapsto> [7, 7 :: u8], ''b'' \<mapsto> [1]] q = [''a'' \<mapsto> [1], ''b'' \<mapsto> [1]] q)"
proof -
  have "graph_diff_main sample_graph_ops 0 [1, 2, 3, 4] plain_writer plain_reader (\<lambda>_. True) [''gd'', ''merge'', ''a'', ''b'']
      [''a'' \<mapsto> [1], ''b'' \<mapsto> [1]] = Inr (0, [''a'' \<mapsto> [1], ''b'' \<mapsto> [1]](''a'' \<mapsto> [7, 7]), [])"
    by (simp add: graph_diff_main_def merge_command_def write_to_def sample_graph_ops_def Let_def eval_nat_numeral)
  from graph_diff_frame [OF this] show ?thesis by auto
qed

end
