(* ===== verification/Proof_System.thy ===== *)
theory Proof_System
  imports Float32 Eth_Encoding
begin

text \<open>
  The proof systems of \<open>proof_system.hpp\<close> and \<open>zk_proof_system.cpp\<close>. The
  hash functions and the dynamically loaded prover are arguments: \<open>blake3\<close>,
  \<open>sha256\<close> and \<open>sha3\<close> map the hashed bytes to the digest (an incremental
  hasher digests the concatenation of its updates), \<open>zgen\<close> and \<open>zver\<close> are
  the prover's entry points on the raw structure of two 65-byte buffers.
\<close>

section \<open>Digests\<close>

type_synonym hash = "u8 list \<Rightarrow> u8 list"
type_synonym tensors = "i8 list list"

definition char_bytes :: "string \<Rightarrow> u8 list" where
  "char_bytes s = map of_char s"

definition blake3_digest :: "hash \<Rightarrow> u8 list \<Rightarrow> string" where
  "blake3_digest blake3 data = to_hex (blake3 data)"

definition sha256_digest :: "hash \<Rightarrow> u8 list \<Rightarrow> string" where
  "sha256_digest sha256 data = to_hex (sha256 data)"

definition keccak256_digest :: "hash \<Rightarrow> u8 list \<Rightarrow> string" where
  "keccak256_digest sha3 data = to_hex (sha3 data)"

section \<open>Loss\<close>

definition max_element4 :: "i8 list \<Rightarrow> i8" where
  "max_element4 pred = foldl (\<lambda>m x. if m <s x then x else m) (pred ! 0) [pred ! 1, pred ! 2, pred ! 3]"

definition cross_entropy :: "flops \<Rightarrow> i8 list \<Rightarrow> i8 list \<Rightarrow> f32" where
  "cross_entropy fp pred target =
     (let max_logit = of_int8 fp (max_element4 pred);
          probs = map (\<lambda>i. fexp fp (fsub fp (of_int8 fp (pred ! i)) max_logit)) [0..<4];
          exp_sum = foldl (fadd fp) f_zero probs;
          probs' = map (\<lambda>p. fdiv fp p exp_sum) probs
      in foldl (\<lambda>ce i. let t = of_int8 fp (target ! i); p = f_max (probs' ! i) f_1em7
                     in fadd fp ce (fmul fp (fneg fp t) (flog fp p))) f_zero [0..<4])"

definition squared_error :: "flops \<Rightarrow> i8 list \<Rightarrow> i8 list \<Rightarrow> f32" where
  "squared_error fp pred target =
     (let d = fsub fp (of_int8 fp (pred ! 4)) (of_int8 fp (target ! 4)) in fmul fp d d)"

definition binary_cross_entropy :: "flops \<Rightarrow> i8 list \<Rightarrow> i8 list \<Rightarrow> f32" where
  "binary_cross_entropy fp pred target =
     (let logit = of_int8 fp (pred ! 5); t5 = of_int8 fp (target ! 5);
          prob = fdiv fp f_one (fadd fp f_one (fexp fp (fneg fp logit)));
          prob' = f_clamp prob f_1em7 (fsub fp f_one f_1em7)
      in fneg fp (fadd fp (fmul fp t5 (flog fp prob'))
                          (fmul fp (fsub fp f_one t5) (flog fp (fsub fp f_one prob')))))"

definition compute_loss :: "flops \<Rightarrow> tensors \<Rightarrow> f32" where
  "compute_loss fp tensors =
     (if length tensors < 2 then f_zero
      else let pred = tensors ! 0; target = tensors ! 1 in
        if length pred < 6 \<or> length target < 6 then f_zero
        else fadd fp (fadd fp (cross_entropy fp pred target) (squared_error fp pred target))
               (binary_cross_entropy fp pred target))"

section \<open>Proofs\<close>

record StarkProof =
  root :: string
  proof_field :: string
  loss :: f32

definition blake3_generate :: "flops \<Rightarrow> hash \<Rightarrow> tensors \<Rightarrow> StarkProof" where
  "blake3_generate fp blake3 tensors =
     (let r = to_hex (blake3 (concat tensors))
      in \<lparr>root = r, proof_field = blake3_digest blake3 (char_bytes r), loss = compute_loss fp tensors\<rparr>)"

definition blake3_verify :: "flops \<Rightarrow> hash \<Rightarrow> tensors \<Rightarrow> StarkProof \<Rightarrow> bool" where
  "blake3_verify fp blake3 tensors p =
     (let expected = blake3_generate fp blake3 tensors in
      if root expected \<noteq> root p then False
      else if \<not> f_eq (loss expected) (loss p) then False
      else blake3_digest blake3 (char_bytes (root p)) = proof_field p)"

record zk_proof_raw =
  raw_root :: string
  raw_proof :: string

definition c_string :: "string \<Rightarrow> string res" where
  \<comment> \<open>\<open>std::string\<close> of a char array: up to the first NUL, undefined without one\<close>
  "c_string buf = (if CHR 0x00 \<in> set buf then Inr (takeWhile (\<lambda>c. c \<noteq> CHR 0x00) buf) else Inl Out_Of_Bounds)"

definition snprintf_s :: "nat \<Rightarrow> string \<Rightarrow> string" where
  \<comment> \<open>\<open>snprintf(buf, n, "%s", s)\<close> into a zeroed buffer of \<open>n\<close> characters\<close>
  "snprintf_s n s =
     (let t = take (n - 1) (takeWhile (\<lambda>c. c \<noteq> CHR 0x00) s) in t @ replicate (n - length t) (CHR 0x00))"

definition zk_generate ::
    "flops \<Rightarrow> (i8 list \<Rightarrow> zk_proof_raw) \<Rightarrow> tensors \<Rightarrow> StarkProof res" where
  "zk_generate fp zgen tensors =
     (let raw = zgen (concat tensors) in
      rbind (c_string (raw_root raw)) (\<lambda>r. rbind (c_string (raw_proof raw)) (\<lambda>q.
        Inr \<lparr>root = r, proof_field = q, loss = compute_loss fp tensors\<rparr>)))"

definition zk_verify ::
    "flops \<Rightarrow> (i8 list \<Rightarrow> zk_proof_raw \<Rightarrow> bool) \<Rightarrow> tensors \<Rightarrow> StarkProof \<Rightarrow> bool" where
  "zk_verify fp zver tensors p =
     (let raw = \<lparr>raw_root = snprintf_s 65 (root p), raw_proof = snprintf_s 65 (proof_field p)\<rparr> in
      if \<not> zver (concat tensors) raw then False else f_eq (compute_loss fp tensors) (loss p))"

section \<open>Loading the prover\<close>

text \<open>
  The constructor, which the preprocessor gives three forms. \<open>load\<close> is the set of names
  that \<open>dlopen\<close> or \<open>LoadLibraryA\<close> can open, \<open>exports\<close> the
  entry points a library has; the result is the name that was loaded, or the abort.
\<close>

datatype platform = Apple | Unix | Windows

fun default_name :: "platform \<Rightarrow> string" where
  "default_name Apple = ''libstark_prover_v2.dylib''"
| "default_name Unix = ''libstark_prover_v2.so''"
| "default_name Windows = ''stark_prover_v2.dll''"

fun fallback_name :: "platform \<Rightarrow> string" where
  "fallback_name Apple = ''libstark_prover.dylib''"
| "fallback_name Unix = ''libstark_prover.so''"
| "fallback_name Windows = ''stark_prover.dll''"

definition separator :: "platform \<Rightarrow> char" where
  "separator pl = (if pl = Windows then CHR 0x5c else CHR ''/'')"

definition try_load :: "platform \<Rightarrow> (string \<Rightarrow> bool) \<Rightarrow> string \<Rightarrow> string option" where
  "try_load pl load p =
     (if load p then Some p
      else if separator pl \<notin> set p \<and> load (''.'' @ separator pl # p) then Some (''.'' @ separator pl # p)
      else None)"

definition load_prover :: "platform \<Rightarrow> string option \<Rightarrow> (string \<Rightarrow> bool) \<Rightarrow> (string \<Rightarrow> string \<Rightarrow> bool) \<Rightarrow> string res" where
  "load_prover pl env load exports =
     (let path = (case env of None \<Rightarrow> default_name pl | Some p \<Rightarrow> p);
          handle = try_load pl load path;
          handle = (if handle = None \<and> env = None then try_load pl load (fallback_name pl) else handle)
      in case handle of
           None \<Rightarrow> Inl (Thrown ''abort'')
         | Some h \<Rightarrow>
             if exports h ''zk_generate_proof'' \<and> exports h ''zk_verify_proof'' then Inr h else Inl (Thrown ''abort''))"

section \<open>The interface of a proof system\<close>

text \<open>
  \<open>IProofSystem\<close>: what its clients rely on. A proof that verifies carries a loss equal
  to the one recomputed, in both systems (\<open>checked_proofs\<close>); with Blake3 moreover a
  generated proof carries the loss of its tensors and verifies against them unless that loss is NaN
  (\<open>proof_system\<close>).
\<close>

locale checked_proofs =
  fixes ver :: "tensors \<Rightarrow> StarkProof \<Rightarrow> bool" and lossf :: "tensors \<Rightarrow> f32"
  assumes ver_loss: "ver ts p \<Longrightarrow> f_eq (lossf ts) (loss p)"
begin

lemma ver_not_nan: "ver ts p \<Longrightarrow> \<not> is_nan (lossf ts) \<and> \<not> is_nan (loss p)"
  using ver_loss [of ts p] by (auto simp: f_eq_def)

lemma ver_same_loss: "ver ts p \<Longrightarrow> ver us p \<Longrightarrow> f_eq (lossf ts) (lossf us)"
  using ver_loss [of ts p] ver_loss [of us p] by (auto simp: f_eq_def)

end

locale proof_system = checked_proofs +
  fixes gen :: "tensors \<Rightarrow> StarkProof res"
  assumes gen_loss: "gen ts = Inr p \<Longrightarrow> loss p = lossf ts"
    and ver_gen: "gen ts = Inr p \<Longrightarrow> ver ts p \<longleftrightarrow> \<not> is_nan (lossf ts)"

lemma blake3_verify_iff:
  "blake3_verify fp blake3 ts p \<longleftrightarrow>
     root p = root (blake3_generate fp blake3 ts) \<and>
     proof_field p = proof_field (blake3_generate fp blake3 ts) \<and> f_eq (compute_loss fp ts) (loss p)"
  by (auto simp: blake3_verify_def blake3_generate_def Let_def)

interpretation zk_system: checked_proofs "zk_verify fp zver" "compute_loss fp" for fp zver
  by unfold_locales (simp add: zk_verify_def Let_def split: if_splits)

interpretation blake3_system: proof_system "blake3_verify fp blake3" "compute_loss fp" "\<lambda>ts. Inr (blake3_generate fp blake3 ts)" for fp blake3
proof unfold_locales
  fix ts :: tensors and p :: StarkProof
  have l: "loss (blake3_generate fp blake3 ts) = compute_loss fp ts"
    by (simp add: blake3_generate_def Let_def)
  show "blake3_verify fp blake3 ts p \<Longrightarrow> f_eq (compute_loss fp ts) (loss p)"
    by (simp add: blake3_verify_iff)
  assume "Inr (blake3_generate fp blake3 ts) = (Inr p :: StarkProof res)"
  then have p: "p = blake3_generate fp blake3 ts" by simp
  show "loss p = compute_loss fp ts" by (simp only: p l)
  show "blake3_verify fp blake3 ts p \<longleftrightarrow> \<not> is_nan (compute_loss fp ts)"
    by (simp add: p blake3_verify_iff l)
qed

lemma hex_char_inj: "a < 16 \<Longrightarrow> b < 16 \<Longrightarrow> hex_char a = hex_char b \<Longrightarrow> a = b"
  by (metis hex_digit_char option.inject)

lemma to_hex_inj: "to_hex bs = to_hex cs \<longleftrightarrow> bs = cs"
proof
  assume "to_hex bs = to_hex cs"
  then show "bs = cs"
  proof (induction bs arbitrary: cs)
    case (Cons b bs)
    then obtain c cs' where c: "cs = c # cs'" by (cases cs) auto
    then have "hex_char (unat b div 16) = hex_char (unat c div 16)" "hex_char (unat b mod 16) = hex_char (unat c mod 16)"
      "to_hex bs = to_hex cs'" using Cons.prems by simp_all
    then have "unat b div 16 = unat c div 16" "unat b mod 16 = unat c mod 16" "bs = cs'"
      using Cons.IH hex_char_inj unat_u8_div by (metis mod_less_divisor zero_less_numeral)+
    then have "unat b = unat c" by (metis div_mult_mod_eq)
    then have "b = c" by (rule unsigned_word_eqI)
    with \<open>bs = cs'\<close> c show ?case by simp
  next
    case Nil
    then show ?case by (cases cs) auto
  qed
qed simp

lemma snprintf_prefix:
  "take 64 (takeWhile (\<lambda>c. c \<noteq> CHR 0x00) s) = take 64 (takeWhile (\<lambda>c. c \<noteq> CHR 0x00) t) \<Longrightarrow>
   snprintf_s 65 s = snprintf_s 65 t"
  by (simp add: snprintf_s_def)

definition candidates :: "platform \<Rightarrow> string option \<Rightarrow> string list" where
  \<comment> \<open>the names that are tried, in order\<close>
  "candidates pl env =
     concat (map (\<lambda>p. p # (if separator pl \<in> set p then [] else [''.'' @ separator pl # p]))
       (case env of None \<Rightarrow> [default_name pl, fallback_name pl] | Some p \<Rightarrow> [p]))"

section \<open>Properties\<close>

text \<open>
  The Blake3 root identifies the concatenated bytes of the tensors and nothing else: two
  tensor lists have the same root and proof field exactly when their concatenations have the
  same digest, so moving the boundary between two tensors, or adding an empty tensor, never
  changes the root.
\<close>

theorem blake3_root_binds_concatenation:
  "(root (blake3_generate fp blake3 ts) = root (blake3_generate fp blake3 us) \<longleftrightarrow>
      blake3 (concat ts) = blake3 (concat us)) \<and>
   root (blake3_generate fp blake3 ((xs @ ys) # ts)) = root (blake3_generate fp blake3 (xs # ys # ts)) \<and>
   root (blake3_generate fp blake3 ([] # ts)) = root (blake3_generate fp blake3 ts)"
  by (simp add: blake3_generate_def Let_def to_hex_inj)

text \<open>
  Verification against the Blake3 system is exact: a generated proof verifies unless its
  loss is NaN, a verifying proof has the generated root and proof field, and no proof whose loss
  field is NaN verifies.
\<close>

theorem blake3_verify_exact:
  "(blake3_verify fp blake3 ts (blake3_generate fp blake3 ts) \<longleftrightarrow> \<not> is_nan (compute_loss fp ts)) \<and>
   (\<not> is_nan (loss p) \<and> root p = root (blake3_generate fp blake3 ts) \<and>
      proof_field p = blake3_digest blake3 (char_bytes (root p)) \<and> f_eq (compute_loss fp ts) (loss p)
    \<longleftrightarrow> blake3_verify fp blake3 ts p)"
proof
  have f: "proof_field (blake3_generate fp blake3 ts) =
      blake3_digest blake3 (char_bytes (root (blake3_generate fp blake3 ts)))"
    and l: "loss (blake3_generate fp blake3 ts) = compute_loss fp ts"
    by (simp_all add: blake3_generate_def Let_def)
  show "blake3_verify fp blake3 ts (blake3_generate fp blake3 ts) \<longleftrightarrow> \<not> is_nan (compute_loss fp ts)"
    by (simp add: blake3_verify_iff l)
  show "\<not> is_nan (loss p) \<and> root p = root (blake3_generate fp blake3 ts) \<and>
      proof_field p = blake3_digest blake3 (char_bytes (root p)) \<and> f_eq (compute_loss fp ts) (loss p)
    \<longleftrightarrow> blake3_verify fp blake3 ts p"
    using blake3_system.ver_not_nan [of fp blake3 ts p] f unfolding blake3_verify_iff by metis
qed

text \<open>
  The loss looks at the first six elements of the first two tensors only: all other
  elements and all other tensors can change without changing it.
\<close>

theorem compute_loss_six:
  assumes "6 \<le> length pred" and "6 \<le> length target"
  shows "compute_loss fp (pred # target # rest) = compute_loss fp [take 6 pred, take 6 target]"
  using assms
  by (simp add: compute_loss_def cross_entropy_def squared_error_def binary_cross_entropy_def
      max_element4_def Let_def min_def upt_conv_Cons)

lemma compute_loss_six_witness:
  "\<forall>fp. compute_loss fp [[1, 2, 3, 4, 5, 6, 100], [0, 0, 0, 1, 5, 1], [9]] =
   compute_loss fp [[1, 2, 3, 4, 5, 6], [0, 0, 0, 1, 5, 1]]"
  using compute_loss_six [of "[1, 2, 3, 4, 5, 6, 100]" "[0, 0, 0, 1, 5, 1]" _ "[[9]]"] by simp

text \<open>
  The STARK verifier compares 64 characters: two proofs whose root and proof strings agree in
  their first 64 characters (up to a NUL) and whose losses are equal are accepted or rejected
  together, although their roots are different strings to everything that stores proofs by root.
\<close>

theorem zk_verify_truncates:
  assumes "take 64 (takeWhile (\<lambda>c. c \<noteq> CHR 0x00) (root p)) = take 64 (takeWhile (\<lambda>c. c \<noteq> CHR 0x00) (root q))"
    and "take 64 (takeWhile (\<lambda>c. c \<noteq> CHR 0x00) (proof_field p)) = take 64 (takeWhile (\<lambda>c. c \<noteq> CHR 0x00) (proof_field q))"
    and "loss p = loss q"
  shows "zk_verify fp zver ts p = zk_verify fp zver ts q"
  using snprintf_prefix [OF assms(1)] snprintf_prefix [OF assms(2)] assms(3)
  by (simp add: zk_verify_def)

lemma zk_verify_truncates_witness:
  "\<forall>fp zver ts. zk_verify fp zver ts \<lparr>root = replicate 64 (CHR ''a''), proof_field = [], loss = 0\<rparr> =
   zk_verify fp zver ts \<lparr>root = replicate 64 (CHR ''a'') @ ''!'', proof_field = [], loss = 0\<rparr>"
  by (intro allI, rule zk_verify_truncates) (code_simp, code_simp, simp)

text \<open>
  With a prover that keeps its contract (its buffers are NUL-terminated strings and its
  verifier accepts what it generates) the STARK system proves and verifies: generation never
  reads past the buffers, and the generated proof verifies exactly when its loss is not NaN.
\<close>

theorem zk_complete:
  assumes "\<And>buf. zver buf (zgen buf)"
    and "\<And>buf. \<exists>r q. zgen buf = \<lparr>raw_root = snprintf_s 65 r, raw_proof = snprintf_s 65 q\<rparr>"
  shows "\<exists>p. zk_generate fp zgen ts = Inr p \<and> loss p = compute_loss fp ts \<and>
    (zk_verify fp zver ts p \<longleftrightarrow> \<not> is_nan (compute_loss fp ts))"
proof -
  have c: "c_string (snprintf_s 65 s) = Inr (take 64 (takeWhile (\<lambda>c. c \<noteq> CHR 0x00) s))" for s
  proof -
    let ?t = "take 64 (takeWhile (\<lambda>c. c \<noteq> CHR 0x00) s)"
    have nz: "c \<noteq> CHR 0x00" if "c \<in> set ?t" for c
      using that by (auto dest!: in_set_takeD set_takeWhileD)
    obtain k where k: "65 - length ?t = Suc k" by (cases "65 - length ?t") auto
    have "takeWhile (\<lambda>c. c \<noteq> CHR 0x00) (?t @ replicate (Suc k) (CHR 0x00)) =
        ?t @ takeWhile (\<lambda>c. c \<noteq> CHR 0x00) (replicate (Suc k) (CHR 0x00))"
      by (rule takeWhile_append2) (rule nz)
    also have "\<dots> = ?t" by simp
    finally have w: "takeWhile (\<lambda>c. c \<noteq> CHR 0x00) (?t @ replicate (Suc k) (CHR 0x00)) = ?t" .
    have "snprintf_s 65 s = ?t @ replicate (Suc k) (CHR 0x00)"
      unfolding snprintf_s_def Let_def by (simp only: k [symmetric]) simp
    then show ?thesis by (simp only: c_string_def w) simp
  qed
  have s: "snprintf_s 65 (take 64 (takeWhile (\<lambda>c. c \<noteq> CHR 0x00) s)) = snprintf_s 65 s" for s
  proof -
    let ?t = "takeWhile (\<lambda>c. c \<noteq> CHR 0x00) s"
    have "takeWhile (\<lambda>c. c \<noteq> CHR 0x00) (take 64 ?t) = take 64 ?t"
      by (rule takeWhile_eq_all_conv [THEN iffD2]) (auto dest!: in_set_takeD set_takeWhileD)
    then show ?thesis by (intro snprintf_prefix) (simp only: take_take min.idem)
  qed
  obtain r q where "zgen (concat ts) = \<lparr>raw_root = snprintf_s 65 r, raw_proof = snprintf_s 65 q\<rparr>"
    using assms(2) by blast
  with assms(1) [of "concat ts"] show ?thesis
    by (auto simp: zk_generate_def zk_verify_def c s Let_def)
qed

lemma zk_complete_witness:
  "\<forall>fp. \<exists>p. zk_generate fp (\<lambda>buf. \<lparr>raw_root = snprintf_s 65 ''ab'', raw_proof = snprintf_s 65 ''cd''\<rparr>) [[1]] = Inr p \<and>
    loss p = compute_loss fp [[1]] \<and>
    (zk_verify fp (\<lambda>buf raw. raw_root raw = snprintf_s 65 ''ab'') [[1]] p \<longleftrightarrow> \<not> is_nan (compute_loss fp [[1]]))"
  by (intro allI, rule zk_complete) auto

text \<open>
  The prover is the first library that loads among the candidates: with \<open>ZK_PROVER_PATH\<close> its value
  and, when that has no separator, the file of this name in the working directory; without it the
  second version and then the first, each by name and in the working directory. The entry points
  are asked of that library only: when it lacks one the process aborts, even when a later
  candidate has both.
\<close>

theorem prover_first_candidate:
  "load_prover pl env load exports =
     (case List.find load (candidates pl env) of
        None \<Rightarrow> Inl (Thrown ''abort'')
      | Some h \<Rightarrow> if exports h ''zk_generate_proof'' \<and> exports h ''zk_verify_proof'' then Inr h else Inl (Thrown ''abort''))"
  by (cases env; cases pl) (simp_all add: load_prover_def candidates_def try_load_def separator_def Let_def)

end
