(* ===== verification/Onchain.thy ===== *)
theory Onchain
  imports Matchmaking
begin

text \<open>
  The JSON-RPC clients of the contracts: \<open>onchain_training.hpp\<close> (TrainingLedger),
  \<open>onchain_verifier.hpp\<close> (ProofVerifier) and \<open>onchain_curriculum.hpp\<close>
  (CurriculumDuel). A request is a string; \<open>post\<close> is the outcome of
  \<open>http_post_json\<close> for it: whether it was delivered, or, for a call with a response,
  the response text. The asynchronous variants run the same function on another thread.
\<close>

definition call_body :: "string \<Rightarrow> string \<Rightarrow> string" where
  "call_body contract data =
     ''{\"jsonrpc\":\"2.0\",\"method\":\"eth_call\",'' @
     ''\"params\":[{\"to\":\"'' @ contract @ ''\",\"data\":\"'' @ data @ ''\"},\"latest\"],\"id\":1}''"

section \<open>Training ledger\<close>

definition checkpoint_calldata ::
    "u32 \<Rightarrow> u32 \<Rightarrow> string \<Rightarrow> u32 \<Rightarrow> u32 \<Rightarrow> bool \<Rightarrow> u32 \<Rightarrow> string \<Rightarrow> string" where
  "checkpoint_calldata creature_id epoch_id root_hash model_bytes loss loss_drop energy_spent rule_hash =
     ''0x5df4059d'' @ encode_uint32 creature_id @ encode_uint32 epoch_id @ encode_bytes32 root_hash @
     encode_uint32 model_bytes @ encode_uint32 loss @ encode_bool loss_drop @
     encode_uint32 energy_spent @ encode_bytes32 rule_hash"

definition training_submit_checkpoint ::
    "(string \<Rightarrow> bool) \<Rightarrow> string \<Rightarrow> u32 \<Rightarrow> u32 \<Rightarrow> string \<Rightarrow> u32 \<Rightarrow> u32 \<Rightarrow> bool \<Rightarrow> u32 \<Rightarrow> string \<Rightarrow> bool" where
  "training_submit_checkpoint post contract c e r mb l ld es rh =
     post (tx_body contract (checkpoint_calldata c e r mb l ld es rh))"

definition finalize_calldata :: "string \<Rightarrow> string" where
  "finalize_calldata root_hash = ''0x70d13b75'' @ encode_bytes32 root_hash"

definition training_finalize_checkpoint :: "(string \<Rightarrow> bool) \<Rightarrow> string \<Rightarrow> string \<Rightarrow> bool" where
  \<comment> \<open>the outcome is only logged\<close>
  "training_finalize_checkpoint post contract root_hash = post (tx_body contract (finalize_calldata root_hash))"

definition reward_calldata :: "string \<Rightarrow> u32 \<Rightarrow> string" where
  "reward_calldata miner amount = ''0xdbe12956'' @ encode_bytes32 miner @ encode_uint256 (ucast amount)"

definition training_reward_miner :: "(string \<Rightarrow> bool) \<Rightarrow> string \<Rightarrow> string \<Rightarrow> u32 \<Rightarrow> bool" where
  "training_reward_miner post contract miner amount = post (tx_body contract (reward_calldata miner amount))"

section \<open>Proof verifier\<close>

definition proof_calldata :: "string \<Rightarrow> string \<Rightarrow> string" where
  "proof_calldata root proof = ''0xb76df398'' @ encode_bytes32 root @ encode_uint256 0x40 @ encode_bytes proof"

definition verifier_submit_proof :: "(string \<Rightarrow> bool) \<Rightarrow> string \<Rightarrow> string \<Rightarrow> string \<Rightarrow> bool" where
  "verifier_submit_proof post contract root proof = post (tx_body contract (proof_calldata root proof))"

definition parse_verified :: "string \<Rightarrow> bool" where
  "parse_verified resp =
     (case find_from ''\"result\"'' resp 0 of
        None \<Rightarrow> False
      | Some p \<Rightarrow>
          (case find_from ''0x'' resp p of
             None \<Rightarrow> False
           | Some pos \<Rightarrow>
               if length resp < pos + 66 then False
               else let hex = substr resp (pos + 2) 64 in hex \<noteq> [] \<and> last hex = CHR ''1''))"

definition call_verify :: "(string \<Rightarrow> string option) \<Rightarrow> string \<Rightarrow> string \<Rightarrow> bool" where
  "call_verify post contract root =
     (case post (call_body contract (''0x256aa6a0'' @ encode_bytes32 root)) of
        None \<Rightarrow> False
      | Some resp \<Rightarrow> parse_verified resp)"

section \<open>Curriculum\<close>

definition parse_dataset :: "string \<Rightarrow> string option" where
  "parse_dataset resp =
     (case find_from ''\"result\"'' resp 0 of
        None \<Rightarrow> None
      | Some p \<Rightarrow>
          (case find_from ''0x'' resp p of
             None \<Rightarrow> None
           | Some q \<Rightarrow>
               let pos = q + 2 in
               (case find_from ''\"'' resp pos of
                  None \<Rightarrow> None
                | Some stop \<Rightarrow> Some (substr resp pos (stop - pos)))))"

definition get_dataset :: "(string \<Rightarrow> string option) \<Rightarrow> string \<Rightarrow> u64 \<Rightarrow> string option" where
  "get_dataset post contract duel_id =
     (case post (call_body contract (''0xf968825d'' @ encode_uint256 duel_id)) of
        None \<Rightarrow> None
      | Some resp \<Rightarrow> parse_dataset resp)"

definition stoi16 :: "string \<Rightarrow> int res" where
  \<comment> \<open>\<open>std::stoi(s, nullptr, 16)\<close> for strings of at most seven digits, which cannot overflow\<close>
  "stoi16 s =
     (let s1 = dropWhile is_space s;
          neg = (take 1 s1 = ''-'');
          s2 = (if take 1 s1 = ''-'' \<or> take 1 s1 = ''+'' then drop 1 s1 else s1);
          s3 = (if (take 2 s2 = ''0x'' \<or> take 2 s2 = ''0X'') \<and> 2 < length s2 \<and> hex_digit (s2 ! 2) \<noteq> None
                then drop 2 s2 else s2);
          ds = takeWhile (\<lambda>c. hex_digit c \<noteq> None) s3
      in if ds = [] then Inl (Thrown ''stoi'')
         else Inr (if neg then - int (hex_val ds) else int (hex_val ds)))"

definition decode_hex :: "string \<Rightarrow> u8 list res" where
  "decode_hex hex =
     (let h = strip_0x hex in
      rfold (\<lambda>k out. rbind (stoi16 (substr h (2 * k) 2)) (\<lambda>v. upd out k (word_of_int v)))
        [0..<length h div 2] (replicate (length h div 2) 0))"

section \<open>Reading calldata back\<close>

fun abi_words :: "nat \<Rightarrow> string \<Rightarrow> nat list" where
  "abi_words 0 s = []"
| "abi_words (Suc n) s = hex_val (take 64 s) # abi_words n (drop 64 s)"

lemma length_word: "abi_word w v \<Longrightarrow> length w = 64"
  by (simp add: abi_word_def)

text \<open>A selector of ten characters and a list of words, read back.\<close>

lemma abi_words_concat:
  "list_all2 abi_word ws vs \<Longrightarrow> n = length vs \<Longrightarrow> abi_words n (concat ws) = vs \<and> length (concat ws) = 64 * n"
  by (induction ws vs arbitrary: n rule: list_all2_induct) (auto simp: abi_word_def)

lemma bytes32_word: "is_hex h \<Longrightarrow> abi_word (encode_bytes32 h) (hex_val h mod 2 ^ 256)"
  using encode_bytes32_word [of h] strip_0x_idem_hex [of h] by simp

lemmas word_intros = encode_uint32_word encode_bool_word bytes32_word uint256_abi.enc_word int32_abi.enc_word

section \<open>Decoding hex\<close>

lemma hex_char_plain:
  "d < 16 \<Longrightarrow> \<not> is_space (hex_char d) \<and> hex_char d \<noteq> CHR ''-'' \<and> hex_char d \<noteq> CHR ''+'' \<and>
     hex_char d \<noteq> CHR ''x'' \<and> hex_char d \<noteq> CHR ''X''"
  by (drule nat_less_16_cases) (auto simp: hex_char_def is_space_def)

lemma stoi16_byte: "a < 16 \<Longrightarrow> b < 16 \<Longrightarrow> stoi16 [hex_char a, hex_char b] = Inr (int (16 * a + b))"
  using hex_char_plain [of a] hex_char_plain [of b]
  by (simp add: stoi16_def Let_def hex_val_def)

lemma substr_to_hex:
  "k < length bs \<Longrightarrow> substr (to_hex bs) (2 * k) 2 = [hex_char (unat (bs ! k) div 16), hex_char (unat (bs ! k) mod 16)]"
proof (induction bs arbitrary: k)
  case (Cons b bs)
  then show ?case by (cases k) (auto simp: substr_def numeral_2_eq_2)
qed simp

lemma decode_hex_to_hex: "decode_hex (to_hex bs) = Inr bs"
proof -
  let ?f = "\<lambda>k out. rbind (stoi16 (substr (to_hex bs) (2 * k) 2)) (\<lambda>v. upd out k (word_of_int v :: u8))"
  let ?P = "\<lambda>k. take k bs @ replicate (length bs - k) 0"
  have "rfold ?f [0..<length bs] (?P 0) = Inr (?P (length bs))"
  proof (rule rfold_steps)
    fix i assume i: "i < length bs"
    have "stoi16 (substr (to_hex bs) (2 * i) 2) = Inr (int (unat (bs ! i)))"
      using i by (simp add: substr_to_hex stoi16_byte unat_u8_div)
    moreover have "(?P i)[i := bs ! i] = ?P (Suc i)"
      using i by (intro nth_equalityI) (auto simp: nth_append nth_list_update less_Suc_eq)
    ultimately show "?f i (?P i) = Inr (?P (Suc i))"
      using i by simp
  qed simp
  then show ?thesis by (simp add: decode_hex_def strip_0x_idem_hex Let_def)
qed

section \<open>Responses\<close>

definition result_response :: "string \<Rightarrow> string" where
  \<comment> \<open>what a node answers to \<open>eth_call\<close>\<close>
  "result_response hex = ''{\"jsonrpc\":\"2.0\",\"id\":1,\"result\":\"0x'' @ hex @ ''\"}''"

lemma result_response_find:
  "find_from ''\"result\"'' (result_response hex) 0 = Some 24"
  "find_from ''0x'' (result_response hex) 24 = Some 34"
  "drop 36 (result_response hex) = hex @ ''\"}''"
  "length (result_response hex) = 38 + length hex"
  by (simp_all add: result_response_def find_from_def)

lemma find_in_skip: "c \<notin> set s \<Longrightarrow> find_in [c] (s @ c # r) i = Some (i + length s)"
  by (induction s arbitrary: i) auto

lemma hex_no_quote: "is_hex h \<Longrightarrow> CHR 0x22 \<notin> set h"
  by (auto simp: is_hex_def hex_digit_def)

section \<open>Properties\<close>

text \<open>
  The calldata of a checkpoint is the selector followed by eight ABI words that denote, in
  the order of the contract's parameters, exactly the submitted values.
\<close>

theorem checkpoint_calldata_words:
  assumes "is_hex root_hash" and "is_hex rule_hash"
  shows "take 10 (checkpoint_calldata c e root_hash mb l ld es rule_hash) = ''0x5df4059d'' \<and>
    length (checkpoint_calldata c e root_hash mb l ld es rule_hash) = 10 + 64 * 8 \<and>
    abi_words 8 (drop 10 (checkpoint_calldata c e root_hash mb l ld es rule_hash)) =
      [unat c, unat e, hex_val root_hash mod 2 ^ 256, unat mb, unat l, if ld then 1 else 0, unat es,
       hex_val rule_hash mod 2 ^ 256]"
proof -
  let ?ws = "[encode_uint32 c, encode_uint32 e, encode_bytes32 root_hash, encode_uint32 mb, encode_uint32 l,
    encode_bool ld, encode_uint32 es, encode_bytes32 rule_hash]"
  let ?vs = "[unat c, unat e, hex_val root_hash mod 2 ^ 256, unat mb, unat l, if ld then 1 else 0, unat es,
    hex_val rule_hash mod 2 ^ 256]"
  have "list_all2 abi_word ?ws ?vs"
    using assms by (simp only: list_all2_Cons list_all2_Nil word_intros simp_thms)
  moreover have "8 = length ?vs" by simp
  ultimately have "abi_words 8 (concat ?ws) = ?vs \<and> length (concat ?ws) = 64 * 8" by (rule abi_words_concat)
  moreover have "checkpoint_calldata c e root_hash mb l ld es rule_hash = ''0x5df4059d'' @ concat ?ws"
    by (simp only: checkpoint_calldata_def concat.simps append_Nil2 append_assoc)
  ultimately show ?thesis by (simp del: concat.simps abi_words.simps)
qed

lemma checkpoint_calldata_words_witness:
  "abi_words 8 (drop 10 (checkpoint_calldata 7 3 ''0a'' 100 42 True 5 ''ff'')) = [7, 3, 10, 100, 42, 1, 5, 255]"
  using checkpoint_calldata_words [of "''0a''" "''ff''" 7 3 100 42 True 5]
  by (simp add: hex_digit_def hex_val_def)

text \<open>
  The calldata of an on-chain battle denotes the ids, the base statistics and the seed of the
  two creatures in order, and nothing of their items: equipping an item changes the totals the
  fight uses and never the recorded calldata.
\<close>

theorem arena_calldata_words:
  assumes "in_i32 (power a)" "in_i32 (defense a)" "in_i32 (stamina a)"
    and "in_i32 (power b)" "in_i32 (defense b)" "in_i32 (stamina b)"
  shows "abi_words 9 (drop 10 (arena_calldata a b seed)) =
      [unat (cid a), nat (power a mod 2 ^ 256), nat (defense a mod 2 ^ 256), nat (stamina a mod 2 ^ 256),
       unat (cid b), nat (power b mod 2 ^ 256), nat (defense b mod 2 ^ 256), nat (stamina b mod 2 ^ 256),
       unat seed] \<and>
    arena_calldata (attach_item a it) (detach_item b k) seed = arena_calldata a b seed"
proof
  show "arena_calldata (attach_item a it) (detach_item b k) seed = arena_calldata a b seed"
    by (simp add: arena_calldata_def attach_item_def detach_item_def)
  let ?ws = "[encode_uint32 (cid a), encode_int32 (power a), encode_int32 (defense a), encode_int32 (stamina a),
    encode_uint32 (cid b), encode_int32 (power b), encode_int32 (defense b), encode_int32 (stamina b),
    encode_uint32 seed]"
  let ?vs = "[unat (cid a), nat (power a mod 2 ^ 256), nat (defense a mod 2 ^ 256), nat (stamina a mod 2 ^ 256),
    unat (cid b), nat (power b mod 2 ^ 256), nat (defense b mod 2 ^ 256), nat (stamina b mod 2 ^ 256), unat seed]"
  have "list_all2 abi_word ?ws ?vs"
    using assms by (simp only: list_all2_Cons list_all2_Nil encode_uint32_word encode_int32_word simp_thms)
  moreover have "9 = length ?vs" by simp
  ultimately have "abi_words 9 (concat ?ws) = ?vs \<and> length (concat ?ws) = 64 * 9" by (rule abi_words_concat)
  moreover have "arena_calldata a b seed = ''0x92a4f9e6'' @ concat ?ws"
    by (simp only: arena_calldata_def concat.simps append_Nil2 append_assoc)
  ultimately show "abi_words 9 (drop 10 (arena_calldata a b seed)) = ?vs"
    by (simp del: concat.simps abi_words.simps)
qed

lemma arena_calldata_words_witness:
  "arena_calldata (attach_item (basic 1 5 4 3) \<lparr>item_id = 9, item_power = 100, item_defense = 0, item_stamina = 0\<rparr>)
     (detach_item (basic 2 5 4 3) 0) 8 = arena_calldata (basic 1 5 4 3) (basic 2 5 4 3) 8"
  using arena_calldata_words [of "basic 1 5 4 3" "basic 2 5 4 3" 8]
  by (simp add: basic_def in_i32_def)

text \<open>
  The verifier reads a boolean answer back: on the response that carries the ABI word of
  \<open>b\<close> it returns \<open>b\<close>; without a response, or with one that has no result
  field, it returns false.
\<close>

theorem call_verify_roundtrip:
  "call_verify (\<lambda>_. Some (result_response (encode_bool b))) contract root = b \<and>
   \<not> call_verify (\<lambda>_. None) contract root \<and>
   \<not> call_verify (\<lambda>_. Some ''{\"jsonrpc\":\"2.0\",\"id\":1,\"error\":{}}'') contract root"
proof -
  have "take 64 (encode_bool b @ ''\"}'') = encode_bool b" by simp
  then show ?thesis
    by (simp add: call_verify_def parse_verified_def result_response_find substr_def)
      (simp add: encode_bool_def find_from_def)
qed

text \<open>
  The parser of a dataset and the hex decoder are inverse to printing: from a response whose result
  is the hex of a byte string, \<open>get_dataset\<close> extracts the hex and
  \<open>decode_hex\<close> gives back the bytes. (What a node really puts there is the ABI encoding
  of the bytes, see \<open>Chain_Queries\<close>.)
\<close>

theorem curriculum_roundtrip:
  "get_dataset (\<lambda>_. Some (result_response (to_hex bs))) contract duel_id = Some (to_hex bs) \<and>
   decode_hex (to_hex bs) = Inr bs \<and> decode_hex (''0x'' @ to_hex bs) = Inr bs"
proof -
  have "find_from ''\"'' (result_response (to_hex bs)) 36 = Some (36 + length (to_hex bs))"
    using find_in_skip [OF hex_no_quote [of "to_hex bs"], of "''}''" 36]
    by (simp add: find_from_def result_response_find)
  then have "get_dataset (\<lambda>_. Some (result_response (to_hex bs))) contract duel_id = Some (to_hex bs)"
    by (simp add: get_dataset_def parse_dataset_def result_response_find substr_def Let_def)
  moreover have "decode_hex (''0x'' @ to_hex bs) = decode_hex (to_hex bs)"
    by (simp only: decode_hex_def strip_0x_prefix) (simp add: strip_0x_idem_hex)
  ultimately show ?thesis by (simp add: decode_hex_to_hex)
qed

end
