(* ===== verification/Sockets.thy ===== *)
theory Sockets
  imports Prelude
begin

text \<open>
  Stream sockets for writing. A socket is the bytes already on the wire and the number it will still
  take before an error; how many bytes one call moves is decided by the argument
  \<open>chunk\<close>, a function of the position on the wire and the size asked for. The loop that
  sends a whole buffer occurs in \<open>proof_aggregator.hpp\<close> and, with
  \<open>net_write\<close>, in \<open>http_client.hpp\<close>.
\<close>

record out_socket =
  wire :: "u8 list"
  room :: nat

definition sock_send :: "nat \<Rightarrow> u8 list \<Rightarrow> out_socket \<Rightarrow> nat \<times> out_socket" where
  \<comment> \<open>one \<open>send\<close>: at most \<open>limit\<close> bytes, and none when the socket takes no more\<close>
  "sock_send limit bs s =
     (let n = min limit (min (length bs) (room s))
      in (n, s\<lparr>wire := wire s @ take n bs, room := room s - n\<rparr>))"

definition send_some :: "(nat \<Rightarrow> nat \<Rightarrow> nat) \<Rightarrow> u8 list \<Rightarrow> out_socket \<Rightarrow> nat \<times> out_socket" where
  \<comment> \<open>one \<open>send\<close> that is cut as \<open>chunk\<close> says; a socket with room takes at least one byte\<close>
  "send_some chunk bs s = sock_send (max 1 (chunk (length (wire s)) (length bs))) bs s"

function send_loop :: "(nat \<Rightarrow> nat \<Rightarrow> nat) \<Rightarrow> u8 list \<Rightarrow> out_socket \<Rightarrow> bool \<times> out_socket" where
  "send_loop chunk bs s =
     (if bs = [] then (True, s)
      else let (n, s') = send_some chunk bs s in
        if n = 0 then (False, s') else send_loop chunk (drop n bs) s')"
  by pat_completeness auto
termination by (relation "measure (\<lambda>(_, bs, _). length bs)") (auto simp: send_some_def sock_send_def)

declare send_loop.simps [simp del]

text \<open>However the bytes are cut into pieces, the loop moves all of them or reports the failure.\<close>

lemma send_loop_eq:
  "send_loop chunk bs s =
     (length bs \<le> room s,
      s\<lparr>wire := wire s @ take (room s) bs, room := room s - length bs\<rparr>)"
proof (induction chunk bs s rule: send_loop.induct)
  case (1 chunk bs s)
  let ?n = "min (max 1 (chunk (length (wire s)) (length bs))) (min (length bs) (room s))"
  show ?case
  proof (cases "bs = [] \<or> room s = 0")
    case False
    define n where "n = ?n"
    have n: "0 < n" "n \<le> length bs" "n \<le> room s" using False by (auto simp: n_def)
    let ?s = "s\<lparr>wire := wire s @ take n bs, room := room s - n\<rparr>"
    have k: "send_some chunk bs s = (n, ?s)" by (simp add: send_some_def sock_send_def n_def Let_def)
    have "take n bs @ take (room s - n) (drop n bs) = take (room s) bs"
      using n by (metis le_add_diff_inverse take_add)
    moreover have "send_loop chunk (drop n bs) ?s =
        (length (drop n bs) \<le> room ?s,
         ?s\<lparr>wire := wire ?s @ take (room ?s) (drop n bs), room := room ?s - length (drop n bs)\<rparr>)"
      by (rule "1"(1)) (use False n k in auto)
    ultimately show ?thesis
      using n False by (subst send_loop.simps) (auto simp: k)
  qed (auto simp: send_loop.simps [of _ bs] send_some_def sock_send_def)
qed

text \<open>
  \<open>sends bs whole (good, s') s\<close>: the socket has got a prefix of \<open>bs\<close>, all
  of it when the operation reports success, which it does exactly when there is room and its single
  sends are moved whole.
\<close>

definition sends :: "u8 list \<Rightarrow> bool \<Rightarrow> bool \<times> out_socket \<Rightarrow> out_socket \<Rightarrow> bool" where
  "sends bs whole = (\<lambda>(good, s') s. \<exists>k\<le>min (length bs) (room s).
     s' = s\<lparr>wire := wire s @ take k bs, room := room s - k\<rparr> \<and> (good \<longleftrightarrow> k = length bs) \<and>
     (good \<longleftrightarrow> length bs \<le> room s \<and> whole))"

lemma sends_loop: "sends bs True (send_loop chunk bs s) s"
  by (auto simp: sends_def send_loop_eq min_def intro!: exI [of _ "min (length bs) (room s)"])

lemma sends_once:
  assumes "bs \<noteq> []" and "send_some chunk bs s = (n, s')"
  shows "sends bs (length bs \<le> max 1 (chunk (length (wire s)) (length bs))) (n = length bs, s') s"
proof -
  have "n = min (max 1 (chunk (length (wire s)) (length bs))) (min (length bs) (room s))"
    and "s' = s\<lparr>wire := wire s @ take n bs, room := room s - n\<rparr>"
    using assms(2) by (auto simp: send_some_def sock_send_def Let_def)
  then show ?thesis unfolding sends_def prod.case by (intro exI [of _ n]) auto
qed

lemma sends_stop:
  assumes "sends bs w (False, s') s"
  shows "sends (bs @ cs) (w \<and> w') (False, s') s"
proof -
  from assms obtain k where k: "k \<le> min (length bs) (room s)" "s' = s\<lparr>wire := wire s @ take k bs, room := room s - k\<rparr>"
    "k \<noteq> length bs" "\<not> (length bs \<le> room s \<and> w)" by (auto simp: sends_def)
  then show ?thesis unfolding sends_def prod.case by (intro exI [of _ k]) auto
qed

lemma sends_then:
  assumes "sends bs w (True, s') s" and "sends cs w' (good, s'') s'"
  shows "sends (bs @ cs) (w \<and> w') (good, s'') s"
proof -
  have s': "s' = s\<lparr>wire := wire s @ bs, room := room s - length bs\<rparr>" "length bs \<le> room s" "w"
    using assms(1) by (auto simp: sends_def)
  from assms(2) obtain k where k: "k \<le> min (length cs) (room s')" "s'' = s'\<lparr>wire := wire s' @ take k cs, room := room s' - k\<rparr>"
    "good \<longleftrightarrow> k = length cs" "good \<longleftrightarrow> length cs \<le> room s' \<and> w'" by (auto simp: sends_def)
  then show ?thesis using s' by (auto simp: sends_def intro!: exI [of _ "length bs + k"])
qed

end
