(* ===== verification/Http_Client.thy ===== *)
theory Http_Client
  imports Sockets Int8_Kernel
begin

text \<open>
  The HTTP client of \<open>include/neuropet/http_client.hpp\<close>. The network is a function that
  says for each attempt what happens: no socket, no connection, or a link with the number of bytes
  it takes, how it cuts them, and the results of the successive reads (an empty one is the end of
  the stream or an error). \<open>valid\<close> is whether \<open>inet_pton\<close> accepts the
  host. The state of a call is what each connection received, the sleeps, and the caller's response
  string, if any.
\<close>

section \<open>Requests\<close>

fun dec :: "nat \<Rightarrow> string" where
  \<comment> \<open>an unsigned number as \<open>operator<<\<close> prints it\<close>
  "dec n = (if n < 10 then [char_of (48 + n)] else dec (n div 10) @ [char_of (48 + n mod 10)])"

declare dec.simps [simp del]

definition crlf :: string where
  "crlf = [CHR 0x0d, CHR 0x0a]"

definition post_request :: "string \<Rightarrow> u16 \<Rightarrow> string \<Rightarrow> string" where
  "post_request host port body =
     ''POST / HTTP/1.1'' @ crlf @
     ''Host: '' @ host @ '':'' @ dec (unat port) @ crlf @
     ''Content-Type: application/json'' @ crlf @
     ''Content-Length: '' @ dec (length body) @ crlf @
     ''Connection: close'' @ crlf @ crlf @ body"

definition get_request :: "string \<Rightarrow> u16 \<Rightarrow> string \<Rightarrow> string" where
  "get_request host port path =
     ''GET '' @ path @ '' HTTP/1.1'' @ crlf @
     ''Host: '' @ host @ '':'' @ dec (unat port) @ crlf @
     ''Connection: close'' @ crlf @ crlf"

section \<open>Responses\<close>

fun read_all :: "string list \<Rightarrow> string" where
  "read_all [] = []"
| "read_all (r # rs) = (if r = [] then [] else r @ read_all rs)"

definition status_code :: "string \<Rightarrow> (nat \<times> int) option res" where
  \<comment> \<open>where the status line starts, and its code\<close>
  "status_code chk =
     (case find_from ''HTTP/1.1'' chk 0 of
        None \<Rightarrow> Inr None
      | Some pos \<Rightarrow>
          if length chk \<ge> pos + 12 then rbind (atoi (drop (pos + 9) chk)) (\<lambda>code. Inr (Some (pos, code)))
          else Inr None)"

definition post_accept :: "string \<Rightarrow> string option res" where
  \<comment> \<open>\<open>None\<close> is a reason to try again, \<open>Some\<close> the response to return\<close>
  "post_accept chk = rbind (status_code chk) (\<lambda>st.
     case st of
       None \<Rightarrow> Inr (Some chk)
     | Some (pos, code) \<Rightarrow> Inr (if code < 200 \<or> code \<ge> 300 then None else Some chk))"

definition get_accept :: "string \<Rightarrow> string option res" where
  "get_accept chk = rbind (status_code chk) (\<lambda>st.
     case st of
       None \<Rightarrow> Inr (Some chk)
     | Some (pos, code) \<Rightarrow> Inr
         (if code < 200 \<or> code \<ge> 300 then None
          else case find_from (crlf @ crlf) chk pos of
              None \<Rightarrow> Some chk
            | Some header_end \<Rightarrow> Some (drop (header_end + 4) chk)))"

section \<open>The attempts\<close>

record link =
  takes :: nat
  pieces :: "nat \<Rightarrow> nat"
  replies :: "string list"

datatype attempt = No_Socket | Refused | Connected link

record http_state =
  received :: "u8 list list"
  slept :: "int list"
  response :: "string option"

fun http_loop ::
    "(string \<Rightarrow> string option res) \<Rightarrow> (nat \<Rightarrow> attempt) \<Rightarrow> bool \<Rightarrow> string \<Rightarrow> nat \<Rightarrow> nat \<Rightarrow> int \<Rightarrow> http_state \<Rightarrow>
     (bool \<times> http_state) res" where
  \<comment> \<open>the loop with the number of attempts left, the number of the next one and its delay\<close>
  "http_loop accept net valid r 0 k delay s = Inr (False, s)"
| "http_loop accept net valid r (Suc n) k delay s =
     (let again = (\<lambda>s. rbind (i32 (delay * 2)) (\<lambda>d.
            http_loop accept net valid r n (Suc k) d (if n > 0 then s\<lparr>slept := slept s @ [delay]\<rparr> else s)))
      in case net k of
           No_Socket \<Rightarrow> http_loop accept net valid r n (Suc k) delay s
         | Refused \<Rightarrow> if \<not> valid then Inr (False, s) else again s
         | Connected l \<Rightarrow>
             if \<not> valid then Inr (False, s)
             else let (sent, sock) = send_loop (\<lambda>_. pieces l) (map of_char r) \<lparr>wire = [], room = takes l\<rparr>;
                      s = s\<lparr>received := received s @ [wire sock]\<rparr> in
               if \<not> sent then again s
               else let chk = read_all (replies l); s = s\<lparr>response := map_option (\<lambda>_. chk) (response s)\<rparr> in
                 rbind (accept chk) (\<lambda>v.
                   case v of
                     None \<Rightarrow> again s
                   | Some out \<Rightarrow> Inr (True, s\<lparr>response := map_option (\<lambda>_. out) (response s)\<rparr>)))"

definition http_post_json ::
    "(nat \<Rightarrow> attempt) \<Rightarrow> (string \<Rightarrow> bool) \<Rightarrow> string \<Rightarrow> u16 \<Rightarrow> string \<Rightarrow> string option \<Rightarrow> int \<Rightarrow> int \<Rightarrow>
     (bool \<times> http_state) res" where
  "http_post_json net inet_pton host port body resp attempts backoff_ms =
     http_loop post_accept net (inet_pton host) (post_request host port body) (nat attempts) 0 backoff_ms
       \<lparr>received = [], slept = [], response = resp\<rparr>"

definition http_get ::
    "(nat \<Rightarrow> attempt) \<Rightarrow> (string \<Rightarrow> bool) \<Rightarrow> string \<Rightarrow> u16 \<Rightarrow> string \<Rightarrow> string option \<Rightarrow> int \<Rightarrow> int \<Rightarrow>
     (bool \<times> http_state) res" where
  "http_get net inet_pton host port path resp attempts backoff_ms =
     http_loop get_accept net (inet_pton host) (get_request host port path) (nat attempts) 0 backoff_ms
       \<lparr>received = [], slept = [], response = resp\<rparr>"

section \<open>What an attempt amounts to\<close>

definition reply :: "(nat \<Rightarrow> attempt) \<Rightarrow> string \<Rightarrow> nat \<Rightarrow> string option" where
  \<comment> \<open>the response to attempt \<open>k\<close>, if the request got through\<close>
  "reply net r k =
     (case net k of Connected l \<Rightarrow> if length r \<le> takes l then Some (read_all (replies l)) else None | _ \<Rightarrow> None)"

definition accepted :: "(string \<Rightarrow> string option res) \<Rightarrow> (nat \<Rightarrow> attempt) \<Rightarrow> string \<Rightarrow> nat \<Rightarrow> bool" where
  "accepted accept net r k =
     (case reply net r k of None \<Rightarrow> False | Some chk \<Rightarrow> ensures (accept chk) (\<lambda>v. v \<noteq> None))"

definition outcome :: "(string \<Rightarrow> string option res) \<Rightarrow> (nat \<Rightarrow> attempt) \<Rightarrow> string \<Rightarrow> nat \<Rightarrow> string option" where
  \<comment> \<open>what attempt \<open>k\<close> would return\<close>
  "outcome accept net r k =
     (case reply net r k of None \<Rightarrow> None | Some chk \<Rightarrow> (case accept chk of Inl e \<Rightarrow> None | Inr v \<Rightarrow> v))"

fun answer :: "(string \<Rightarrow> string option res) \<Rightarrow> (nat \<Rightarrow> attempt) \<Rightarrow> string \<Rightarrow> nat \<Rightarrow> nat \<Rightarrow> string option" where
  \<comment> \<open>the outcome of the first of \<open>n\<close> attempts that has one\<close>
  "answer accept net r 0 k = None"
| "answer accept net r (Suc n) k =
     (case outcome accept net r k of Some out \<Rightarrow> Some out | None \<Rightarrow> answer accept net r n (Suc k))"

lemma accepted_outcome: "accepted accept net r k \<longleftrightarrow> outcome accept net r k \<noteq> None"
  by (auto simp: accepted_def outcome_def ensures_def split: option.splits sum.splits)

definition doublings :: "int \<Rightarrow> nat \<Rightarrow> int list" where
  "doublings d m = map (\<lambda>i. d * 2 ^ i) [0..<m]"

lemma doublings_Suc: "doublings d (Suc m) = d # doublings (2 * d) m"
  unfolding doublings_def by (simp add: upt_conv_Cons map_Suc_upt [symmetric] mult.assoc del: upt_Suc)

lemma length_doublings [simp]: "length (doublings d m) = m"
  by (simp add: doublings_def)

lemma send_request: "send_loop ch (map of_char r) \<lparr>wire = [], room = n\<rparr> =
    (length r \<le> n, \<lparr>wire = take n (map of_char r), room = n - length r\<rparr>)"
  by (simp add: send_loop_eq)

text \<open>
  The contract of the loop, proved once for both functions: it succeeds exactly when one of its
  attempts is accepted, makes no more connections than attempts, sends a prefix of the request on
  each, and sleeps for delays that double, never after the last attempt.
\<close>

definition loop_post :: "(string \<Rightarrow> string option res) \<Rightarrow> (nat \<Rightarrow> attempt) \<Rightarrow> string \<Rightarrow> nat \<Rightarrow> nat \<Rightarrow> int \<Rightarrow>
    http_state \<Rightarrow> bool \<times> http_state \<Rightarrow> bool" where
  "loop_post accept net r n k delay s = (\<lambda>(ok, t).
     ok = (\<exists>i<n. accepted accept net r (k + i)) \<and>
     (\<exists>ws. received t = received s @ ws \<and> length ws \<le> n \<and> (\<forall>w\<in>set ws. \<exists>j. w = take j (map of_char r))) \<and>
     (\<exists>m. slept t = slept s @ doublings delay m \<and> m \<le> n - 1) \<and>
     (response t = None) = (response s = None) \<and>
     (\<forall>out. answer accept net r n k = Some out \<longrightarrow> response t = map_option (\<lambda>_. out) (response s)))"

lemma loop_post_again:
  assumes "loop_post accept net r n (Suc k) (delay * 2) (if 0 < n then s'\<lparr>slept := slept s' @ [delay]\<rparr> else s') z"
    and "\<not> accepted accept net r k" and "received s' = received s @ ws" and "length ws \<le> 1"
    and "\<forall>w\<in>set ws. \<exists>j. w = take j (map of_char r)" and "slept s' = slept s"
    and "(response s' = None) = (response s = None)"
  shows "loop_post accept net r (Suc n) k delay s z"
proof -
  obtain acc t where z: "z = (acc, t)" by fastforce
  note p = assms(1)[unfolded z loop_post_def prod.case]
  have "acc = (\<exists>i<Suc n. accepted accept net r (k + i))"
    using p assms(2) by (auto simp: less_Suc_eq_0_disj)
  moreover have "\<exists>ws. received t = received s @ ws \<and> length ws \<le> Suc n \<and> (\<forall>w\<in>set ws. \<exists>j. w = take j (map of_char r))"
  proof -
    from p assms(3) obtain vs where "received t = received s @ ws @ vs" "length vs \<le> n"
      "\<forall>w\<in>set vs. \<exists>j. w = take j (map of_char r)" by (auto split: if_splits)
    with assms(4,5) show ?thesis by (intro exI [of _ "ws @ vs"]) auto
  qed
  moreover have "\<exists>m. slept t = slept s @ doublings delay m \<and> m \<le> n"
  proof (cases "0 < n")
    case True
    with p assms(6) obtain m where "slept t = slept s @ doublings delay (Suc m)" "m \<le> n - 1"
      by (auto simp: doublings_Suc mult.commute)
    with True show ?thesis by (intro exI [of _ "Suc m"]) auto
  qed (use p assms(6) in \<open>auto simp: doublings_def intro: exI [of _ 0]\<close>)
  moreover have "(response t = None) = (response s = None)" using p assms(7) by (auto split: if_splits)
  moreover have "response t = map_option (\<lambda>_. out) (response s)" if "answer accept net r (Suc n) k = Some out" for out
    using p assms(2,7) that by (cases "response s"; cases "response s'") (auto simp: accepted_outcome split: if_splits)
  ultimately show ?thesis by (simp add: z loop_post_def)
qed

definition readable :: "(string \<Rightarrow> string option res) \<Rightarrow> (nat \<Rightarrow> attempt) \<Rightarrow> string \<Rightarrow> nat \<Rightarrow> bool" where
  \<comment> \<open>the status code of the response, if there is one, fits an \<open>int\<close>\<close>
  "readable accept net r k = (case reply net r k of None \<Rightarrow> True | Some chk \<Rightarrow> ok (accept chk))"

lemma loop_post_silent:
  assumes "loop_post accept net r n (Suc k) delay s z" and "\<not> accepted accept net r k"
  shows "loop_post accept net r (Suc n) k delay s z"
proof -
  obtain acc t where z: "z = (acc, t)" by fastforce
  note p = assms(1)[unfolded z loop_post_def prod.case]
  have "acc = (\<exists>i<Suc n. accepted accept net r (k + i))"
    using p assms(2) by (auto simp: less_Suc_eq_0_disj)
  moreover have "answer accept net r (Suc n) k = answer accept net r n (Suc k)" using assms(2) by (simp add: accepted_outcome)
  ultimately show ?thesis using p unfolding z loop_post_def by (auto intro: le_SucI)
qed

lemma http_loop_contract:
  assumes "0 \<le> delay" and "delay * 2 ^ n \<le> 2147483647" and "\<And>i. i < n \<Longrightarrow> readable accept net r (k + i)"
  shows "ensures (http_loop accept net True r n k delay s) (loop_post accept net r n k delay s)"
  using assms
proof (induction n arbitrary: k delay s)
  case 0
  then show ?case by (auto simp: loop_post_def doublings_def intro: exI [of _ 0])
next
  case (Suc n)
  have fits: "in_i32 (delay * 2)"
  proof -
    have "delay * 2 \<le> delay * 2 ^ Suc n" using Suc.prems(1) by (intro mult_left_mono) auto
    with Suc.prems(1,2) show ?thesis unfolding in_i32_def by linarith
  qed
  have later: "readable accept net r (Suc k + i)" if "i < n" for i
    using Suc.prems(3) [of "Suc i"] that by simp
  have next_delay: "0 \<le> delay * 2" "delay * 2 * 2 ^ n \<le> 2147483647" using Suc.prems(1,2) by auto
  note again = Suc.IH [OF next_delay later]
  have now: "readable accept net r k" using Suc.prems(3) [of 0] by simp
  show ?case
  proof (cases "net k")
    case No_Socket
    have "delay * 2 ^ n \<le> 2147483647"
    proof -
      have "delay * 2 ^ n \<le> delay * 2 ^ Suc n" using Suc.prems(1) by (intro mult_left_mono) auto
      with Suc.prems(2) show ?thesis by linarith
    qed
    from Suc.IH [OF Suc.prems(1) this later, of s] No_Socket show ?thesis
      by (auto elim!: ensures_mono intro: loop_post_silent simp: accepted_def reply_def)
  next
    case Refused
    with fits again [of "if 0 < n then s\<lparr>slept := slept s @ [delay]\<rparr> else s"] show ?thesis
      by (auto elim!: ensures_mono intro!: loop_post_again [where s' = s and ws = "[]"]
          simp: accepted_def reply_def Let_def)
  next
    case (Connected l)
    let ?w = "take (takes l) (map of_char r)"
    let ?s = "s\<lparr>received := received s @ [?w]\<rparr>"
    let ?chk = "read_all (replies l)"
    let ?s' = "?s\<lparr>response := map_option (\<lambda>_. ?chk) (response s)\<rparr>"
    have w: "\<exists>j. ?w = take j (map of_char r)" "\<exists>j. map of_char r = (take j (map of_char r) :: u8 list)"
      by (blast, rule exI [of _ "length r"], simp)
    show ?thesis
    proof (cases "length r \<le> takes l")
      case False
      with Connected fits again [of "if 0 < n then ?s\<lparr>slept := slept ?s @ [delay]\<rparr> else ?s"] show ?thesis
        by (auto elim!: ensures_mono intro!: loop_post_again [where s' = ?s and ws = "[?w]"]
            simp: w accepted_def reply_def Let_def send_request)
    next
      case True
      with now Connected obtain v where v: "accept ?chk = Inr v"
        by (auto simp: readable_def reply_def ok_iff)
      show ?thesis
      proof (cases v)
        case None
        with v True Connected fits again [of "if 0 < n then ?s'\<lparr>slept := slept ?s' @ [delay]\<rparr> else ?s'"] show ?thesis
          by (auto elim!: ensures_mono intro!: loop_post_again [where s' = ?s' and ws = "[?w]"]
              simp: w accepted_def reply_def Let_def send_request)
      next
        case (Some out)
        with v True Connected have "accepted accept net r k" by (simp add: accepted_def reply_def)
        then have "\<exists>i<Suc n. accepted accept net r (k + i)" by (intro exI [of _ 0]) simp
        moreover have "answer accept net r (Suc n) k = Some out"
          using Some v True Connected by (simp add: outcome_def reply_def)
        ultimately show ?thesis using Some v True Connected
          by (auto simp: option.map_comp comp_def Let_def send_request loop_post_def doublings_def intro: exI [of _ 0] exI [of _ "length r"])
      qed
    qed
  qed
qed

lemma http_loop_first:
  assumes "net k = Connected l" and "length r \<le> takes l" and "accept (read_all (replies l)) = Inr (Some out)"
  shows "http_loop accept net True r (Suc n) k delay s =
    Inr (True, s\<lparr>received := received s @ [map of_char r], response := map_option (\<lambda>_. out) (response s)\<rparr>)"
  using assms by (auto simp: Let_def send_request option.map_comp comp_def)

lemma http_loop_overflow:
  assumes "\<And>i. i < n \<Longrightarrow> net (k + i) = Refused" and "0 < delay" and "2147483647 < delay * 2 ^ n"
    and "in_i32 delay"
  shows "http_loop accept net True r n k delay s = Inl Signed_Overflow"
  using assms
proof (induction n arbitrary: k delay s)
  case (Suc n)
  have "net k = Refused" using Suc.prems(1) [of 0] by simp
  moreover have "http_loop accept net True r n (Suc k) (delay * 2) s' = Inl Signed_Overflow" if "in_i32 (delay * 2)" for s'
    using Suc.IH [of "Suc k" "delay * 2" s'] Suc.prems(1) [of "Suc i" for i] Suc.prems(2-4) that by simp
  ultimately show ?case by (cases "in_i32 (delay * 2)") (auto simp: i32_def)
qed (simp add: in_i32_def)

section \<open>Searching\<close>

lemma find_in_append: "find_in pat s i = Some k \<Longrightarrow> find_in pat (s @ t) i = Some k"
proof (induction s arbitrary: i)
  case Nil
  then show ?case by (cases t) (auto split: if_splits)
next
  case (Cons c s)
  show ?case
  proof (cases "take (length pat) (c # s) = pat")
    case True
    then have "length pat \<le> length (c # s)" by (metis length_take min.cobounded1)
    with True Cons.prems show ?thesis by (simp add: take_Cons' split: if_splits)
  next
    case False
    with Cons.prems have s: "find_in pat s (Suc i) = Some k" by simp
    with find_in_bounds [OF s] have "length pat \<le> length (c # s)" by simp
    with False have "take (length pat) (c # s @ t) \<noteq> pat" by (metis append_Cons take_append diff_is_0_eq take0 append_Nil2)
    with Cons.IH [OF s] show ?thesis by simp
  qed
qed

lemma find_in_here: "pat \<noteq> [] \<Longrightarrow> find_in pat (pat @ s) i = Some i"
  by (cases pat) auto

lemma find_skip_line:
  assumes "CHR 0x0d \<notin> set line" and "rest \<noteq> []" and "hd rest \<noteq> CHR 0x0d"
  shows "find_in (crlf @ crlf) (line @ crlf @ rest) i = find_in (crlf @ crlf) rest (i + length line + 2)"
  using assms(1)
proof (induction line arbitrary: i)
  case Nil
  with assms(2,3) show ?case by (cases rest) (auto simp: crlf_def)
next
  case (Cons c line)
  then have "c \<noteq> CHR 0x0d" by auto
  then show ?case using Cons by (auto simp: crlf_def)
qed

lemma drop_prefix: "drop (length p) (p @ s) = s"
  by simp

lemma find_skip_plain:
  "CHR 0x0d \<notin> set line \<Longrightarrow> find_in (crlf @ crlf) (line @ s) i = find_in (crlf @ crlf) s (i + length line)"
proof (induction line arbitrary: i)
  case (Cons c line)
  then have "c \<noteq> CHR 0x0d" by auto
  then show ?case using Cons by (auto simp: crlf_def)
qed simp

lemma find_last_line:
  "CHR 0x0d \<notin> set line \<Longrightarrow> find_in (crlf @ crlf) (line @ crlf @ crlf @ s) i = Some (i + length line)"
  using find_skip_plain [of line "crlf @ crlf @ s" i] find_in_here [of "crlf @ crlf" s] by (simp add: crlf_def)

lemma digit_char: "n < 10 \<Longrightarrow> of_char (char_of (48 + n) :: char) = (48 + int n)"
proof -
  assume n: "n < 10"
  have "of_char (char_of (48 + n) :: char) = int (of_char (char_of (48 + n) :: char) :: nat)"
    by (simp add: of_char_def)
  also have "\<dots> = 48 + int n" using n by simp
  finally show ?thesis .
qed

lemma digits_val_digit: "n < 10 \<Longrightarrow> digits_val x (char_of (48 + n) # s) = digits_val (10 * x + int n) s"
  by (simp add: digit_char Let_def)

lemma digits_val_dec: "\<exists>d. digits_val v (dec n @ s) = digits_val (v * 10 ^ d + int n) s"
proof (induction n arbitrary: v s rule: dec.induct)
  case (1 n)
  show ?case
  proof (cases "n < 10")
    case True
    then show ?thesis by (auto simp: dec.simps [of n] digit_char Let_def mult.commute intro!: exI [of _ 1])
  next
    case False
    then obtain d where "digits_val v (dec (n div 10) @ char_of (48 + n mod 10) # s) =
        digits_val (v * 10 ^ d + int (n div 10)) (char_of (48 + n mod 10) # s)" using 1 by blast
    also have "\<dots> = digits_val (v * 10 ^ Suc d + int n) s"
    proof -
      have "10 * int (n div 10) + int (n mod 10) = int n" using div_mult_mod_eq [of n 10] by linarith
      then have "10 * (v * 10 ^ d + int (n div 10)) + int (n mod 10) = v * 10 ^ Suc d + int n"
        by (simp add: distrib_left)
      then show ?thesis by (simp only: digits_val_digit [of "n mod 10"] mod_less_divisor zero_less_numeral)
    qed
    finally show ?thesis using False by (subst dec.simps) (auto intro: exI [of _ "Suc d"])
  qed
qed

lemma dec_digits: "c \<in> set (dec n) \<Longrightarrow> \<exists>k<10. c = char_of (48 + k :: nat)"
proof (induction n rule: dec.induct)
  case (1 n)
  then show ?case by (subst (asm) dec.simps) (auto split: if_splits intro: exI [of _ n] exI [of _ "n mod 10"])
qed

lemma dec_nonempty [simp]: "dec n \<noteq> []"
  by (subst dec.simps) simp

lemma dec_plain: "c \<in> set (dec n) \<Longrightarrow> c \<noteq> CHR 0x0d \<and> \<not> is_space c \<and> c \<noteq> CHR ''-'' \<and> c \<noteq> CHR ''+''"
proof -
  assume "c \<in> set (dec n)"
  then obtain k where k: "k < 10" "c = char_of (48 + k :: nat)" using dec_digits by blast
  then have "of_char c = (48 + k :: nat)" by simp
  then show ?thesis using k(1) by (auto simp: is_space_def)
qed

lemma atoi_dec:
  assumes "int n \<le> 2147483647" and "s = [] \<or> \<not> (48 \<le> (of_char (hd s) :: int) \<and> (of_char (hd s) :: int) \<le> 57)"
  shows "atoi (dec n @ s) = Inr (int n)"
proof -
  obtain c r where d: "dec n = c # r" by (cases "dec n") auto
  with dec_plain [of c n] have c: "\<not> is_space c" "c \<noteq> CHR ''-''" "c \<noteq> CHR ''+''" by auto
  have "digits_val x s = x" for x using assms(2) by (cases s) (auto simp: Let_def)
  with digits_val_dec [of 0 n s] have "digits_val 0 (dec n @ s) = int n" by auto
  with c d assms(1) show ?thesis by (simp add: atoi_def in_i32_def)
qed

lemma get_accept_body:
  assumes "200 \<le> code" and "code < 300"
    and "find_from (crlf @ crlf) (''HTTP/1.1 '' @ dec code @ '' '' @ head @ crlf @ crlf) 0 =
      Some (length (''HTTP/1.1 '' @ dec code @ '' '' @ head))"
  shows "get_accept (''HTTP/1.1 '' @ dec code @ '' '' @ head @ crlf @ crlf @ body) = Inr (Some body)"
proof -
  let ?pre = "''HTTP/1.1 '' @ dec code @ '' '' @ head"
  let ?chk = "(?pre @ crlf @ crlf) @ body"
  have "find_in ''HTTP/1.1'' ?chk 0 = Some 0"
    using find_in_here [of "''HTTP/1.1''" "'' '' @ dec code @ '' '' @ head @ crlf @ crlf @ body" 0] by simp
  moreover have "atoi (drop 9 ?chk) = Inr (int code)"
    using atoi_dec [of code "'' '' @ head @ crlf @ crlf @ body"] assms(2) by (simp add: drop_Cons')
  moreover have "12 \<le> length ?chk"
  proof -
    have "0 < length (dec code)" by simp
    then show ?thesis by (simp add: crlf_def)
  qed
  ultimately have "status_code ?chk = Inr (Some (0, int code))"
    by (simp add: status_code_def find_from_def)
  moreover have "find_from (crlf @ crlf) ?chk 0 = Some (length ?pre)"
    using assms(3) find_in_append [of "crlf @ crlf" "?pre @ crlf @ crlf" 0 "length ?pre" body]
    by (simp add: find_from_def)
  moreover have "drop (length ?pre + 4) ?chk = body"
  proof -
    have "length (?pre @ crlf @ crlf) = length ?pre + 4" by (simp add: crlf_def)
    with drop_prefix [of "?pre @ crlf @ crlf" body] show ?thesis by metis
  qed
  ultimately have "get_accept ?chk = Inr (Some body)"
    using assms(1,2) by (simp only: get_accept_def rbind.simps option.case prod.case) simp
  then show ?thesis by simp
qed

section \<open>Properties\<close>

definition retry_contract ::
    "(string \<Rightarrow> string option res) \<Rightarrow> (nat \<Rightarrow> attempt) \<Rightarrow> string \<Rightarrow> int \<Rightarrow> int \<Rightarrow> string option \<Rightarrow> bool \<times> http_state \<Rightarrow> bool" where
  "retry_contract accept net r attempts backoff resp = (\<lambda>(ok, t).
     ok = (\<exists>i<nat attempts. accepted accept net r i) \<and>
     (\<forall>out. answer accept net r (nat attempts) 0 = Some out \<longrightarrow> response t = map_option (\<lambda>_. out) resp) \<and>
     length (received t) \<le> nat attempts \<and> list_all (\<lambda>w. \<exists>j. w = take j (map of_char r)) (received t) \<and>
     (\<exists>m. slept t = doublings backoff m \<and> m \<le> nat attempts - 1))"

definition all_readable :: "(string \<Rightarrow> string option res) \<Rightarrow> (nat \<Rightarrow> attempt) \<Rightarrow> string \<Rightarrow> int \<Rightarrow> bool" where
  "all_readable accept net r attempts \<longleftrightarrow> (\<forall>i<nat attempts. readable accept net r i)"

lemma http_loop_retries:
  assumes "0 \<le> backoff" and "backoff * 2 ^ nat attempts \<le> 2147483647" and "all_readable accept net r attempts"
  shows "ensures (http_loop accept net True r (nat attempts) 0 backoff \<lparr>received = [], slept = [], response = resp\<rparr>)
    (retry_contract accept net r attempts backoff resp)"
  using http_loop_contract [OF assms(1,2), of accept net r 0 "\<lparr>received = [], slept = [], response = resp\<rparr>"] assms(3)
  by (auto elim!: ensures_mono simp: all_readable_def loop_post_def retry_contract_def list_all_iff)

text \<open>
  C12: the retry contract of \<open>http_post_json\<close> and of \<open>http_get\<close>: with a
  valid host, a start delay whose doublings stay within an \<open>int\<close> and responses whose
  status code fits an \<open>int\<close>, each returns true exactly when one of its attempts is
  answered acceptably, and then stores what its first acceptable answer amounts to (the whole
  response, or for \<open>http_get\<close> what follows the header); it makes at most
  \<open>attempts\<close> connections, each of which receives a prefix of its request, and the
  delays it sleeps are the start delay doubled each time, fewer of them than attempts.
\<close>

theorem http_retry_contract:
  assumes "inet_pton host" and "0 \<le> backoff" and "backoff * 2 ^ nat attempts \<le> 2147483647"
  shows "(all_readable post_accept net (post_request host port body) attempts \<longrightarrow>
      ensures (http_post_json net inet_pton host port body resp attempts backoff)
        (retry_contract post_accept net (post_request host port body) attempts backoff resp)) \<and>
    (all_readable get_accept net (get_request host port path) attempts \<longrightarrow>
      ensures (http_get net inet_pton host port path resp attempts backoff)
        (retry_contract get_accept net (get_request host port path) attempts backoff resp))"
  using assms by (simp add: http_post_json_def http_get_def http_loop_retries)

definition flaky :: "nat \<Rightarrow> attempt" where
  \<comment> \<open>no connection, then an error, then success\<close>
  "flaky k = (if k = 0 then Refused
     else Connected \<lparr>takes = 1000, pieces = \<lambda>n. n, replies = [if k = 1 then ''HTTP/1.1 500 '' else ''HTTP/1.1 200 OK'', []]\<rparr>)"

lemma flaky_codes:
  "post_accept ''HTTP/1.1 500 '' = Inr None" "post_accept ''HTTP/1.1 200 OK'' = Inr (Some ''HTTP/1.1 200 OK'')"
  "get_accept ''HTTP/1.1 500 '' = Inr None" "get_accept ''HTTP/1.1 200 OK'' = Inr (Some ''HTTP/1.1 200 OK'')"
  by code_simp+

lemma flaky_requests: "length (post_request ''h'' 80 []) \<le> 1000" "length (get_request ''h'' 80 ''/'') \<le> 1000"
  by code_simp+

lemma flaky_replies:
  assumes "length r \<le> 1000"
  shows "reply flaky r 0 = None" and "0 < k \<Longrightarrow> reply flaky r k = Some (if k = 1 then ''HTTP/1.1 500 '' else ''HTTP/1.1 200 OK'')"
  using assms by (simp_all add: reply_def flaky_def)

lemma flaky_readable:
  assumes "length r \<le> 1000" and "accept ''HTTP/1.1 500 '' = Inr None" and "accept ''HTTP/1.1 200 OK'' = Inr (Some out)"
  shows "all_readable accept flaky r 3" and "accepted accept flaky r 2"
proof -
  have "readable accept flaky r i" for i
    by (cases "i = 0") (simp_all add: readable_def flaky_replies [OF assms(1)] assms(2,3))
  then show "all_readable accept flaky r 3" by (simp add: all_readable_def)
  show "accepted accept flaky r 2" by (simp add: accepted_def flaky_replies [OF assms(1)] assms(3))
qed

lemma flaky_contract:
  "accepted accept flaky r 2 \<Longrightarrow> ensures c (retry_contract accept flaky r 3 100 resp) \<Longrightarrow>
    \<exists>t. c = Inr (True, t) \<and> length (received t) \<le> 3 \<and> (\<exists>m\<le>2. slept t = doublings 100 m)"
proof -
  assume "accepted accept flaky r 2"
  then have "\<exists>i<3. accepted accept flaky r i" by (intro exI [of _ 2]) simp
  then show "ensures c (retry_contract accept flaky r 3 100 resp) \<Longrightarrow> ?thesis"
    by (auto simp: retry_contract_def ensures_iff)
qed

lemma http_retry_contract_witness:
  "(\<exists>t. http_post_json flaky (\<lambda>_. True) ''h'' 80 [] None 3 100 = Inr (True, t) \<and> length (received t) \<le> 3 \<and>
     (\<exists>m\<le>2. slept t = doublings 100 m)) \<and>
   (\<exists>t. http_get flaky (\<lambda>_. True) ''h'' 80 ''/'' None 3 100 = Inr (True, t) \<and> length (received t) \<le> 3 \<and>
     (\<exists>m\<le>2. slept t = doublings 100 m))"
proof -
  note p = flaky_readable [OF flaky_requests(1) flaky_codes(1,2)]
  note g = flaky_readable [OF flaky_requests(2) flaky_codes(3,4)]
  have "ensures (http_post_json flaky (\<lambda>_. True) ''h'' 80 [] None 3 100) (retry_contract post_accept flaky (post_request ''h'' 80 []) 3 100 None)"
    "ensures (http_get flaky (\<lambda>_. True) ''h'' 80 ''/'' None 3 100) (retry_contract get_accept flaky (get_request ''h'' 80 ''/'') 3 100 None)"
    using http_retry_contract [of "\<lambda>_. True" "''h''" 100 3 flaky 80 "[]" None "''/''"] p(1) g(1) by simp_all
  then show ?thesis using flaky_contract [OF p(2)] flaky_contract [OF g(2)] by blast
qed

text \<open>
  No answer counts as success: when the first connection takes the request and the response contains
  no \<open>HTTP/1.1\<close> (the peer closes at once, the read fails, or it speaks
  \<open>HTTP/1.0\<close>, whatever its status), \<open>http_post_json\<close> returns true with
  that response.
\<close>

theorem http_post_unanswered:
  assumes "inet_pton host" and "0 < attempts" and "net 0 = Connected l"
    and "length (post_request host port body) \<le> takes l"
    and "find_from ''HTTP/1.1'' (read_all (replies l)) 0 = None"
  shows "http_post_json net inet_pton host port body (Some old) attempts backoff =
    Inr (True, \<lparr>received = [map of_char (post_request host port body)], slept = [],
      response = Some (read_all (replies l))\<rparr>)"
proof -
  obtain n where "nat attempts = Suc n" using assms(2) by (metis Suc_pred zero_less_nat_eq)
  with assms http_loop_first [of net 0 l "post_request host port body" post_accept "read_all (replies l)"]
  show ?thesis by (simp add: http_post_json_def post_accept_def status_code_def del: http_loop.simps)
qed

lemma http_post_unanswered_witness:
  "http_post_json (\<lambda>_. Connected \<lparr>takes = 1000, pieces = \<lambda>n. n, replies = [[]]\<rparr>) (\<lambda>_. True) ''h'' 80 [] (Some ''old'') 3 100 =
    Inr (True, \<lparr>received = [map of_char (post_request ''h'' 80 [])], slept = [], response = Some []\<rparr>)"
  using http_post_unanswered [of "\<lambda>_. True" "''h''" 3 "\<lambda>_. Connected \<lparr>takes = 1000, pieces = \<lambda>n. n, replies = [[]]\<rparr>"
      "\<lparr>takes = 1000, pieces = \<lambda>n. n, replies = [[]]\<rparr>" 80 "[]" "''old''" 100] flaky_requests
  by (simp add: find_from_def)

text \<open>
  A request is not sent at most once: a server that answers every attempt with an error code
  receives the whole request as many times as there are attempts (a transaction it executed
  before failing is executed again).
\<close>

theorem http_post_repeats:
  assumes "inet_pton host" and "0 \<le> backoff" and "backoff * 2 ^ n \<le> 2147483647"
    and "\<And>i. i < n \<Longrightarrow> \<exists>l. net i = Connected l \<and> length (post_request host port body) \<le> takes l \<and>
      post_accept (read_all (replies l)) = Inr None"
  shows "\<exists>t. http_post_json net inet_pton host port body resp (int n) backoff = Inr (False, t) \<and>
    received t = replicate n (map of_char (post_request host port body))"
proof -
  let ?r = "post_request host port body"
  have "\<exists>t. http_loop post_accept net True ?r m k d s = Inr (False, t) \<and> received t = received s @ replicate m (map of_char ?r)"
    if "k + m = n" "0 \<le> d" "d * 2 ^ m \<le> 2147483647" for m k d s
    using that
  proof (induction m arbitrary: k d s)
    case (Suc m)
    obtain l where l: "net k = Connected l" "length ?r \<le> takes l" "post_accept (read_all (replies l)) = Inr None"
      using assms(4) [of k] Suc.prems(1) by auto
    have "d * 2 \<le> d * 2 ^ Suc m" using Suc.prems(2) by (intro mult_left_mono) auto
    with Suc.prems(2,3) have "in_i32 (d * 2)" unfolding in_i32_def by linarith
    moreover define s' where "s' = s\<lparr>received := received s @ [map of_char ?r],
      response := map_option (\<lambda>_. read_all (replies l)) (response s)\<rparr>"
    moreover define s'' where "s'' = (if 0 < m then s'\<lparr>slept := slept s' @ [d]\<rparr> else s')"
    ultimately have "http_loop post_accept net True ?r (Suc m) k d s = http_loop post_accept net True ?r m (Suc k) (d * 2) s''"
      using l by (simp add: Let_def send_request)
    moreover have "received s'' = received s @ [map of_char ?r]" by (simp add: s''_def s'_def)
    ultimately show ?case using Suc.IH [of "Suc k" "d * 2" s''] Suc.prems by (auto simp del: http_loop.simps)
  qed simp
  from this [of 0 n backoff "\<lparr>received = [], slept = [], response = resp\<rparr>"] assms(1-3)
  show ?thesis by (simp add: http_post_json_def)
qed

lemma http_post_repeats_witness:
  "\<exists>t. http_post_json (\<lambda>_. Connected \<lparr>takes = 1000, pieces = \<lambda>n. n, replies = [''HTTP/1.1 500 '']\<rparr>)
     (\<lambda>_. True) ''h'' 80 [] None (int 3) 100 = Inr (False, t) \<and> received t = replicate 3 (map of_char (post_request ''h'' 80 []))"
  by (rule http_post_repeats) (use flaky_requests flaky_codes in simp_all)

text \<open>
  A request is framed as HTTP says: for a host without carriage returns the first blank line of
  the request is right before the body, and its \<open>Content-Length\<close> field reads back as the length
  of the body.
\<close>

theorem post_request_framed:
  assumes "CHR 0x0d \<notin> set host" and "length body \<le> 2147483647"
  shows "\<exists>h v p. post_request host port body = h @ ''Content-Length: '' @ v \<and> atoi v = Inr (int (length body)) \<and>
    find_from (crlf @ crlf) (post_request host port body) 0 = Some p \<and>
    drop (p + 4) (post_request host port body) = body"
proof -
  let ?l1 = "''POST / HTTP/1.1''" and ?l2 = "''Host: '' @ host @ '':'' @ dec (unat port)"
    and ?l3 = "''Content-Type: application/json''" and ?l4 = "''Content-Length: '' @ dec (length body)"
    and ?l5 = "''Connection: close''"
  have no_cr: "CHR 0x0d \<notin> set (dec n)" for n using dec_plain by blast
  have r: "post_request host port body =
      ?l1 @ crlf @ ?l2 @ crlf @ ?l3 @ crlf @ ?l4 @ crlf @ ?l5 @ crlf @ crlf @ body"
    by (simp add: post_request_def)
  have "find_in (crlf @ crlf) (post_request host port body) 0 =
      Some (0 + length ?l1 + 2 + length ?l2 + 2 + length ?l3 + 2 + length ?l4 + 2 + length ?l5)"
  proof -
    have "find_in (crlf @ crlf) (?l4 @ crlf @ ?l5 @ crlf @ crlf @ body) i = Some (i + length ?l4 + 2 + length ?l5)" for i
      using find_skip_line [of ?l4 "?l5 @ crlf @ crlf @ body" i] find_last_line [of ?l5 body "i + length ?l4 + 2"] no_cr
      by simp
    then have "find_in (crlf @ crlf) (?l3 @ crlf @ ?l4 @ crlf @ ?l5 @ crlf @ crlf @ body) i =
        Some (i + length ?l3 + 2 + length ?l4 + 2 + length ?l5)" for i
      using find_skip_line [of ?l3 "?l4 @ crlf @ ?l5 @ crlf @ crlf @ body" i] by simp
    then have "find_in (crlf @ crlf) (?l2 @ crlf @ ?l3 @ crlf @ ?l4 @ crlf @ ?l5 @ crlf @ crlf @ body) i =
        Some (i + length ?l2 + 2 + length ?l3 + 2 + length ?l4 + 2 + length ?l5)" for i
      using find_skip_line [of ?l2 "?l3 @ crlf @ ?l4 @ crlf @ ?l5 @ crlf @ crlf @ body" i] no_cr assms(1) by simp
    then show ?thesis
      unfolding r
      using find_skip_line [of ?l1 "?l2 @ crlf @ ?l3 @ crlf @ ?l4 @ crlf @ ?l5 @ crlf @ crlf @ body" 0] by simp
  qed
  moreover have "drop (0 + length ?l1 + 2 + length ?l2 + 2 + length ?l3 + 2 + length ?l4 + 2 + length ?l5 + 4)
      (post_request host port body) = body"
  proof -
    have c: "length crlf = 2" by (simp add: crlf_def)
    from drop_prefix [of "?l1 @ crlf @ ?l2 @ crlf @ ?l3 @ crlf @ ?l4 @ crlf @ ?l5 @ crlf @ crlf" body] show ?thesis unfolding r by (simp add: c)
  qed
  moreover have "atoi (dec (length body) @ crlf @ ?l5 @ crlf @ crlf @ body) = Inr (int (length body))"
    by (rule atoi_dec) (use assms(2) in \<open>auto simp: crlf_def\<close>)
  moreover have "post_request host port body = (?l1 @ crlf @ ?l2 @ crlf @ ?l3 @ crlf) @ ''Content-Length: '' @
      dec (length body) @ crlf @ ?l5 @ crlf @ crlf @ body"
    unfolding r by simp
  ultimately show ?thesis unfolding find_from_def by (metis drop0 zero_le)
qed

lemma post_request_framed_witness:
  "\<exists>h v p. post_request ''127.0.0.1'' 8545 ''{}'' = h @ ''Content-Length: '' @ v \<and> atoi v = Inr (int 2) \<and>
    find_from (crlf @ crlf) (post_request ''127.0.0.1'' 8545 ''{}'') 0 = Some p \<and>
    drop (p + 4) (post_request ''127.0.0.1'' 8545 ''{}'') = ''{}''"
  using post_request_framed [of "''127.0.0.1''" "''{}''" 8545] by simp

text \<open>
  \<open>http_get\<close> returns the body: when the first response is a status line with a code from 200 to
  299, headers, and after the first blank line a body, the caller's string is the body alone.
\<close>

theorem http_get_body:
  assumes "inet_pton host" and "0 < attempts" and "net 0 = Connected l"
    and "length (get_request host port path) \<le> takes l" and "200 \<le> code" and "code < 300"
    and "read_all (replies l) = ''HTTP/1.1 '' @ dec code @ '' '' @ head @ crlf @ crlf @ body"
    and "find_from (crlf @ crlf) (''HTTP/1.1 '' @ dec code @ '' '' @ head @ crlf @ crlf) 0 =
      Some (length (''HTTP/1.1 '' @ dec code @ '' '' @ head))"
  shows "\<exists>t. http_get net inet_pton host port path (Some old) attempts backoff = Inr (True, t) \<and> response t = Some body"
proof -
  obtain n where n: "nat attempts = Suc n" using assms(2) by (metis Suc_pred zero_less_nat_eq)
  have a: "get_accept (read_all (replies l)) = Inr (Some body)"
    unfolding assms(7) by (rule get_accept_body [OF assms(5,6,8)])
  show ?thesis
    using http_loop_first [of net 0 l "get_request host port path" get_accept body, OF assms(3,4) a] assms(1) n by (simp add: http_get_def del: http_loop.simps)
qed

definition ok_response :: string where
  "ok_response = ''HTTP/1.1 200 OK'' @ crlf @ ''A: b'' @ crlf @ crlf @ ''[]''"

lemma http_get_body_witness:
  "\<exists>t. http_get (\<lambda>_. Connected \<lparr>takes = 1000, pieces = \<lambda>n. n, replies = [ok_response]\<rparr>) (\<lambda>_. True) ''h'' 80 ''/''
     (Some ''old'') 3 100 = Inr (True, t) \<and> response t = Some ''[]''"
proof (rule http_get_body [where l = "\<lparr>takes = 1000, pieces = \<lambda>n. n, replies = [ok_response]\<rparr>" and code = 200
      and head = "''OK'' @ crlf @ ''A: b''"])
  have d: "dec 200 = ''200''" by code_simp
  show "length (get_request ''h'' 80 ''/'') \<le> takes \<lparr>takes = 1000, pieces = \<lambda>n. n, replies = [ok_response]\<rparr>" by code_simp
  show "read_all (replies \<lparr>takes = 1000, pieces = \<lambda>n. n, replies = [ok_response]\<rparr>) =
      ''HTTP/1.1 '' @ dec 200 @ '' '' @ (''OK'' @ crlf @ ''A: b'') @ crlf @ crlf @ ''[]''"
    by (simp add: ok_response_def d)
  show "find_from (crlf @ crlf) (''HTTP/1.1 '' @ dec 200 @ '' '' @ (''OK'' @ crlf @ ''A: b'') @ crlf @ crlf) 0 =
      Some (length (''HTTP/1.1 '' @ dec 200 @ '' '' @ (''OK'' @ crlf @ ''A: b'')))"
    unfolding d by code_simp
qed simp_all

text \<open>
  The delay is an \<open>int\<close> that is doubled after each failed connection without a bound: with the
  default start of 100 ms, 25 refused attempts overflow it.
\<close>

theorem http_backoff_overflows:
  assumes "inet_pton host" and "25 \<le> attempts" and "\<And>i. net i = Refused"
  shows "http_post_json net inet_pton host port body resp attempts 100 = Inl Signed_Overflow"
proof -
  have "(2 :: int) ^ 25 \<le> 2 ^ nat attempts" using assms(2) by (intro power_increasing) auto
  then have "2147483647 < 100 * (2 :: int) ^ nat attempts" by simp
  from http_loop_overflow [OF assms(3) _ this, where k = 0 and accept = post_accept] assms(1)
  show ?thesis by (simp add: http_post_json_def in_i32_def)
qed

lemma http_backoff_overflows_witness:
  "http_post_json (\<lambda>_. Refused) (\<lambda>_. True) ''h'' 80 ''{}'' None 25 100 = Inl Signed_Overflow"
  by (rule http_backoff_overflows) simp_all

end
