(* ===== verification/Chain_Clients.thy ===== *)
theory Chain_Clients
  imports Onchain Http_Client
begin

text \<open>
  The contract clients on the wire: \<open>OnchainTrainingLedger\<close>,
  \<open>OnchainProofVerifier\<close>, \<open>OnchainMatchLedger\<close>,
  \<open>OnchainArena\<close> and \<open>OnchainCurriculumDuel\<close> keep a host, a port and a
  contract, and their methods call \<open>http_post_json\<close> with its default number of attempts
  and delay. \<open>Matchmaking\<close> and \<open>Onchain\<close> model the methods over an
  arbitrary request function; here that function is the HTTP client. \<open>decode_tx\<close> is
  what a node reads from the bytes of a request.
\<close>

section \<open>Clients\<close>

record client =
  host :: string
  port :: u16
  contract :: string

record network_access =
  attempts :: "nat \<Rightarrow> attempt"
  pton :: "string \<Rightarrow> bool"

definition rpc :: "network_access \<Rightarrow> client \<Rightarrow> string \<Rightarrow> string option \<Rightarrow> (bool \<times> http_state) res" where
  "rpc N cl body resp = http_post_json (attempts N) (pton N) (host cl) (port cl) body resp 3 100"

definition delivered :: "(bool \<times> http_state) res \<Rightarrow> bool" where
  \<comment> \<open>the boolean result of a request that does not fault\<close>
  "delivered r = (case r of Inl e \<Rightarrow> False | Inr (b, s) \<Rightarrow> b)"

definition rpc_submit_checkpoint ::
    "network_access \<Rightarrow> client \<Rightarrow> u32 \<Rightarrow> u32 \<Rightarrow> string \<Rightarrow> u32 \<Rightarrow> u32 \<Rightarrow> bool \<Rightarrow> u32 \<Rightarrow> string \<Rightarrow> (bool \<times> http_state) res" where
  "rpc_submit_checkpoint N cl c e r mb l ld es rh = rpc N cl (tx_body (contract cl) (checkpoint_calldata c e r mb l ld es rh)) None"

lemma submit_checkpoint_post:
  "delivered (rpc_submit_checkpoint N cl c e r mb l ld es rh) =
     training_submit_checkpoint (\<lambda>body. delivered (rpc N cl body None)) (contract cl) c e r mb l ld es rh"
  by (simp add: rpc_submit_checkpoint_def training_submit_checkpoint_def)

definition rpc_record_result ::
    "network_access \<Rightarrow> client \<Rightarrow> MatchLedger \<Rightarrow> u32 \<Rightarrow> u32 \<Rightarrow> ((u32 \<times> MatchLedger) \<times> http_state) res" where
  "rpc_record_result N cl l w x =
     rbind (rpc N cl (tx_body (contract cl) (ledger_calldata (next_id l) w x)) None) (\<lambda>(sent, s).
     Inr (onchain_record_result (\<lambda>_. sent) (contract cl) l w x, s))"

section \<open>What a node reads\<close>

definition json_string :: "string \<Rightarrow> string \<Rightarrow> string option" where
  \<comment> \<open>the string after the first \<open>"name":"\<close>\<close>
  "json_string name body =
     (let pat = CHR 0x22 # name @ ''\":\"'' in
      map_option (\<lambda>p. takeWhile (\<lambda>c. c \<noteq> CHR 0x22) (drop (p + length pat) body)) (find_from pat body 0))"

definition decode_tx :: "nat \<Rightarrow> u8 list \<Rightarrow> (string \<times> string \<times> nat list) option" where
  \<comment> \<open>recipient, selector and \<open>n\<close> words of a transaction request\<close>
  "decode_tx n bytes =
     (let req = map (\<lambda>b. char_of (unat b)) bytes in
      case find_from (crlf @ crlf) req 0 of
        None \<Rightarrow> None
      | Some p \<Rightarrow>
          let body = drop (p + 4) req in
          (case (json_string ''to'' body, json_string ''data'' body) of
             (Some to, Some data) \<Rightarrow> Some (to, take 10 data, abi_words n (drop 10 data))
           | _ \<Rightarrow> None))"

lemma bytes_of_request: "map (\<lambda>b. char_of (unat b)) (map of_char r :: u8 list) = r"
  by (simp add: comp_def map_idI)

lemma find_quoted:
  "CHR 0x22 \<notin> set u \<Longrightarrow> find_in (CHR 0x22 # p) (u @ s) i = find_in (CHR 0x22 # p) s (i + length u)"
proof (induction u arbitrary: i)
  case (Cons c u)
  then have "c \<noteq> CHR 0x22" by auto
  with Cons show ?case by simp
qed simp

lemma find_in_next: "take (length pat) (x # s) \<noteq> pat \<Longrightarrow> find_in pat (x # s) i = find_in pat s (Suc i)"
  by simp

lemma other_field:
  assumes "CHR 0x22 \<notin> set c" and "CHR 0x22 \<notin> set w" and "x \<noteq> y"
  shows "take n (c @ CHR 0x22 # x # s) \<noteq> w @ CHR 0x22 # y # z"
proof
  have t: "takeWhile (\<lambda>c. c \<noteq> CHR 0x22) (v @ CHR 0x22 # r) = v" if "CHR 0x22 \<notin> set v" for v r
    using that by (induction v) auto
  assume e: "take n (c @ CHR 0x22 # x # s) = w @ CHR 0x22 # y # z"
  have "c @ CHR 0x22 # x # s = w @ CHR 0x22 # y # z @ drop n (c @ CHR 0x22 # x # s)"
    using append_take_drop_id [of n "c @ CHR 0x22 # x # s"] unfolding e by simp
  moreover from this t [OF assms(1)] t [OF assms(2)] have "c = w" by metis
  ultimately show False using assms(3) by simp
qed

lemma tx_body_head: "tx_body c d = ''{\"jsonrpc\":\"2.0\",\"method\":\"eth_sendTransaction\",\"params\":[{'' @
    ''\"to\":\"'' @ c @ CHR 0x22 # '','' @ ''\"data\":\"'' @ d @ ''\"}],\"id\":1}''"
  by (simp add: tx_body_def)

lemma json_string_to:
  assumes "CHR 0x22 \<notin> set c"
  shows "json_string ''to'' (tx_body c d) = Some c"
proof -
  have "find_from (CHR 0x22 # ''to'' @ ''\":\"'') (tx_body c d) 0 = Some 59"
    unfolding tx_body_head by (simp add: find_from_def)
  moreover have "drop (59 + 6) (tx_body c d) = c @ CHR 0x22 # ('',\"data\":\"'' @ d @ ''\"}],\"id\":1}'')"
    unfolding tx_body_head by simp
  ultimately show ?thesis using assms by (auto simp: json_string_def takeWhile_tail)
qed

lemma json_string_data:
  assumes "CHR 0x22 \<notin> set c" and "CHR 0x22 \<notin> set d"
  shows "json_string ''data'' (tx_body c d) = Some d"
proof -
  let ?pre = "''{\"jsonrpc\":\"2.0\",\"method\":\"eth_sendTransaction\",\"params\":[{\"to\":''"
  let ?rest = "'','' @ ''\"data\":\"'' @ d @ ''\"}],\"id\":1}''"
  have "take (Suc (Suc (Suc (Suc (Suc (Suc (Suc 0))))))) (c @ CHR 0x22 # ?rest) \<noteq> ''data\":\"''"
    using other_field [of c "''data''" "CHR '',''" "CHR '':''" "Suc (Suc (Suc (Suc (Suc (Suc (Suc 0))))))" "tl ?rest" "[CHR 0x22]"] assms(1) by simp
  then have "take (length ''\"data\":\"'') (CHR 0x22 # c @ CHR 0x22 # ?rest) \<noteq> ''\"data\":\"''" by simp
  then have "find_in ''\"data\":\"'' (CHR 0x22 # c @ CHR 0x22 # ?rest) 64 = find_in ''\"data\":\"'' (c @ CHR 0x22 # ?rest) (Suc 64)"
    by (rule find_in_next)
  also have "\<dots> = find_in ''\"data\":\"'' (CHR 0x22 # ?rest) (Suc 64 + length c)" by (rule find_quoted [OF assms(1)])
  also have "\<dots> = Some (65 + length c + 2)" by simp
  finally have f: "find_in ''\"data\":\"'' (CHR 0x22 # c @ CHR 0x22 # ?rest) 64 = Some (65 + length c + 2)" .
  have "tx_body c d = ?pre @ CHR 0x22 # c @ CHR 0x22 # ?rest" unfolding tx_body_head by simp
  moreover have "find_in ''\"data\":\"'' (?pre @ s) 0 = find_in ''\"data\":\"'' s (0 + length ?pre)" for s
    by simp
  moreover have "0 + length ?pre = 64" by simp
  ultimately have "find_from ''\"data\":\"'' (tx_body c d) 0 = Some (65 + length c + 2)"
    unfolding find_from_def using f by (metis drop0 zero_le)
  moreover have "drop (65 + length c + 2 + 8) (tx_body c d) = d @ CHR 0x22 # ''}],\"id\":1}''"
  proof -
    let ?p = "?pre @ CHR 0x22 # c @ ''\",\"data\":\"''"
    have "length ?p = 65 + length c + 2 + 8" by simp
    moreover have "tx_body c d = ?p @ d @ CHR 0x22 # ''}],\"id\":1}''" unfolding tx_body_head by simp
    ultimately show ?thesis by (metis drop_prefix)
  qed
  ultimately show ?thesis using assms(2) by (auto simp: json_string_def takeWhile_tail)
qed

lemma request_body:
  assumes "CHR 0x0d \<notin> set h" and "length body \<le> 2147483647"
  obtains p where "find_from (crlf @ crlf) (post_request h pt body) 0 = Some p" and "drop (p + 4) (post_request h pt body) = body"
  using post_request_framed [OF assms, of pt] by blast

lemma decode_request:
  assumes "CHR 0x0d \<notin> set h" and "length (tx_body c d) \<le> 2147483647" and "CHR 0x22 \<notin> set c" and "CHR 0x22 \<notin> set d"
  shows "decode_tx n (map of_char (post_request h pt (tx_body c d))) = Some (c, take 10 d, abi_words n (drop 10 d))"
proof -
  obtain p where "find_from (crlf @ crlf) (post_request h pt (tx_body c d)) 0 = Some p"
    "drop (p + 4) (post_request h pt (tx_body c d)) = tx_body c d"
    by (rule request_body [OF assms(1,2), of pt])
  then show ?thesis
    unfolding decode_tx_def bytes_of_request
    by (simp add: Let_def json_string_to [OF assms(3)] json_string_data [OF assms(3,4)] del: abi_words.simps)
qed

lemma length_tx_body: "length (tx_body c d) = 86 + length c + length d"
  by (simp add: tx_body_def)

lemma word_no_quote: "abi_word w v \<Longrightarrow> CHR 0x22 \<notin> set w"
  by (simp add: abi_word_def hex_no_quote)

lemma checkpoint_no_quote:
  assumes "is_hex r" and "is_hex rh"
  shows "CHR 0x22 \<notin> set (checkpoint_calldata c e r mb l ld es rh)"
  using word_no_quote [OF encode_uint32_word] word_no_quote [OF encode_bool_word]
    word_no_quote [OF bytes32_word [OF assms(1)]] word_no_quote [OF bytes32_word [OF assms(2)]]
  by (auto simp: checkpoint_calldata_def)

lemma rpc_first:
  assumes "pton N (host cl)" and "attempts N 0 = Connected l" and "length (post_request (host cl) (port cl) body) \<le> takes l"
    and "post_accept (read_all (replies l)) = Inr (Some out)"
  shows "\<exists>t. rpc N cl body resp = Inr (True, t) \<and> received t = [map of_char (post_request (host cl) (port cl) body)]"
  using http_loop_first [of "attempts N" 0 l "post_request (host cl) (port cl) body" post_accept out 2 100, OF assms(2-4)] assms(1)
  by (auto simp: rpc_def http_post_json_def eval_nat_numeral simp del: http_loop.simps)

lemma http_loop_error:
  assumes "net k = Connected l" and "length r \<le> takes l" and "accept (read_all (replies l)) = Inr None" and "in_i32 (delay * 2)"
  shows "http_loop accept net True r (Suc n) k delay s = http_loop accept net True r n (Suc k) (delay * 2)
    \<lparr>received = received s @ [map of_char r], slept = slept s @ (if n > 0 then [delay] else []),
      response = map_option (\<lambda>_. read_all (replies l)) (response s)\<rparr>"
  using assms by (cases s) (auto simp: Let_def send_request)

lemma rpc_second:
  assumes "pton N (host cl)" and "\<And>k. k < 2 \<Longrightarrow> attempts N k = Connected (l k)"
    and "\<And>k. k < 2 \<Longrightarrow> length (post_request (host cl) (port cl) body) \<le> takes (l k)"
    and "post_accept (read_all (replies (l 0))) = Inr None" and "post_accept (read_all (replies (l 1))) = Inr (Some out)"
  shows "\<exists>t. rpc N cl body resp = Inr (True, t) \<and> received t = replicate 2 (map of_char (post_request (host cl) (port cl) body))"
proof -
  let ?r = "post_request (host cl) (port cl) body" and ?s = "\<lparr>received = [], slept = [], response = resp\<rparr>"
  let ?s1 = "\<lparr>received = [map of_char ?r], slept = [100], response = map_option (\<lambda>_. read_all (replies (l 0))) resp\<rparr>"
  have "http_loop post_accept (attempts N) True ?r (Suc (Suc 1)) 0 100 ?s = http_loop post_accept (attempts N) True ?r (Suc 1) (Suc 0) 200 ?s1"
    using http_loop_error [of "attempts N" 0 "l 0" ?r post_accept 100 "Suc 1" ?s] assms(2,3) [of 0] assms(4)
    by (simp add: in_i32_def del: http_loop.simps)
  also have "\<dots> = Inr (True, ?s1\<lparr>received := received ?s1 @ [map of_char ?r], response := map_option (\<lambda>_. out) (response ?s1)\<rparr>)"
    by (rule http_loop_first [of _ _ "l 1"]) (use assms(2,3) [of 1] assms(5) in auto)
  finally show ?thesis using assms(1) by (simp add: rpc_def http_post_json_def eval_nat_numeral del: http_loop.simps)
qed

lemma ledger_words:
  "take 10 (ledger_calldata i w x) = ''0x81adbe26'' \<and> length (ledger_calldata i w x) = 10 + 64 * 3 \<and>
   abi_words 3 (drop 10 (ledger_calldata i w x)) = [unat i, unat w, unat x] \<and> CHR 0x22 \<notin> set (ledger_calldata i w x)"
proof -
  let ?ws = "[encode_uint32 i, encode_uint32 w, encode_uint32 x]" and ?vs = "[unat i, unat w, unat x]"
  have "list_all2 abi_word ?ws ?vs" by (simp only: list_all2_Cons list_all2_Nil word_intros simp_thms)
  from abi_words_concat [OF this, of 3] have "abi_words 3 (concat ?ws) = ?vs" "length (concat ?ws) = 64 * 3" by simp_all
  moreover have "ledger_calldata i w x = ''0x81adbe26'' @ concat ?ws"
    by (simp only: ledger_calldata_def concat.simps append_Nil2 append_assoc)
  moreover have "CHR 0x22 \<notin> set (concat ?ws)" using word_no_quote [OF encode_uint32_word] by auto
  ultimately show ?thesis by (simp del: concat.simps abi_words.simps)
qed

section \<open>Properties\<close>

text \<open>
  C27: a checkpoint reaches the contract as it was submitted: when the first attempt connects and is
  answered with success, \<open>submit_checkpoint\<close> returns true and has sent one request, from whose
  bytes a node reads the recipient contract, the selector and the eight submitted values.
\<close>

theorem checkpoint_reaches_contract:
  assumes "pton N (host cl)" and "attempts N 0 = Connected l"
    and "length (post_request (host cl) (port cl) (tx_body (contract cl) (checkpoint_calldata c e r mb ls ld es rh))) \<le> takes l"
    and "post_accept (read_all (replies l)) = Inr (Some out)"
    and "is_hex r" and "is_hex rh" and "CHR 0x22 \<notin> set (contract cl)" and "CHR 0x0d \<notin> set (host cl)"
    and "length (contract cl) \<le> 2147482000"
  shows "\<exists>t w. rpc_submit_checkpoint N cl c e r mb ls ld es rh = Inr (True, t) \<and> received t = [w] \<and>
    decode_tx 8 w = Some (contract cl, ''0x5df4059d'', [unat c, unat e, hex_val r mod 2 ^ 256, unat mb, unat ls,
      if ld then 1 else 0, unat es, hex_val rh mod 2 ^ 256])"
proof -
  let ?d = "checkpoint_calldata c e r mb ls ld es rh"
  note w = checkpoint_calldata_words [OF assms(5,6), of c e mb ls ld es]
  have "length (tx_body (contract cl) ?d) \<le> 2147483647" using w assms(9) by (simp add: length_tx_body)
  from decode_request [OF assms(8) this assms(7) checkpoint_no_quote [OF assms(5,6)], of 8 "port cl"] w
  have "decode_tx 8 (map of_char (post_request (host cl) (port cl) (tx_body (contract cl) ?d))) = Some (contract cl, ''0x5df4059d'',
      [unat c, unat e, hex_val r mod 2 ^ 256, unat mb, unat ls, if ld then 1 else 0, unat es, hex_val rh mod 2 ^ 256])"
    by (simp only:)
  with rpc_first [OF assms(1-4), of None] show ?thesis unfolding rpc_submit_checkpoint_def by blast
qed

definition answering :: "string \<Rightarrow> link" where
  \<comment> \<open>a connection that takes 5000 characters and answers with one response\<close>
  "answering resp = \<lparr>takes = 5000, pieces = \<lambda>n. n, replies = [resp]\<rparr>"

definition home :: client where
  "home = \<lparr>host = ''127.0.0.1'', port = 8545, contract = ''0xabc''\<rparr>"

lemma post_accept_empty: "post_accept [] = Inr (Some [])"
  by (simp add: post_accept_def status_code_def find_from_def)

lemma length_post_request: "length (post_request h p body) = 97 + length h + length (dec (unat p)) + length (dec (length body)) + length body"
  by (simp add: post_request_def crlf_def)

lemma checkpoint_reaches_contract_witness:
  "\<exists>t w. rpc_submit_checkpoint \<lparr>attempts = \<lambda>_. Connected (answering []), pton = \<lambda>_. True\<rparr> home 7 3 ''0a'' 100 42 True 5 ''ff'' = Inr (True, t) \<and>
    received t = [w] \<and> decode_tx 8 w = Some (''0xabc'', ''0x5df4059d'', [7, 3, 10, 100, 42, 1, 5, 255])"
proof -
  let ?N = "\<lparr>attempts = \<lambda>_. Connected (answering []), pton = \<lambda>_. True\<rparr>"
  let ?d = "checkpoint_calldata 7 3 ''0a'' 100 42 True 5 ''ff''"
  have h: "is_hex ''0a''" "is_hex ''ff''" by (simp_all add: is_hex_def hex_digit_def)
  have l: "length ?d = 522" using checkpoint_calldata_words [OF h, of 7 3 100 42 True 5] by simp
  have d: "length (dec 8545) = 4" "length (dec 613) = 3" by (simp_all add: dec.simps)
  have p: "unat (8545 :: u16) = 8545" by simp
  have 1: "length (post_request (host home) (port home) (tx_body (contract home) ?d)) \<le> takes (answering [])"
    unfolding length_post_request length_tx_body l home_def answering_def client.simps link.simps p
    by (simp add: d)
  have 2: "post_accept (read_all (replies (answering []))) = Inr (Some [])"
    by (simp add: answering_def post_accept_empty)
  from checkpoint_reaches_contract [of ?N home "answering []" 7 3 "''0a''" 100 42 True 5 "''ff''" "[]", OF _ _ 1 2 h]
  show ?thesis by (simp add: home_def hex_digit_def hex_val_def)
qed

text \<open>
  C28: a battle can be recorded twice on the chain: when the node answers the first request with an
  error status and the second with success, the ledger returns one new id and keeps one entry,
  and the node has received two identical transactions with this id.
\<close>

theorem battle_sent_twice:
  assumes "pton N (host cl)" and "\<And>k. k < 2 \<Longrightarrow> attempts N k = Connected (l k)"
    and "\<And>k. k < 2 \<Longrightarrow> length (post_request (host cl) (port cl) (tx_body (contract cl) (ledger_calldata (next_id led) w x))) \<le> takes (l k)"
    and "post_accept (read_all (replies (l 0))) = Inr None" and "post_accept (read_all (replies (l 1))) = Inr (Some out)"
    and "CHR 0x22 \<notin> set (contract cl)" and "CHR 0x0d \<notin> set (host cl)" and "length (contract cl) \<le> 2147482000"
  shows "\<exists>t b led'. rpc_record_result N cl led w x = Inr ((next_id led, led'), t) \<and>
    results led' = results led @ [\<lparr>battle_id = next_id led, winner = w, loser = x\<rparr>] \<and> received t = [b, b] \<and>
    decode_tx 3 b = Some (contract cl, ''0x81adbe26'', [unat (next_id led), unat w, unat x])"
proof -
  let ?d = "ledger_calldata (next_id led) w x"
  let ?b = "map of_char (post_request (host cl) (port cl) (tx_body (contract cl) ?d))"
  note d = ledger_words [of "next_id led" w x]
  have "length (tx_body (contract cl) ?d) \<le> 2147483647" using d assms(8) by (simp add: length_tx_body)
  from decode_request [OF assms(7) this assms(6), of 3 "port cl"] d
  have "decode_tx 3 ?b = Some (contract cl, ''0x81adbe26'', [unat (next_id led), unat w, unat x])" by (simp only: simp_thms)
  moreover obtain t where "rpc N cl (tx_body (contract cl) ?d) None = Inr (True, t)" "received t = replicate 2 ?b"
    using rpc_second [OF assms(1-5), of None] by blast
  ultimately show ?thesis
    by (simp add: rpc_record_result_def onchain_record_result_def ledger_send_tx_def Let_def eval_nat_numeral)
qed

lemma battle_sent_twice_witness:
  "\<exists>t b led'. rpc_record_result \<lparr>attempts = \<lambda>k. Connected (answering (if k = 0 then ''HTTP/1.1 500 '' else [])), pton = \<lambda>_. True\<rparr>
      home new_ledger 4 9 = Inr ((1, led'), t) \<and> results led' = [\<lparr>battle_id = 1, winner = 4, loser = 9\<rparr>] \<and>
    received t = [b, b] \<and> decode_tx 3 b = Some (''0xabc'', ''0x81adbe26'', [1, 4, 9])"
proof -
  let ?l = "\<lambda>k :: nat. answering (if k = 0 then ''HTTP/1.1 500 '' else [])"
  let ?N = "\<lparr>attempts = \<lambda>k. Connected (?l k), pton = \<lambda>_. True\<rparr>"
  have n: "next_id new_ledger = 1" "results new_ledger = []" by (simp_all add: new_ledger_def)
  have len: "length (ledger_calldata 1 4 9) = 202" using ledger_words [of 1 4 9] by simp
  have d: "length (dec 8545) = 4" "length (dec 293) = 3" by (simp_all add: dec.simps)
  have p: "unat (8545 :: u16) = 8545" by simp
  have l: "length (post_request (host home) (port home) (tx_body (contract home) (ledger_calldata 1 4 9))) \<le> takes (?l k)" for k
    unfolding length_post_request length_tx_body len home_def answering_def client.simps link.simps p by (simp add: d)
  have e: "post_accept (read_all (replies (?l 0))) = Inr None" unfolding answering_def by code_simp
  have o: "post_accept (read_all (replies (?l 1))) = Inr (Some [])" by (simp add: answering_def post_accept_empty)
  from battle_sent_twice [of ?N home ?l new_ledger 4 9 "[]", OF _ _ _ e o] l show ?thesis
    by (simp add: n) (simp add: home_def)
qed

end
