(* ===== verification/Async_Clients.thy ===== *)
theory Async_Clients
  imports Chain_Clients
begin

text \<open>
  The asynchronous methods of the contract clients (\<open>submit_checkpoint_async\<close>,
  \<open>finalize_checkpoint_async\<close>, \<open>reward_miner_async\<close>,
  \<open>submit_proof_async\<close> and the two \<open>send_tx_async\<close>): each starts a thread
  that runs the synchronous method. The threads share the network, so a step of the system is the
  launch of a call or one attempt of one call's retry loop, in any order; the node logs the bytes of
  each connection with the number of the call. \<open>future\<close> is the result of the call's
  function once its future is ready; the futures of a finalization and of a reward are
  \<open>void\<close> and hide it.
\<close>

section \<open>The calls\<close>

record call =
  request :: string
  host_ok :: bool
  made :: nat
  future :: "bool option"

definition launch :: "network_access \<Rightarrow> client \<Rightarrow> string \<Rightarrow> call" where
  \<comment> \<open>the request of the call is fixed by its captured arguments\<close>
  "launch N cl data =
     \<lparr>request = post_request (host cl) (port cl) (tx_body (contract cl) data), host_ok = pton N (host cl), made = 0, future = None\<rparr>"

definition submit_checkpoint_async ::
    "network_access \<Rightarrow> client \<Rightarrow> u32 \<Rightarrow> u32 \<Rightarrow> string \<Rightarrow> u32 \<Rightarrow> u32 \<Rightarrow> bool \<Rightarrow> u32 \<Rightarrow> string \<Rightarrow> call" where
  "submit_checkpoint_async N cl c e r mb l ld es rh = launch N cl (checkpoint_calldata c e r mb l ld es rh)"

definition finalize_checkpoint_async :: "network_access \<Rightarrow> client \<Rightarrow> string \<Rightarrow> call" where
  "finalize_checkpoint_async N cl r = launch N cl (finalize_calldata r)"

definition reward_miner_async :: "network_access \<Rightarrow> client \<Rightarrow> string \<Rightarrow> u32 \<Rightarrow> call" where
  "reward_miner_async N cl miner amount = launch N cl (reward_calldata miner amount)"

definition submit_proof_async :: "network_access \<Rightarrow> client \<Rightarrow> string \<Rightarrow> string \<Rightarrow> call" where
  "submit_proof_async N cl r p = launch N cl (proof_calldata r p)"

definition ledger_send_tx_async :: "network_access \<Rightarrow> client \<Rightarrow> u32 \<Rightarrow> u32 \<Rightarrow> u32 \<Rightarrow> call" where
  "ledger_send_tx_async N cl i w x = launch N cl (ledger_calldata i w x)"

definition arena_send_tx_async :: "network_access \<Rightarrow> client \<Rightarrow> CreatureStats \<Rightarrow> CreatureStats \<Rightarrow> u32 \<Rightarrow> call" where
  "arena_send_tx_async N cl a b seed = launch N cl (arena_calldata a b seed)"

section \<open>Attempts\<close>

definition attempt_once :: "bool \<Rightarrow> attempt \<Rightarrow> string \<Rightarrow> (bool \<times> u8 list list) res" where
  \<comment> \<open>one turn of the loop of \<open>http_post_json\<close>: whether it is answered with success, and what was sent\<close>
  "attempt_once valid a r =
     rbind (http_loop post_accept (\<lambda>_. a) valid r 1 0 100 \<lparr>received = [], slept = [], response = None\<rparr>) (\<lambda>(b, s).
     Inr (b, received s))"

definition after_attempt :: "attempt \<Rightarrow> bool \<Rightarrow> call \<Rightarrow> call" where
  \<comment> \<open>three attempts in all; an invalid address ends the loop at once\<close>
  "after_attempt a b c = c\<lparr>made := Suc (made c),
     future := (if b then Some True
       else if made c = 2 \<or> \<not> host_ok c \<and> a \<noteq> No_Socket then Some False else None)\<rparr>"

record async_net =
  calls :: "call list"
  log :: "(nat \<times> u8 list) list"

inductive net_step :: "async_net \<Rightarrow> async_net \<Rightarrow> bool" where
  launched: "made c = 0 \<Longrightarrow> future c = None \<Longrightarrow> net_step s (s\<lparr>calls := calls s @ [c]\<rparr>)"
| attempted: "i < length (calls s) \<Longrightarrow> future (calls s ! i) = None \<Longrightarrow>
     attempt_once (host_ok (calls s ! i)) a (request (calls s ! i)) = Inr (b, ws) \<Longrightarrow>
     net_step s \<lparr>calls = (calls s)[i := after_attempt a b (calls s ! i)], log = log s @ map (Pair i) ws\<rparr>"

inductive net_run :: "nat \<Rightarrow> async_net \<Rightarrow> bool" where
  idle: "net_run 0 \<lparr>calls = [], log = []\<rparr>"
| further: "net_run n s \<Longrightarrow> net_step s t \<Longrightarrow> net_run (Suc n) t"

section \<open>One call alone is the synchronous method\<close>

fun solo :: "(nat \<Rightarrow> attempt) \<Rightarrow> bool \<Rightarrow> string \<Rightarrow> nat \<Rightarrow> nat \<Rightarrow> (bool \<times> u8 list list) res" where
  "solo net valid r 0 k = Inr (False, [])"
| "solo net valid r (Suc n) k =
     rbind (attempt_once valid (net k) r) (\<lambda>(b, ws).
       if b \<or> \<not> valid \<and> net k \<noteq> No_Socket then Inr (b, ws)
       else rbind (solo net valid r n (Suc k)) (\<lambda>(c, vs). Inr (c, ws @ vs)))"

lemma attempt_once_cases:
  "attempt_once valid No_Socket r = Inr (False, [])"
  "attempt_once valid Refused r = Inr (False, [])"
  "attempt_once False a r = Inr (False, [])"
  "length r \<le> takes l \<Longrightarrow> attempt_once True (Connected l) r =
     rbind (post_accept (read_all (replies l))) (\<lambda>v. Inr (v \<noteq> None, [map of_char r]))"
  "takes l < length r \<Longrightarrow> attempt_once True (Connected l) r = Inr (False, [take (takes l) (map of_char r)])"
proof -
  show "attempt_once False a r = Inr (False, [])"
    by (cases a) (simp_all add: attempt_once_def Let_def i32_def in_i32_def)
  show "attempt_once True (Connected l) r =
     rbind (post_accept (read_all (replies l))) (\<lambda>v. Inr (v \<noteq> None, [map of_char r]))" if "length r \<le> takes l"
    using that by (cases "post_accept (read_all (replies l))")
      (auto simp: attempt_once_def Let_def i32_def in_i32_def send_request split: option.split)
qed (auto simp: attempt_once_def Let_def i32_def in_i32_def send_request)

lemma http_loop_solo:
  assumes "0 \<le> delay" and "delay * 2 ^ n \<le> 2147483647"
  shows "rbind (http_loop post_accept net valid r n k delay s) (\<lambda>(b, t). Inr (b, received t)) =
    rbind (solo net valid r n k) (\<lambda>(b, ws). Inr (b, received s @ ws))"
  using assms
proof (induction n arbitrary: k delay s)
  case (Suc n)
  have d: "i32 (delay * 2) = Inr (delay * 2)"
  proof -
    have "delay * 2 \<le> delay * 2 ^ Suc n" using Suc.prems(1) by (intro mult_left_mono) auto
    with Suc.prems show ?thesis unfolding i32_def in_i32_def by simp
  qed
  have less: "delay * 2 ^ n \<le> 2147483647"
  proof -
    have "delay * 2 ^ n \<le> delay * 2 ^ Suc n" using Suc.prems(1) by (intro mult_left_mono) auto
    with Suc.prems(2) show ?thesis by linarith
  qed
  note again = Suc.IH [of "delay * 2"] and same = Suc.IH [OF Suc.prems(1) less]
  show ?case
  proof (cases "net k")
    case (Connected l)
    show ?thesis
    proof (cases "valid \<and> length r \<le> takes l")
      case True
      then show ?thesis
        using Connected again Suc.prems
        by (cases "post_accept (read_all (replies l))"; cases "solo net valid r n (Suc k)")
          (auto simp: Let_def d send_request attempt_once_cases split: option.split)
    next
      case False
      then show ?thesis
        using Connected again Suc.prems
        by (cases valid; cases "solo net valid r n (Suc k)") (auto simp: Let_def d send_request attempt_once_cases)
    qed
  qed (use again same Suc.prems in \<open>cases "solo net valid r n (Suc k)"; auto simp: Let_def d attempt_once_cases\<close>)+
qed simp

lemma post_solo:
  "rbind (http_post_json net inet_pton h pt body None 3 100) (\<lambda>(b, t). Inr (b, received t)) =
     solo net (inet_pton h) (post_request h pt body) 3 0"
  using http_loop_solo [of 100 3 net "inet_pton h" "post_request h pt body" 0 "\<lparr>received = [], slept = [], response = None\<rparr>"]
  by (cases "solo net (inet_pton h) (post_request h pt body) 3 0") (auto simp: http_post_json_def)

section \<open>What the node has seen\<close>

definition entries :: "(nat \<times> u8 list) list \<Rightarrow> nat \<Rightarrow> u8 list list" where
  "entries lg i = map snd (filter (\<lambda>(j, w). j = i) lg)"

lemma entries_append: "entries (lg @ map (Pair i) ws) j = entries lg j @ (if j = i then ws else [])"
  by (induction ws) (auto simp: entries_def)

definition call_ok :: "(nat \<times> u8 list) list \<Rightarrow> nat \<Rightarrow> call \<Rightarrow> bool" where
  \<comment> \<open>at most three attempts, each of which delivers at most a prefix of the request; a future that
      is ready with true has delivered all of it\<close>
  "call_ok lg i c \<longleftrightarrow> made c \<le> 3 \<and> (future c = None \<longrightarrow> made c < 3) \<and> length (entries lg i) \<le> made c \<and>
     list_all (\<lambda>w. \<exists>k. w = take k (map of_char (request c))) (entries lg i) \<and>
     (future c = Some True \<longrightarrow> map of_char (request c) \<in> set (entries lg i))"

lemma attempt_once_sends:
  assumes "attempt_once valid a r = Inr (b, ws)"
  shows "length ws \<le> 1 \<and> list_all (\<lambda>w. \<exists>k. w = take k (map of_char r)) ws \<and> (b \<longrightarrow> map of_char r \<in> set ws)"
proof -
  have whole: "\<exists>k. map of_char r = (take k (map of_char r) :: u8 list)" by (rule exI [of _ "length r"]) simp
  show ?thesis
  proof (cases "\<exists>l. valid \<and> a = Connected l")
    case True
    then obtain l where l: "valid" "a = Connected l" by blast
    show ?thesis
      by (cases "length r \<le> takes l") (use assms l whole in \<open>auto simp: attempt_once_cases rbind_Inr_iff\<close>)
  next
    case False
    then show ?thesis using assms by (cases a; cases valid) (auto simp: attempt_once_cases)
  qed
qed

definition net_inv :: "nat \<Rightarrow> async_net \<Rightarrow> bool" where
  "net_inv n s \<longleftrightarrow> n = length (calls s) + sum_list (map made (calls s)) \<and>
     (\<forall>e\<in>set (log s). fst e < length (calls s)) \<and> (\<forall>i<length (calls s). call_ok (log s) i (calls s ! i))"

lemma net_inv_step:
  assumes "net_step s t" and "net_inv n s"
  shows "net_inv (Suc n) t"
  using assms(1)
proof (cases rule: net_step.cases)
  case (launched c)
  have "entries (log s) (length (calls s)) = []"
    using assms(2) by (auto simp: net_inv_def entries_def filter_empty_conv)
  then have "call_ok (log s) (length (calls s)) c" using launched by (simp add: call_ok_def)
  with assms(2) launched show ?thesis by (auto simp: net_inv_def nth_append less_Suc_eq intro: less_SucI)
next
  case (attempted i a b ws)
  let ?c = "calls s ! i" and ?lg = "log s @ map (Pair i) ws"
  note snt = attempt_once_sends [OF attempted(4)]
  have c: "call_ok (log s) i ?c" using assms(2) attempted(2) by (simp add: net_inv_def)
  have "call_ok ?lg i (after_attempt a b ?c)"
    using c snt attempted(3) by (auto simp: call_ok_def after_attempt_def entries_append)
  moreover have "call_ok ?lg j (calls s ! j)" if "j < length (calls s)" "j \<noteq> i" for j
    using assms(2) that by (simp add: net_inv_def call_ok_def entries_append)
  moreover have "sum_list (map made ((calls s)[i := after_attempt a b ?c])) = Suc (sum_list (map made (calls s)))"
    using attempted(2) by (simp add: map_update sum_list_update after_attempt_def)
  ultimately show ?thesis
    using assms(2) attempted(1,2) by (auto simp: net_inv_def nth_list_update)
qed

lemma net_inv_run: "net_run n s \<Longrightarrow> net_inv n s"
proof (induction rule: net_run.induct)
  case idle
  show ?case by (simp add: net_inv_def)
next
  case (further n s t)
  then show ?case by (blast intro: net_inv_step)
qed

section \<open>Properties\<close>

text \<open>
  C29: asynchronous calls settle, whatever the network answers and however the threads interleave: a
  system of \<open>n\<close> calls makes at most \<open>3 n\<close> attempts after their launches,
  and as long as one future is not ready its thread can make the next attempt, whatever it meets
  that the client can read; every call delivers at most three times, each time a prefix of its own
  request and never that of another call; and a future that is ready with true has delivered its
  whole request.
\<close>

theorem async_calls_settle:
  assumes "net_run n s"
  shows "n \<le> 4 * length (calls s) \<and> (\<forall>i<length (calls s). call_ok (log s) i (calls s ! i) \<and>
    (future (calls s ! i) = None \<longrightarrow>
      (\<forall>a. ok (attempt_once (host_ok (calls s ! i)) a (request (calls s ! i))) \<longrightarrow>
        (\<exists>t b. net_step s t \<and> calls t = (calls s)[i := after_attempt a b (calls s ! i)]))))"
proof -
  note inv = net_inv_run [OF assms]
  have "sum_list (map made (calls s)) \<le> sum_list (map (\<lambda>_. 3) (calls s))"
    using inv by (intro sum_list_mono) (auto simp: net_inv_def call_ok_def in_set_conv_nth)
  then have "sum_list (map made (calls s)) \<le> 3 * length (calls s)" by (simp add: sum_list_triv)
  moreover have "\<exists>t b. net_step s t \<and> calls t = (calls s)[i := after_attempt a b (calls s ! i)]"
    if "i < length (calls s)" "future (calls s ! i) = None" "ok (attempt_once (host_ok (calls s ! i)) a (request (calls s ! i)))" for i a
  proof -
    from that(3) obtain b ws where "attempt_once (host_ok (calls s ! i)) a (request (calls s ! i)) = Inr (b, ws)"
      by (auto simp: ok_iff)
    from attempted [OF that(1,2) this] show ?thesis
      by (intro exI [of _ "\<lparr>calls = (calls s)[i := after_attempt a b (calls s ! i)], log = log s @ map (Pair i) ws\<rparr>"] exI [of _ b]) simp
  qed
  ultimately show ?thesis using inv by (auto simp: net_inv_def)
qed

lemma launched_delivers:
  assumes "net_run n s" and "i < length (calls s)" and "calls s ! i = launch N cl data" and "pton N (host cl)"
  obtains t where "net_run (Suc n) t" and "length (calls t) = length (calls s)"
    and "calls t ! i = (launch N cl data)\<lparr>made := 1, future := Some True\<rparr>" and "\<And>j. j \<noteq> i \<Longrightarrow> calls t ! j = calls s ! j"
    and "log t = log s @ [(i, map of_char (request (launch N cl data)))]"
proof -
  let ?c = "launch N cl data"
  let ?l = "\<lparr>takes = length (request ?c), pieces = \<lambda>n. n, replies = []\<rparr>"
  have "attempt_once True (Connected ?l) (request ?c) = Inr (True, [map of_char (request ?c)])"
    by (subst attempt_once_cases) (simp_all add: post_accept_empty)
  then have "net_step s \<lparr>calls = (calls s)[i := after_attempt (Connected ?l) True ?c], log = log s @ map (Pair i) [map of_char (request ?c)]\<rparr>"
    using attempted [of i s "Connected ?l" True "[map of_char (request ?c)]"] assms(2-4) by (simp add: launch_def)
  from further [OF assms(1) this] show thesis
    by (rule that) (use assms(2) in \<open>simp_all add: after_attempt_def launch_def\<close>)
qed

text \<open>
  Asynchronous calls overtake each other: a finalization that is launched after the
  submission of its checkpoint can reach the node first, although both calls succeed.
\<close>

theorem finalize_overtakes_checkpoint:
  assumes "pton N (host cl)"
  shows "\<exists>n s. net_run n s \<and> map fst (log s) = [1, 0] \<and> map future (calls s) = [Some True, Some True] \<and>
    map request (calls s) = [request (submit_checkpoint_async N cl c e r mb l ld es rh), request (finalize_checkpoint_async N cl r)]"
proof -
  let ?a = "submit_checkpoint_async N cl c e r mb l ld es rh" and ?b = "finalize_checkpoint_async N cl r"
  let ?s1 = "\<lparr>calls = [?a], log = []\<rparr>" and ?s2 = "\<lparr>calls = [?a, ?b], log = []\<rparr>"
  have f: "made ?a = 0" "future ?a = None" "made ?b = 0" "future ?b = None"
    by (simp_all add: submit_checkpoint_async_def finalize_checkpoint_async_def launch_def)
  have 1: "net_step \<lparr>calls = [], log = []\<rparr> ?s1" using launched [OF f(1,2), of "\<lparr>calls = [], log = []\<rparr>"] by simp
  have 2: "net_step ?s1 ?s2" using launched [OF f(3,4), of ?s1] by simp
  have rr: "net_run 2 ?s2" unfolding numeral_2_eq_2 by (rule further [OF further [OF idle 1] 2])
  obtain t where t: "net_run (Suc 2) t" "length (calls t) = length (calls ?s2)" "calls t ! 1 = ?b\<lparr>made := 1, future := Some True\<rparr>"
    "\<And>j. j \<noteq> 1 \<Longrightarrow> calls t ! j = calls ?s2 ! j" "map fst (log t) = [1]"
    by (rule launched_delivers [OF rr, of 1 N cl "finalize_calldata r"]) (simp_all add: finalize_checkpoint_async_def assms)
  obtain u where u: "net_run (Suc (Suc 2)) u" "length (calls u) = length (calls t)" "calls u ! 0 = ?a\<lparr>made := 1, future := Some True\<rparr>"
    "\<And>j. j \<noteq> 0 \<Longrightarrow> calls u ! j = calls t ! j" "map fst (log u) = [1, 0]"
    by (rule launched_delivers [OF t(1), of 0 N cl "checkpoint_calldata c e r mb l ld es rh"])
      (simp_all add: submit_checkpoint_async_def assms t(2,4,5))
  have "length (calls u) = 2" "calls u ! 1 = ?b\<lparr>made := 1, future := Some True\<rparr>" using t(2,3) u(2) u(4) [of 1] by simp_all
  with u(3) have "calls u = [?a\<lparr>made := 1, future := Some True\<rparr>, ?b\<lparr>made := 1, future := Some True\<rparr>]"
    by (intro nth_equalityI) (auto simp: less_Suc_eq numeral_2_eq_2)
  with u(1,5) show ?thesis by (intro exI [of _ "Suc (Suc 2)"] exI [of _ u]) simp
qed

lemma async_calls_settle_witness:
  "\<exists>n s. net_run n s \<and> length (calls s) = 2 \<and> map future (calls s) = [Some True, Some True] \<and> n \<le> 8 \<and>
    call_ok (log s) 0 (calls s ! 0) \<and> call_ok (log s) 1 (calls s ! 1)"
proof -
  obtain n s where s: "net_run n s" "map future (calls s) = [Some True, Some True]"
    using finalize_overtakes_checkpoint [of "\<lparr>attempts = \<lambda>_. Refused, pton = \<lambda>_. True\<rparr>" home 7 3 "''0a''" 100 42 True 5 "''ff''"]
    by auto
  then have "length (calls s) = 2" by (metis length_map length_Cons list.size(3) numeral_2_eq_2)
  with s async_calls_settle [OF s(1)] show ?thesis by (intro exI [of _ n] exI [of _ s]) simp
qed

end
