(* ===== verification/Validator.thy ===== *)
theory Validator
  imports Proof_System Onchain
begin

text \<open>
  The checkpoint validator of \<open>include/neuropet/validator.hpp\<close>. The proof system is the
  pair of its virtual functions \<open>gen\<close> and \<open>ver\<close>; the peer-to-peer server
  the validator may be attached to is the list of proofs handed to its \<open>submit\<close>, which
  calls the validator's own \<open>attest\<close> back before it returns.
\<close>

record Validator =
  quorum :: nat
  counts :: "string \<rightharpoonup> nat"
  last_loss :: f32
  curricula :: "u64 \<rightharpoonup> u8 list"
  p2p :: "StarkProof list option"

definition new_validator :: "nat \<Rightarrow> bool \<Rightarrow> Validator" where
  "new_validator q attached =
     \<lparr>quorum = q, counts = Map.empty, last_loss = f_infinity, curricula = Map.empty,
      p2p = (if attached then Some [] else None)\<rparr>"

definition attest :: "Validator \<Rightarrow> string \<Rightarrow> Validator" where
  "attest v r = v\<lparr>counts := (counts v)(r \<mapsto> (case counts v r of None \<Rightarrow> 0 | Some n \<Rightarrow> n) + 1)\<rparr>"

definition has_quorum :: "Validator \<Rightarrow> string \<Rightarrow> bool" where
  "has_quorum v r = (case counts v r of None \<Rightarrow> False | Some n \<Rightarrow> n \<ge> quorum v)"

definition publish :: "Validator \<Rightarrow> StarkProof \<Rightarrow> Validator" where
  \<comment> \<open>\<open>if (p2p_) p2p_->submit(proof)\<close>, with the callback the constructor registered\<close>
  "publish v p = (case p2p v of None \<Rightarrow> v | Some ps \<Rightarrow> attest (v\<lparr>p2p := Some (ps @ [p])\<rparr>) (root p))"

definition generate_proof :: "(tensors \<Rightarrow> StarkProof res) \<Rightarrow> tensors \<Rightarrow> string res" where
  "generate_proof gen ts = rbind (gen ts) (\<lambda>p. Inr (root p))"

definition generate_stark_proof ::
    "(tensors \<Rightarrow> StarkProof res) \<Rightarrow> Validator \<Rightarrow> tensors \<Rightarrow> (StarkProof \<times> Validator) res" where
  "generate_stark_proof gen v ts = rbind (gen ts) (\<lambda>p. Inr (p, publish v p))"

definition verify_stark_proof ::
    "(tensors \<Rightarrow> StarkProof \<Rightarrow> bool) \<Rightarrow> (tensors \<Rightarrow> f32) \<Rightarrow> Validator \<Rightarrow> tensors \<Rightarrow> StarkProof \<Rightarrow> bool \<times> Validator" where
  "verify_stark_proof ver lossf v ts p =
     (if \<not> ver ts p then (False, v)
      else let l = lossf ts in
        if f_lt (last_loss v) l then (False, v) else (True, v\<lparr>last_loss := l\<rparr>))"

definition prove_and_submit ::
    "(tensors \<Rightarrow> StarkProof res) \<Rightarrow> (tensors \<Rightarrow> StarkProof \<Rightarrow> bool) \<Rightarrow> (StarkProof \<Rightarrow> bool) \<Rightarrow> Validator \<Rightarrow> tensors \<Rightarrow>
     (bool \<times> Validator) res" where
  \<comment> \<open>\<open>submit\<close> is the on-chain verifier's \<open>submit_proof\<close>\<close>
  "prove_and_submit gen ver submit v ts =
     rbind (gen ts) (\<lambda>p.
       if \<not> ver ts p then Inr (False, v)
       else if f_lt (last_loss v) (loss p) then Inr (False, v)
       else let v' = v\<lparr>last_loss := loss p\<rparr> in
         if \<not> submit p then Inr (False, v') else Inr (True, publish v' p))"

definition replay_and_verify :: "(tensors \<Rightarrow> StarkProof res) \<Rightarrow> tensors \<Rightarrow> string \<Rightarrow> bool res" where
  "replay_and_verify gen ts expected_root = rbind (gen ts) (\<lambda>p. Inr (root p = expected_root))"

definition load_curriculum :: "(u64 \<Rightarrow> string option) \<Rightarrow> Validator \<Rightarrow> u64 \<Rightarrow> (bool \<times> Validator) res" where
  \<comment> \<open>the argument is the contract's \<open>get_dataset\<close>\<close>
  "load_curriculum dataset v duel_id =
     (case dataset duel_id of
        None \<Rightarrow> Inr (False, v)
      | Some hex \<Rightarrow> rbind (decode_hex hex) (\<lambda>bs. Inr (True, v\<lparr>curricula := (curricula v)(duel_id \<mapsto> bs)\<rparr>)))"

definition curriculum :: "Validator \<Rightarrow> u64 \<Rightarrow> u8 list option" where
  "curriculum v duel_id = curricula v duel_id"

section \<open>Attestations\<close>

lemma counts_attest [simp]:
  "counts (attest v r) s = (if s = r then Some (case counts v r of None \<Rightarrow> 1 | Some n \<Rightarrow> n + 1) else counts v s)"
  by (simp add: attest_def split: option.split)

lemma attest_sel [simp]:
  "quorum (attest v r) = quorum v" "last_loss (attest v r) = last_loss v"
  "curricula (attest v r) = curricula v" "p2p (attest v r) = p2p v"
  by (simp_all add: attest_def)

lemma publish_sel [simp]:
  "quorum (publish v p) = quorum v" "last_loss (publish v p) = last_loss v" "curricula (publish v p) = curricula v"
  by (simp_all add: publish_def split: option.split)

definition votes :: "Validator \<Rightarrow> string \<Rightarrow> nat" where
  "votes v r = (case counts v r of None \<Rightarrow> 0 | Some n \<Rightarrow> n)"

definition validator_inv :: "Validator \<Rightarrow> bool" where
  "validator_inv v \<longleftrightarrow> (\<forall>r. counts v r \<noteq> Some 0) \<and> \<not> is_nan (last_loss v)"

lemma votes_attest [simp]: "votes (attest v r) s = votes v s + (if s = r then 1 else 0)"
  by (simp add: votes_def split: option.split)

lemma has_quorum_votes: "validator_inv v \<Longrightarrow> has_quorum v r \<longleftrightarrow> max 1 (quorum v) \<le> votes v r"
  by (cases "counts v r") (auto simp: has_quorum_def votes_def validator_inv_def Suc_le_eq intro!: gr0I)

lemma votes_foldl_attest: "votes (foldl attest v rs) r = votes v r + count_list rs r"
  by (induction rs arbitrary: v) auto

lemma quorum_foldl_attest: "quorum (foldl attest v rs) = quorum v"
  by (induction rs arbitrary: v) auto

lemma validator_inv_new [simp]: "validator_inv (new_validator q a)"
  by (simp add: validator_inv_def new_validator_def)

lemma validator_inv_attest: "validator_inv v \<Longrightarrow> validator_inv (attest v r)"
  by (auto simp: validator_inv_def split: option.splits)

lemma validator_inv_foldl_attest: "validator_inv v \<Longrightarrow> validator_inv (foldl attest v rs)"
  by (induction rs arbitrary: v) (auto intro: validator_inv_attest)

section \<open>The monotone loss rule\<close>

text \<open>A session is a sequence of proofs offered to \<open>verify_stark_proof\<close>; the accepted losses are kept.\<close>

fun accepted_losses ::
    "(tensors \<Rightarrow> StarkProof \<Rightarrow> bool) \<Rightarrow> (tensors \<Rightarrow> f32) \<Rightarrow> Validator \<Rightarrow> (tensors \<times> StarkProof) list \<Rightarrow> f32 list" where
  "accepted_losses ver lossf v [] = []"
| "accepted_losses ver lossf v ((ts, p) # xs) =
     (let (ok, v') = verify_stark_proof ver lossf v ts p
      in (if ok then [lossf ts] else []) @ accepted_losses ver lossf v' xs)"

text \<open>What a session should accept: of the valid proofs, the left-to-right minima of their losses.\<close>

fun running_minima :: "f32 \<Rightarrow> f32 list \<Rightarrow> f32 list" where
  "running_minima m [] = []"
| "running_minima m (l # ls) = (if f_le l m then l # running_minima l ls else running_minima m ls)"

context checked_proofs begin

lemma accepted_minima:
  "\<not> is_nan (last_loss v) \<Longrightarrow>
   accepted_losses ver lossf v xs = running_minima (last_loss v) (map (lossf \<circ> fst) (filter (\<lambda>(ts, p). ver ts p) xs))"
proof (induction xs arbitrary: v)
  case (Cons x xs)
  obtain ts p where x: "x = (ts, p)" by fastforce
  show ?case
    using Cons ver_not_nan [of ts p] by (auto simp: x verify_stark_proof_def Let_def f_lt_def f_le_def)
qed simp

lemma accepted_step:
  assumes "\<not> is_nan (last_loss v)" and "verify_stark_proof ver lossf v ts p = (True, v')"
  shows "f_le (lossf ts) (last_loss v) \<and> last_loss v' = lossf ts \<and> f_eq (lossf ts) (loss p)"
  using assms ver_not_nan [of ts p] ver_loss [of ts p]
  by (auto simp: verify_stark_proof_def Let_def f_not_lt split: if_splits)

lemma accepted_monotone:
  assumes "\<not> is_nan (last_loss v)"
  shows "sorted_wrt (\<lambda>a b. f_le b a) (last_loss v # accepted_losses ver lossf v xs)"
  using assms
proof (induction xs arbitrary: v)
  case (Cons x xs)
  obtain ts p where x: "x = (ts, p)" by fastforce
  obtain acc v' where s: "verify_stark_proof ver lossf v ts p = (acc, v')" by fastforce
  show ?case
  proof (cases acc)
    case True
    from accepted_step [OF Cons.prems] s True
    have step: "f_le (lossf ts) (last_loss v)" "last_loss v' = lossf ts" by auto
    then have "\<not> is_nan (last_loss v')" by (auto simp: f_le_def)
    from Cons.IH [OF this] step x s True show ?thesis by (auto dest: f_le_trans)
  next
    case False
    then have "v' = v" using s by (auto simp: verify_stark_proof_def Let_def split: if_splits)
    with Cons s x False show ?thesis by simp
  qed
qed simp

end

context proof_system begin

lemma prove_and_submit_effect:
  assumes "prove_and_submit gen ver submit v ts = Inr (good, v')" and "\<not> is_nan (last_loss v)"
  shows "(good \<longrightarrow> (\<exists>p. gen ts = Inr p \<and> submit p \<and> ver ts p \<and> v' = publish (v\<lparr>last_loss := loss p\<rparr>) p)) \<and>
    f_le (last_loss v') (last_loss v) \<and> \<not> is_nan (last_loss v')"
proof -
  from assms(1) obtain p where p: "gen ts = Inr p" by (auto simp: prove_and_submit_def res_simps)
  show ?thesis
    using assms p ver_not_nan [of ts p]
    by (auto simp: prove_and_submit_def Let_def f_not_lt split: if_splits)
qed

end

section \<open>Properties\<close>

text \<open>
  Quorum counts calls of \<open>attest\<close>: after any sequence of attestations a root has quorum
  exactly when it was named at least \<open>max 1 quorum\<close> times, in any order and by whomever.
\<close>

theorem quorum_counts:
  "has_quorum (foldl attest (new_validator q a) rs) r \<longleftrightarrow> max 1 q \<le> count_list rs r"
  using has_quorum_votes [OF validator_inv_foldl_attest [OF validator_inv_new [of q a], of rs], of r]
    votes_foldl_attest [of "new_validator q a" rs r] quorum_foldl_attest [of "new_validator q a" rs]
  by (simp add: new_validator_def votes_def)

text \<open>
  C9: with either proof system, the default STARK prover and Blake3, a new validator accepts in a
  session of \<open>verify_stark_proof\<close> calls exactly the valid proofs that do not lose
  ground: the losses it accepts are the left-to-right minima of the losses of the valid proofs, and
  so form a descending list without NaN, whatever proofs are offered in between and whatever the
  prover answers.
\<close>

theorem accepted_losses_descend:
  "accepted_losses (zk_verify fp zver) (compute_loss fp) (new_validator q a) xs =
     running_minima f_infinity (map (compute_loss fp \<circ> fst) (filter (\<lambda>(ts, p). zk_verify fp zver ts p) xs)) \<and>
   sorted_wrt (\<lambda>a b. f_le b a) (accepted_losses (zk_verify fp zver) (compute_loss fp) (new_validator q a) xs) \<and>
   accepted_losses (blake3_verify fp blake3) (compute_loss fp) (new_validator q a) xs =
     running_minima f_infinity (map (compute_loss fp \<circ> fst) (filter (\<lambda>(ts, p). blake3_verify fp blake3 ts p) xs)) \<and>
   sorted_wrt (\<lambda>a b. f_le b a) (accepted_losses (blake3_verify fp blake3) (compute_loss fp) (new_validator q a) xs)"
proof -
  have new: "\<not> is_nan (last_loss (new_validator q a))" "last_loss (new_validator q a) = f_infinity"
    by (simp_all add: new_validator_def)
  show ?thesis
    using zk_system.accepted_minima [OF new(1)] zk_system.accepted_monotone [OF new(1)]
      blake3_system.accepted_minima [OF new(1)] blake3_system.accepted_monotone [OF new(1)]
    by (simp add: new(2))
qed

text \<open>
  \<open>prove_and_submit\<close> records the loss before the transaction is sent: when the on-chain
  submission fails the validator has not published or attested anything, but its bar has moved,
  so it now rejects every proof that is worse than one nobody accepted.
\<close>

theorem prove_and_submit_failed:
  assumes "\<not> f_lt (last_loss v) (compute_loss fp ts)" and "\<not> is_nan (compute_loss fp ts)"
    and "f_lt (compute_loss fp ts) (compute_loss fp us)"
  shows "\<exists>v'. prove_and_submit (\<lambda>ts. Inr (blake3_generate fp blake3 ts)) (blake3_verify fp blake3) (\<lambda>_. False) v ts =
      Inr (False, v') \<and> counts v' = counts v \<and> p2p v' = p2p v \<and>
    verify_stark_proof (blake3_verify fp blake3) (compute_loss fp) v' us (blake3_generate fp blake3 us) = (False, v')"
proof -
  have g: "(Inr (blake3_generate fp blake3 ts) :: StarkProof res) = Inr (blake3_generate fp blake3 ts)" ..
  have "blake3_verify fp blake3 ts (blake3_generate fp blake3 ts)"
    using assms(2) by (simp add: blake3_system.ver_gen [OF g])
  then show ?thesis
    using assms(1,3) blake3_system.gen_loss [OF g]
    by (auto simp: prove_and_submit_def verify_stark_proof_def Let_def)
qed

definition unit_flops :: flops where
  "unit_flops = \<lparr>of_int8 = \<lambda>_. f_one, fadd = \<lambda>_ _. f_one, fsub = \<lambda>_ _. f_one, fmul = \<lambda>_ _. f_one,
     fdiv = \<lambda>_ _. f_one, fneg = \<lambda>_. f_one, fexp = \<lambda>_. f_one, flog = \<lambda>_. f_one\<rparr>"

lemma unit_losses:
  "compute_loss unit_flops [] = f_zero" "compute_loss unit_flops [replicate 6 0, replicate 6 0] = f_one"
  by (simp_all add: compute_loss_def unit_flops_def)

lemma f_zero_one: "f_lt f_zero f_one" "\<not> f_lt f_infinity f_zero"
  by (simp_all add: f_lt_def is_nan_def f_key_def f_mag_def f_neg_def f_zero_def f_one_def f_infinity_def)

lemma prove_and_submit_failed_witness:
  "\<exists>v'. prove_and_submit (\<lambda>ts. Inr (blake3_generate unit_flops id ts)) (blake3_verify unit_flops id) (\<lambda>_. False)
      (new_validator 3 True) [] = Inr (False, v') \<and> counts v' = Map.empty \<and> p2p v' = Some [] \<and>
    verify_stark_proof (blake3_verify unit_flops id) (compute_loss unit_flops) v' [replicate 6 0, replicate 6 0]
      (blake3_generate unit_flops id [replicate 6 0, replicate 6 0]) = (False, v')"
  using prove_and_submit_failed [of "new_validator 3 True" unit_flops "[]" "[replicate 6 0, replicate 6 0]" id]
  by (simp only: unit_losses f_zero_one f_consts new_validator_def Validator.simps if_True simp_thms)

end
