(* ===== verification/Chain_Queries.thy ===== *)
theory Chain_Queries
  imports Chain_Clients Validator
begin

text \<open>
  The contract queries on the wire: \<open>OnchainProofVerifier::verify\<close>,
  \<open>OnchainCurriculumDuel::get_dataset\<close> and \<open>Validator::load_curriculum\<close>
  over the HTTP client. The caller's string holds the whole response, status line and headers
  included, and the parsers search all of it. The node's side is the ABI encoding of what the
  contract function returns: a word for a \<open>bool\<close>; for \<open>bytes\<close> the offset,
  the length, and the bytes filled up with zeros to whole words.
\<close>

section \<open>Queries\<close>

definition rpc_call :: "network_access \<Rightarrow> client \<Rightarrow> string \<Rightarrow> string option res" where
  \<comment> \<open>the response of an \<open>eth_call\<close>, if it was delivered\<close>
  "rpc_call N cl data =
     rbind (rpc N cl (call_body (contract cl) data) (Some [])) (\<lambda>(sent, s). Inr (if sent then response s else None))"

definition rpc_verify :: "network_access \<Rightarrow> client \<Rightarrow> string \<Rightarrow> bool res" where
  "rpc_verify N cl r =
     rbind (rpc_call N cl (''0x256aa6a0'' @ encode_bytes32 r)) (\<lambda>resp.
     Inr (case resp of None \<Rightarrow> False | Some s \<Rightarrow> parse_verified s))"

definition rpc_get_dataset :: "network_access \<Rightarrow> client \<Rightarrow> u64 \<Rightarrow> string option res" where
  "rpc_get_dataset N cl duel_id =
     rbind (rpc_call N cl (''0xf968825d'' @ encode_uint256 duel_id)) (\<lambda>resp.
     Inr (case resp of None \<Rightarrow> None | Some s \<Rightarrow> parse_dataset s))"

definition rpc_load_curriculum :: "network_access \<Rightarrow> client \<Rightarrow> Validator \<Rightarrow> u64 \<Rightarrow> (bool \<times> Validator) res" where
  "rpc_load_curriculum N cl v duel_id = rbind (rpc_get_dataset N cl duel_id) (\<lambda>d. load_curriculum (\<lambda>_. d) v duel_id)"

text \<open>They are the functions of \<open>Onchain\<close> for the response of their request.\<close>

lemma rpc_queries:
  "rpc_call N cl (''0x256aa6a0'' @ encode_bytes32 r) = Inr resp \<Longrightarrow>
     rpc_verify N cl r = Inr (call_verify (\<lambda>_. resp) (contract cl) r)"
  "rpc_call N cl (''0xf968825d'' @ encode_uint256 d) = Inr resp \<Longrightarrow>
     rpc_get_dataset N cl d = Inr (get_dataset (\<lambda>_. resp) (contract cl) d)"
  by (simp_all add: rpc_verify_def call_verify_def rpc_get_dataset_def get_dataset_def)

section \<open>Parsing a whole response\<close>

lemma find_in_shift: "find_in pat s (i + n) = map_option (\<lambda>k. k + n) (find_in pat s i)"
proof (induction s arbitrary: i)
  case (Cons c s)
  from Cons [of "Suc i"] show ?case by simp
qed simp

lemma find_from_prefix: "find_from pat (u @ s) (length u + k) = map_option (\<lambda>x. length u + x) (find_from pat s k)"
  using find_in_shift [of pat "drop k s" k "length u"] by (simp add: find_from_def add.commute)

lemma find_result_prefix:
  assumes "CHR 0x22 \<notin> set u"
  shows "find_from ''\"result\"'' (u @ s) 0 = map_option (\<lambda>x. length u + x) (find_from ''\"result\"'' s 0)"
  using find_quoted [OF assms, of "''result\"''" s 0] find_in_shift [of "''\"result\"''" s 0 "length u"]
  by (simp add: find_from_def add.commute)

lemma substr_prefix: "substr (u @ s) (length u + k) n = substr s k n"
  by (simp add: substr_def)

lemma prefix_two:
  "find_from pat (u @ s) (Suc (Suc (length u + k))) = map_option (\<lambda>x. length u + x) (find_from pat s (Suc (Suc k)))"
  "substr (u @ s) (Suc (Suc (length u + k))) n = substr s (Suc (Suc k)) n"
  using find_from_prefix [of pat u s "Suc (Suc k)"] substr_prefix [of u s "Suc (Suc k)" n] by simp_all

lemma parse_dataset_prefix: "CHR 0x22 \<notin> set u \<Longrightarrow> parse_dataset (u @ s) = parse_dataset s"
  by (auto simp: parse_dataset_def find_result_prefix find_from_prefix prefix_two Let_def split: option.splits)

lemma parse_verified_prefix: "CHR 0x22 \<notin> set u \<Longrightarrow> parse_verified (u @ s) = parse_verified s"
  by (auto simp: parse_verified_def find_result_prefix find_from_prefix prefix_two Let_def split: option.splits)

lemma parse_dataset_result:
  assumes "CHR 0x22 \<notin> set hex"
  shows "parse_dataset (result_response hex) = Some hex"
proof -
  have "find_from ''\"'' (result_response hex) 36 = Some (36 + length hex)"
    using find_in_skip [OF assms, of "''}''" 36] by (simp add: find_from_def result_response_find)
  then show ?thesis by (simp add: parse_dataset_def result_response_find substr_def Let_def)
qed

lemma parse_verified_result: "parse_verified (result_response (encode_bool b)) = b"
proof -
  have "take 64 (encode_bool b @ ''\"}'') = encode_bool b" by simp
  then show ?thesis by (simp add: parse_verified_def result_response_find substr_def) (simp add: encode_bool_def)
qed

section \<open>Answers of a node\<close>

definition http_ok :: "string \<Rightarrow> string \<Rightarrow> string" where
  \<comment> \<open>a response with code 200; the second part of the status line and the headers are the first argument\<close>
  "http_ok head body = ''HTTP/1.1 200 '' @ head @ crlf @ crlf @ body"

lemma post_accept_ok: "post_accept (http_ok head body) = Inr (Some (http_ok head body))"
proof -
  have "find_in ''HTTP/1.1'' (http_ok head body) 0 = Some 0"
    using find_in_here [of "''HTTP/1.1''" "'' 200 '' @ head @ crlf @ crlf @ body" 0] by (simp add: http_ok_def)
  moreover have "dec 200 = ''200''" by code_simp
  then have "atoi (drop 9 (http_ok head body)) = Inr 200"
    using atoi_dec [of 200 "'' '' @ head @ crlf @ crlf @ body"] by (simp add: http_ok_def)
  moreover have "12 \<le> length (http_ok head body)" by (simp add: http_ok_def)
  ultimately have "status_code (http_ok head body) = Inr (Some (0, 200))" by (simp add: status_code_def find_from_def)
  then show ?thesis by (simp add: post_accept_def)
qed

definition answers :: "network_access \<Rightarrow> client \<Rightarrow> string \<Rightarrow> string \<Rightarrow> string \<Rightarrow> bool" where
  \<comment> \<open>the first attempt of this query is taken and answered with code 200, some headers, and this result\<close>
  "answers N cl data head result \<longleftrightarrow> pton N (host cl) \<and> CHR 0x22 \<notin> set head \<and>
     (\<exists>l. attempts N 0 = Connected l \<and> length (post_request (host cl) (port cl) (call_body (contract cl) data)) \<le> takes l \<and>
        read_all (replies l) = http_ok head (result_response result))"

lemma rpc_call_answered:
  assumes "answers N cl data head result"
  shows "rpc_call N cl data = Inr (Some (http_ok head (result_response result)))"
proof -
  obtain l where l: "attempts N 0 = Connected l"
    "length (post_request (host cl) (port cl) (call_body (contract cl) data)) \<le> takes l"
    "read_all (replies l) = http_ok head (result_response result)" "pton N (host cl)"
    using assms by (auto simp: answers_def)
  then have "post_accept (read_all (replies l)) = Inr (Some (http_ok head (result_response result)))"
    by (simp add: post_accept_ok)
  from http_loop_first [of "attempts N" 0 l _ post_accept _ 2 100, OF l(1,2) this] l(4) show ?thesis
    by (simp add: rpc_call_def rpc_def http_post_json_def eval_nat_numeral del: http_loop.simps)
qed

lemma head_no_quote: "CHR 0x22 \<notin> set head \<Longrightarrow> CHR 0x22 \<notin> set (''HTTP/1.1 200 '' @ head @ crlf @ crlf)"
  by (auto simp: crlf_def)

lemma http_ok_parts: "http_ok head body = (''HTTP/1.1 200 '' @ head @ crlf @ crlf) @ body"
  by (simp add: http_ok_def)

section \<open>The encoding of bytes\<close>

definition abi_bytes :: "u8 list \<Rightarrow> string" where
  \<comment> \<open>what a contract function that returns \<open>bytes\<close> answers\<close>
  "abi_bytes bs = encode_uint256 0x20 @ encode_bytes (to_hex bs)"

definition lower_hex :: "string \<Rightarrow> bool" where
  "lower_hex s \<longleftrightarrow> (\<forall>c\<in>set s. \<exists>d<16. c = hex_char d)"

lemma lower_hex_bytes: "lower_hex s \<Longrightarrow> length s = 2 * n \<Longrightarrow> \<exists>bs. s = to_hex bs \<and> length bs = n"
proof (induction n arbitrary: s)
  case (Suc n)
  then obtain x y r where s: "s = x # y # r" by (auto simp: length_Suc_conv)
  from Suc.prems s obtain a b where d: "a < 16" "b < 16" "x = hex_char a" "y = hex_char b" by (auto simp: lower_hex_def)
  from Suc.prems s Suc.IH [of r] obtain bs where bs: "r = to_hex bs" "length bs = n" by (auto simp: lower_hex_def)
  define m where "m = 16 * a + b"
  have "m < 256" "m div 16 = a" "m mod 16 = b" using d by (simp_all add: m_def div_eq_0_iff)
  moreover from this have "unat (of_nat m :: u8) = m" by (simp add: unsigned_of_nat take_bit_nat_eq_self)
  ultimately have "s = to_hex (of_nat m # bs)" using d bs(1) s by simp
  then show ?case using bs(2) by (metis length_Cons)
qed simp

lemma lower_hex_simps [simp]: "lower_hex []" "lower_hex (s @ r) \<longleftrightarrow> lower_hex s \<and> lower_hex r"
  by (auto simp: lower_hex_def)

lemma lower_hex_zeros: "lower_hex (replicate n (CHR ''0''))"
proof -
  have "CHR ''0'' = hex_char 0" by (simp add: hex_char_def)
  then show ?thesis by (auto simp: lower_hex_def intro: exI [of _ 0])
qed

lemma lower_hex_nat: "lower_hex (hex_nat n)"
proof (induction n rule: hex_nat.induct)
  case (1 n)
  then show ?case by (subst hex_nat.simps) (auto simp: lower_hex_def intro: exI [of _ "n mod 16"])
qed

lemma word_bytes: "\<exists>len. encode_uint256 v = to_hex len \<and> length len = 32 \<and> be_val len = unat v mod 2 ^ 32"
proof -
  have "lower_hex (encode_uint256 v)"
    using lower_hex_nat lower_hex_zeros by (auto simp: encode_uint256_def encode_uint32_def left_pad_def)
  from lower_hex_bytes [OF this, of 32] obtain len where len: "encode_uint256 v = to_hex len" "length len = 32" by auto
  then have "be_val len = unat v mod 2 ^ 32" using to_hex_props(3) [of len] uint256_abi.hex_val_enc [of v] by simp
  with len show ?thesis by blast
qed

lemma zero_bytes: "replicate (2 * n) (CHR ''0'') = to_hex (replicate n 0)"
  by (induction n) (simp_all add: hex_char_def)

lemma pad_words: "n mod 32 \<noteq> 0 \<Longrightarrow> (n + (32 - n mod 32)) mod 32 = 0" for n :: nat
  by presburger

lemma abi_bytes_hex:
  assumes "length bs < 2 ^ 32"
  obtains off len pad where "abi_bytes bs = to_hex (off @ len @ bs @ pad)" and "length off = 32" and "be_val off = 32"
    and "length len = 32" and "be_val len = length bs" and "set pad \<subseteq> {0}" and "(length bs + length pad) mod 32 = 0"
proof -
  obtain off where off: "encode_uint256 0x20 = to_hex off" "length off = 32" "be_val off = 32"
    using word_bytes [of "0x20"] by auto
  have "unat (of_nat (length bs) :: u64) = length bs"
    using assms by (simp add: unsigned_of_nat take_bit_nat_eq_self)
  then have "unat (of_nat (length bs) :: u64) mod 2 ^ 32 = length bs" using assms by (simp only: mod_less)
  with word_bytes [of "of_nat (length bs)"]
  obtain len where len: "encode_uint256 (of_nat (length bs)) = to_hex len" "length len = 32" "be_val len = length bs"
    by (simp only:) blast
  define n where "n = (if length bs mod 32 \<noteq> 0 then 32 - length bs mod 32 else 0)"
  have m: "2 * length bs mod 64 = 2 * (length bs mod 32)" using mult_mod_right [of 2 "length bs" 32] by simp
  have "encode_bytes (to_hex bs) = to_hex len @ to_hex bs @ replicate (2 * n) (CHR ''0'')"
    using strip_0x_idem_hex [of "to_hex bs"] len(1)
    by (simp add: encode_bytes_def Let_def n_def m) (simp add: right_diff_distrib')
  then have "abi_bytes bs = to_hex (off @ len @ bs @ replicate n 0)" by (simp add: abi_bytes_def off(1) zero_bytes)
  moreover have "(length bs + length (replicate n (0 :: u8))) mod 32 = 0"
    using pad_words [of "length bs"] by (simp add: n_def)
  moreover have "set (replicate n (0 :: u8)) \<subseteq> {0}" by auto
  ultimately show thesis using off(2,3) len(2,3) by (intro that [of off len "replicate n 0"])
qed

section \<open>Properties\<close>

text \<open>
  A verification query returns the answer of the contract: when the first attempt is answered with
  the ABI word of \<open>b\<close>, \<open>verify\<close> returns \<open>b\<close>, whatever headers
  the response carries.
\<close>

theorem verify_answers:
  assumes "answers N cl (''0x256aa6a0'' @ encode_bytes32 r) head (encode_bool b)"
  shows "rpc_verify N cl r = Inr b"
proof -
  have "CHR 0x22 \<notin> set head" using assms by (simp add: answers_def)
  from parse_verified_prefix [OF head_no_quote [OF this]] rpc_call_answered [OF assms] parse_verified_result [of b]
  show ?thesis by (simp only: rpc_verify_def rbind.simps option.case http_ok_parts)
qed

text \<open>
  C30: a curriculum is never loaded as it was revealed: the contract answers the getter of a
  \<open>bytes\<close> mapping with the ABI encoding, and \<open>load_curriculum\<close> caches all
  of it as the dataset, so the revealed bytes are preceded by 64 bytes of offset and length and
  followed by the zeros that fill the last word, although the call returns true.
\<close>

theorem curriculum_keeps_encoding:
  assumes "answers N cl (''0xf968825d'' @ encode_uint256 d) head (abi_bytes bs)" and "length bs < 2 ^ 32"
  shows "\<exists>v' off len pad. rpc_load_curriculum N cl v d = Inr (True, v') \<and> curriculum v' d = Some (off @ len @ bs @ pad) \<and>
    length off = 32 \<and> be_val off = 32 \<and> length len = 32 \<and> be_val len = length bs \<and>
    set pad \<subseteq> {0} \<and> (length bs + length pad) mod 32 = 0 \<and> curriculum v' d \<noteq> Some bs"
proof -
  obtain off len pad where e: "abi_bytes bs = to_hex (off @ len @ bs @ pad)" "length off = 32" "be_val off = 32"
    "length len = 32" "be_val len = length bs" "set pad \<subseteq> {0}" "(length bs + length pad) mod 32 = 0"
    by (rule abi_bytes_hex [OF assms(2)])
  have "CHR 0x22 \<notin> set head" using assms(1) by (simp add: answers_def)
  from parse_dataset_prefix [OF head_no_quote [OF this]] parse_dataset_result [OF hex_no_quote [OF to_hex_props(2)]]
    rpc_call_answered [OF assms(1)]
  have "rpc_get_dataset N cl d = Inr (Some (to_hex (off @ len @ bs @ pad)))"
    by (simp only: rpc_get_dataset_def rbind.simps option.case http_ok_parts e(1))
  then have "rpc_load_curriculum N cl v d = Inr (True, v\<lparr>curricula := (curricula v)(d \<mapsto> off @ len @ bs @ pad)\<rparr>)"
    by (simp only: rpc_load_curriculum_def rbind.simps load_curriculum_def option.case decode_hex_to_hex)
  moreover have "length (off @ len @ bs @ pad) \<noteq> length bs" using e(2) by simp
  then have "off @ len @ bs @ pad \<noteq> bs" by metis
  ultimately show ?thesis
    using e(2-7) by (intro exI [of _ "v\<lparr>curricula := (curricula v)(d \<mapsto> off @ len @ bs @ pad)\<rparr>"] exI [of _ off] exI [of _ len] exI [of _ pad])
      (simp add: curriculum_def)
qed

definition node :: "string \<Rightarrow> network_access" where
  \<comment> \<open>a node that answers every request with this result\<close>
  "node result = \<lparr>attempts = \<lambda>_. Connected (answering (http_ok ''OK'' (result_response result))), pton = \<lambda>_. True\<rparr>"

lemma length_dec: "n < 10 ^ Suc k \<Longrightarrow> length (dec n) \<le> Suc k"
proof (induction k arbitrary: n)
  case 0
  then show ?case by (simp add: dec.simps [of n])
next
  case (Suc k)
  show ?case
  proof (cases "n < 10")
    case False
    have "n div 10 < 10 ^ Suc k" using Suc.prems by (simp add: div_less_iff_less_mult mult.commute)
    from Suc.IH [OF this] False show ?thesis by (simp add: dec.simps [of n])
  qed (simp add: dec.simps [of n])
qed

lemma node_answers:
  assumes "length (call_body (contract home) data) < 1000"
  shows "answers (node result) home data ''OK'' result"
proof -
  have d: "length (dec n) \<le> 3" if "n < 1000" for n using length_dec [of n 2] that by simp
  have p: "unat (8545 :: u16) = 8545" "length (dec 8545) = 4" by (simp_all add: dec.simps)
  have "length (post_request (host home) (port home) (call_body (contract home) data)) \<le> 5000"
    using d [OF assms] assms unfolding length_post_request by (simp add: p home_def del: dec.simps)
  then show ?thesis by (simp add: answers_def node_def answering_def)
qed

lemma verify_answers_witness: "rpc_verify (node (encode_bool True)) home ''ab'' = Inr True"
proof (rule verify_answers [OF node_answers])
  have "length (encode_bytes32 ''ab'') = 64"
    using bytes32_word [of "''ab''"] by (simp add: abi_word_def hex_digit_def)
  then show "length (call_body (contract home) (''0x256aa6a0'' @ encode_bytes32 ''ab'')) < 1000"
    by (simp add: call_body_def home_def)
qed

lemma curriculum_keeps_encoding_witness:
  "\<exists>v off len pad. rpc_load_curriculum (node (abi_bytes [1, 2, 3])) home (new_validator 3 False) 7 = Inr (True, v) \<and>
    curriculum v 7 = Some (off @ len @ [1, 2, 3] @ pad) \<and> length off = 32 \<and> length len = 32 \<and> curriculum v 7 \<noteq> Some [1, 2, 3]"
proof -
  have "answers (node (abi_bytes [1, 2, 3])) home (''0xf968825d'' @ encode_uint256 7) ''OK'' (abi_bytes [1, 2, 3])"
    by (rule node_answers) (simp add: call_body_def home_def)
  from curriculum_keeps_encoding [OF this, of "new_validator 3 False"] show ?thesis by fastforce
qed

end
