(* ===== verification/Pouw_Chain.thy ===== *)
theory Pouw_Chain
  imports Validator
begin

text \<open>
  The in-memory proof-of-useful-work chain of \<open>include/neuropet/pouw_chain.hpp\<close>. The hash maps
  are partial functions, the hash sets sets, and the balances 64-bit words. A history is a list of
  calls of the public operations; the theorems hold for every history from an empty chain.
\<close>

record Pending =
  p_creature :: u32
  p_epoch :: u32
  p_miner :: string
  p_loss :: f32
  p_energy :: u32

record Block =
  index :: u32
  creature_id :: u32
  epoch_id :: u32
  root_hash :: string
  miner :: string
  block_loss :: f32
  energy_spent :: u32

record PoUWChain =
  chain :: "Block list"
  pending_map :: "string \<rightharpoonup> Pending"
  finalized :: "string set"
  proven :: "string set"
  energy_map :: "string \<rightharpoonup> u64"
  core_map :: "string \<rightharpoonup> u64"
  next_epoch :: "u32 \<rightharpoonup> u32"
  last_losses :: "u32 \<rightharpoonup> f32"
  validator :: Validator

definition CORE_PER_ENERGY :: u64 where
  "CORE_PER_ENERGY = 1"

definition new_chain :: "nat \<Rightarrow> PoUWChain" where
  "new_chain q = \<lparr>chain = [], pending_map = Map.empty, finalized = {}, proven = {}, energy_map = Map.empty,
     core_map = Map.empty, next_epoch = Map.empty, last_losses = Map.empty, validator = new_validator q False\<rparr>"

definition submit_checkpoint ::
    "PoUWChain \<Rightarrow> u32 \<Rightarrow> u32 \<Rightarrow> string \<Rightarrow> string \<Rightarrow> f32 \<Rightarrow> u32 \<Rightarrow> PoUWChain" where
  "submit_checkpoint s c e r m l en =
     s\<lparr>pending_map := (pending_map s)(r \<mapsto> \<lparr>p_creature = c, p_epoch = e, p_miner = m, p_loss = l, p_energy = en\<rparr>)\<rparr>"

definition submit_proof :: "PoUWChain \<Rightarrow> string \<Rightarrow> PoUWChain" where
  "submit_proof s r = s\<lparr>proven := insert r (proven s)\<rparr>"

definition chain_attest :: "PoUWChain \<Rightarrow> string \<Rightarrow> PoUWChain" where
  "chain_attest s r = s\<lparr>validator := attest (validator s) r\<rparr>"

definition credit :: "(string \<rightharpoonup> u64) \<Rightarrow> string \<Rightarrow> u64 \<Rightarrow> (string \<rightharpoonup> u64)" where
  \<comment> \<open>\<open>balance[miner] += amount\<close>: a missing entry is created as zero\<close>
  "credit bal m amount = bal(m \<mapsto> (case bal m of None \<Rightarrow> 0 | Some b \<Rightarrow> b) + amount)"

definition append_block :: "PoUWChain \<Rightarrow> string \<Rightarrow> Pending \<Rightarrow> PoUWChain" where
  \<comment> \<open>the part of \<open>finalize_checkpoint\<close> after its checks\<close>
  "append_block s r it =
     (let blk = \<lparr>index = of_nat (length (chain s) + 1), creature_id = p_creature it,
            epoch_id = p_epoch it, root_hash = r, miner = p_miner it, block_loss = p_loss it,
            energy_spent = p_energy it\<rparr>
      in s\<lparr>chain := chain s @ [blk],
           energy_map := credit (energy_map s) (miner blk) (ucast (p_energy it)),
           core_map := credit (core_map s) (miner blk) (ucast (p_energy it) * CORE_PER_ENERGY),
           finalized := insert r (finalized s),
           proven := proven s - {r},
           next_epoch := (next_epoch s)(creature_id blk \<mapsto> epoch_id blk + 1),
           last_losses := (last_losses s)(creature_id blk \<mapsto> block_loss blk),
           pending_map := (pending_map s)(r := None)\<rparr>)"

definition finalize_checkpoint :: "PoUWChain \<Rightarrow> string \<Rightarrow> bool \<times> PoUWChain" where
  "finalize_checkpoint s r =
     (if \<not> has_quorum (validator s) r \<and> r \<notin> proven s then (False, s)
      else case pending_map s r of
        None \<Rightarrow> (False, s)
      | Some it \<Rightarrow>
          if r \<in> finalized s then (False, s)
          else let expected = (case next_epoch s (p_creature it) of None \<Rightarrow> 0 | Some e \<Rightarrow> e) in
            if p_epoch it \<noteq> expected then (False, s)
            else let prev_loss = (case last_losses s (p_creature it) of None \<Rightarrow> f_minus_one | Some l \<Rightarrow> l) in
              if f_le f_zero prev_loss \<and> f_lt prev_loss (p_loss it) then (False, s)
              else (True, append_block s r it))"

definition energy_balance :: "PoUWChain \<Rightarrow> string \<Rightarrow> u64" where
  "energy_balance s m = (case energy_map s m of None \<Rightarrow> 0 | Some b \<Rightarrow> b)"

definition core_balance :: "PoUWChain \<Rightarrow> string \<Rightarrow> u64" where
  "core_balance s m = (case core_map s m of None \<Rightarrow> 0 | Some b \<Rightarrow> b)"

section \<open>Histories\<close>

datatype call =
    Submit u32 u32 string string f32 u32
  | Prove string
  | Attest string
  | Finalize string

fun do_call :: "PoUWChain \<Rightarrow> call \<Rightarrow> PoUWChain" where
  "do_call s (Submit c e r m l en) = submit_checkpoint s c e r m l en"
| "do_call s (Prove r) = submit_proof s r"
| "do_call s (Attest r) = chain_attest s r"
| "do_call s (Finalize r) = snd (finalize_checkpoint s r)"

definition after :: "nat \<Rightarrow> call list \<Rightarrow> PoUWChain" where
  "after q cs = foldl do_call (new_chain q) cs"

lemma after_Nil [simp]: "after q [] = new_chain q"
  by (simp add: after_def)

lemma after_snoc [simp]: "after q (cs @ [c]) = do_call (after q cs) c"
  by (simp add: after_def)

section \<open>What finalising does\<close>

definition epoch_of :: "PoUWChain \<Rightarrow> u32 \<Rightarrow> u32" where
  "epoch_of s c = (case next_epoch s c of None \<Rightarrow> 0 | Some e \<Rightarrow> e)"

definition worse :: "PoUWChain \<Rightarrow> u32 \<Rightarrow> f32 \<Rightarrow> bool" where
  "worse s c l \<longleftrightarrow> (\<exists>p. last_losses s c = Some p \<and> f_le f_zero p \<and> f_lt p l)"

definition acceptable :: "PoUWChain \<Rightarrow> string \<Rightarrow> Pending \<Rightarrow> bool" where
  "acceptable s r it \<longleftrightarrow> (has_quorum (validator s) r \<or> r \<in> proven s) \<and> pending_map s r = Some it \<and>
     r \<notin> finalized s \<and> p_epoch it = epoch_of s (p_creature it) \<and> \<not> worse s (p_creature it) (p_loss it)"

lemma finalize_iff:
  "finalize_checkpoint s r =
     (if \<exists>it. acceptable s r it then (True, append_block s r (the (pending_map s r))) else (False, s))"
  by (auto simp: finalize_checkpoint_def acceptable_def epoch_of_def worse_def Let_def split: option.splits)

lemma finalize_cases:
  obtains (refused) "snd (finalize_checkpoint s r) = s"
  | (appended) it where "acceptable s r it" "snd (finalize_checkpoint s r) = append_block s r it"
proof (cases "\<exists>it. acceptable s r it")
  case True
  then obtain it where it: "acceptable s r it" ..
  then have "pending_map s r = Some it" by (simp add: acceptable_def)
  with True it show ?thesis by (intro appended [of it]) (auto simp: finalize_iff)
next
  case False
  then show ?thesis by (intro refused) (simp add: finalize_iff)
qed

lemma append_block_sel [simp]:
  "validator (append_block s r it) = validator s"
  "finalized (append_block s r it) = insert r (finalized s)"
  "last_losses (append_block s r it) = (last_losses s)(p_creature it \<mapsto> p_loss it)"
  "next_epoch (append_block s r it) = (next_epoch s)(p_creature it \<mapsto> p_epoch it + 1)"
  "energy_map (append_block s r it) = credit (energy_map s) (p_miner it) (ucast (p_energy it))"
  "core_map (append_block s r it) = credit (core_map s) (p_miner it) (ucast (p_energy it))"
  "proven (append_block s r it) = proven s - {r}"
  "pending_map (append_block s r it) = (pending_map s)(r := None)"
  "chain (append_block s r it) = chain s @
     [\<lparr>index = of_nat (length (chain s) + 1), creature_id = p_creature it, epoch_id = p_epoch it,
       root_hash = r, miner = p_miner it, block_loss = p_loss it, energy_spent = p_energy it\<rparr>]"
  by (simp_all add: append_block_def Let_def CORE_PER_ENERGY_def)

lemmas call_defs = submit_checkpoint_def submit_proof_def chain_attest_def

section \<open>The invariant of the chain\<close>

definition blocks_of :: "u32 \<Rightarrow> Block list \<Rightarrow> Block list" where
  "blocks_of c bs = filter (\<lambda>b. creature_id b = c) bs"

definition mined_by :: "string \<Rightarrow> Block list \<Rightarrow> u64" where
  "mined_by m bs = (\<Sum>b\<leftarrow>bs. if miner b = m then ucast (energy_spent b) else 0)"

definition last_opt :: "'a list \<Rightarrow> 'a option" where
  "last_opt xs = (if xs = [] then None else Some (last xs))"

definition chain_inv :: "PoUWChain \<Rightarrow> bool" where
  "chain_inv s \<longleftrightarrow>
     map index (chain s) = map (\<lambda>k. of_nat (Suc k)) [0..<length (chain s)] \<and>
     distinct (map root_hash (chain s)) \<and> finalized s = root_hash ` set (chain s) \<and>
     (\<forall>c. map epoch_id (blocks_of c (chain s)) = map of_nat [0..<length (blocks_of c (chain s))]) \<and>
     (\<forall>c. epoch_of s c = of_nat (length (blocks_of c (chain s)))) \<and>
     (\<forall>c. last_losses s c = map_option block_loss (last_opt (blocks_of c (chain s)))) \<and>
     (\<forall>m. energy_balance s m = mined_by m (chain s) \<and> core_balance s m = mined_by m (chain s))"

lemma blocks_of_simps [simp]:
  "blocks_of c [] = []" "blocks_of c (bs @ [b]) = blocks_of c bs @ (if creature_id b = c then [b] else [])"
  by (simp_all add: blocks_of_def)

lemma mined_by_simps [simp]:
  "mined_by m [] = 0" "mined_by m (bs @ [b]) = mined_by m bs + (if miner b = m then ucast (energy_spent b) else 0)"
  by (simp_all add: mined_by_def)

lemma last_opt_simps [simp]: "last_opt [] = None" "last_opt (xs @ [x]) = Some x"
  by (simp_all add: last_opt_def)

lemma chain_inv_new [simp]: "chain_inv (new_chain q)"
  by (simp add: chain_inv_def new_chain_def epoch_of_def energy_balance_def core_balance_def)

lemma balance_credit:
  "(case credit bal m a n of None \<Rightarrow> 0 | Some b \<Rightarrow> b) =
     (case bal n of None \<Rightarrow> 0 | Some b \<Rightarrow> b) + (if n = m then a else 0)"
  by (simp add: credit_def)

lemma chain_inv_append:
  assumes "chain_inv s" and "acceptable s r it"
  shows "chain_inv (append_block s r it)"
proof -
  note inv = assms(1)[unfolded chain_inv_def]
  note acc = assms(2)[unfolded acceptable_def]
  have "epoch_of (append_block s r it) c = (if c = p_creature it then p_epoch it + 1 else epoch_of s c)" for c
    by (simp add: epoch_of_def)
  moreover have "energy_balance (append_block s r it) m = energy_balance s m + (if m = p_miner it then ucast (p_energy it) else 0)"
    "core_balance (append_block s r it) m = core_balance s m + (if m = p_miner it then ucast (p_energy it) else 0)" for m
    by (simp_all add: energy_balance_def core_balance_def balance_credit)
  ultimately show ?thesis
    using inv acc unfolding chain_inv_def by (auto simp: image_iff)
qed

lemma chain_inv_call: "chain_inv s \<Longrightarrow> chain_inv (do_call s c)"
proof (cases c)
  case (Finalize r)
  assume "chain_inv s"
  with Finalize show ?thesis
    by (cases rule: finalize_cases [of s r]) (auto intro: chain_inv_append)
qed (auto simp: chain_inv_def call_defs epoch_of_def energy_balance_def core_balance_def)

lemma chain_inv_after: "chain_inv (after q cs)"
  by (induction cs rule: rev_induct) (simp_all add: chain_inv_call)

section \<open>Why a block is there\<close>

definition attests :: "call list \<Rightarrow> string list" where
  "attests cs = concat (map (\<lambda>c. case c of Attest r \<Rightarrow> [r] | _ \<Rightarrow> []) cs)"

lemma attests_simps [simp]:
  "attests [] = []" "attests (cs @ [c]) = attests cs @ (case c of Attest r \<Rightarrow> [r] | _ \<Rightarrow> [])"
  by (simp_all add: attests_def)

lemma validator_after: "validator (after q cs) = foldl attest (new_validator q False) (attests cs)"
proof (induction cs rule: rev_induct)
  case (snoc c cs)
  show ?case
  proof (cases c)
    case (Finalize r)
    with snoc show ?thesis by (cases rule: finalize_cases [of "after q cs" r]) auto
  qed (use snoc in \<open>auto simp: call_defs\<close>)
qed (simp add: new_chain_def)

lemma quorum_after: "has_quorum (validator (after q cs)) r \<longleftrightarrow> max 1 q \<le> count_list (attests cs) r"
  using has_quorum_votes [OF validator_inv_foldl_attest [OF validator_inv_new [of q False], of "attests cs"], of r]
  by (simp add: validator_after votes_foldl_attest quorum_foldl_attest) (simp add: new_validator_def votes_def)

lemma proven_after: "r \<in> proven (after q cs) \<Longrightarrow> Prove r \<in> set cs"
proof (induction cs rule: rev_induct)
  case (snoc c cs)
  show ?case
  proof (cases c)
    case (Finalize x)
    with snoc show ?thesis by (cases rule: finalize_cases [of "after q cs" x]) auto
  qed (use snoc in \<open>auto simp: call_defs\<close>)
qed (simp add: new_chain_def)

lemma pending_after:
  "pending_map (after q cs) r = Some it \<Longrightarrow>
   Submit (p_creature it) (p_epoch it) r (p_miner it) (p_loss it) (p_energy it) \<in> set cs"
proof (induction cs rule: rev_induct)
  case (snoc c cs)
  show ?case
  proof (cases c)
    case (Finalize x)
    with snoc show ?thesis by (cases rule: finalize_cases [of "after q cs" x]) (auto split: if_splits)
  qed (use snoc in \<open>auto simp: call_defs split: if_splits\<close>)
qed (simp add: new_chain_def)

lemma chain_growth: "\<exists>bs. chain (do_call s c) = chain s @ bs"
proof (cases c)
  case (Finalize x)
  then show ?thesis by (cases rule: finalize_cases [of s x]) auto
qed (auto simp: call_defs)

definition justified :: "nat \<Rightarrow> call list \<Rightarrow> Block \<Rightarrow> bool" where
  "justified q cs b \<longleftrightarrow>
     Submit (creature_id b) (epoch_id b) (root_hash b) (miner b) (block_loss b) (energy_spent b) \<in> set cs \<and>
     (Prove (root_hash b) \<in> set cs \<or> max 1 q \<le> count_list (attests cs) (root_hash b))"

lemma justified_mono: "justified q cs b \<Longrightarrow> justified q (cs @ [c]) b"
  by (auto simp: justified_def split: call.split)

lemma acceptable_justified:
  assumes "acceptable (after q cs) r it"
  shows "justified q cs \<lparr>index = i, creature_id = p_creature it, epoch_id = p_epoch it, root_hash = r,
    miner = p_miner it, block_loss = p_loss it, energy_spent = p_energy it\<rparr>"
proof -
  from assms pending_after [of q cs r it] proven_after [of r q cs] show ?thesis
    by (auto simp: acceptable_def justified_def quorum_after)
qed

lemma blocks_justified: "b \<in> set (chain (after q cs)) \<Longrightarrow> justified q cs b"
proof (induction cs rule: rev_induct)
  case (snoc c cs)
  show ?case
  proof (cases c)
    case (Finalize r)
    with snoc show ?thesis
      by (cases rule: finalize_cases [of "after q cs" r]) (auto intro!: justified_mono intro: acceptable_justified)
  qed (use snoc in \<open>auto simp: call_defs intro: justified_mono\<close>)
qed (simp add: new_chain_def)

section \<open>Losses along a creature's blocks\<close>

definition losses_of :: "u32 \<Rightarrow> PoUWChain \<Rightarrow> f32 list" where
  "losses_of c s = map block_loss (blocks_of c (chain s))"

definition plain_losses :: "call list \<Rightarrow> bool" where
  \<comment> \<open>every submitted loss is a number that is not negative\<close>
  "plain_losses cs \<longleftrightarrow> (\<forall>c e r m l en. Submit c e r m l en \<in> set cs \<longrightarrow> f_le f_zero l)"

lemma sorted_wrt_snoc_last:
  assumes "sorted_wrt (\<lambda>a b. f_le b a) xs" and "\<And>p. last_opt xs = Some p \<Longrightarrow> f_le l p"
  shows "sorted_wrt (\<lambda>a b. f_le b a) (xs @ [l])"
proof -
  have "f_le l x" if "x \<in> set xs" for x
  proof (cases xs rule: rev_cases)
    case (snoc ys y)
    with assms that show ?thesis by (auto simp: sorted_wrt_append intro: f_le_trans)
  qed (use that in simp)
  with assms(1) show ?thesis by (simp add: sorted_wrt_append)
qed

lemma last_opt_map: "last_opt (map f xs) = map_option f (last_opt xs)"
  by (simp add: last_opt_def last_map)

lemma losses_descend:
  assumes "plain_losses cs"
  shows "sorted_wrt (\<lambda>a b. f_le b a) (losses_of c (after q cs))"
  using assms
proof (induction cs rule: rev_induct)
  case (snoc x cs)
  let ?s = "after q cs"
  have IH: "sorted_wrt (\<lambda>a b. f_le b a) (losses_of c ?s)"
  proof (rule snoc.IH)
    show "plain_losses cs" using snoc.prems unfolding plain_losses_def by (metis UnCI set_append)
  qed
  show ?case
  proof (cases x)
    case (Finalize r)
    show ?thesis
    proof (cases rule: finalize_cases [of ?s r])
      case (appended it)
      have l: "f_le l (p)" if "p_creature it = c" "last_opt (losses_of c ?s) = Some p" "l = p_loss it" for l p
      proof -
        have p: "last_losses ?s c = Some p"
          using that(2) chain_inv_after [of q cs] by (simp add: chain_inv_def losses_of_def last_opt_map)
        then obtain b where "b \<in> set (chain ?s)" "block_loss b = p"
          using chain_inv_after [of q cs]
          by (auto simp: chain_inv_def blocks_of_def last_opt_def split: if_splits dest!: last_in_set)
        then have "f_le f_zero p"
          using blocks_justified [of b q cs] snoc.prems by (auto simp: justified_def plain_losses_def)
        moreover have "f_le f_zero l"
          using appended(1) pending_after [of q cs r it] snoc.prems that(3)
          by (auto simp: acceptable_def plain_losses_def)
        moreover have "\<not> worse ?s c l" using appended(1) that by (simp add: acceptable_def)
        ultimately show ?thesis using p by (auto simp: worse_def f_le_def f_lt_def)
      qed
      show ?thesis
        using Finalize appended IH l sorted_wrt_snoc_last [OF IH, of "p_loss it"]
        by (auto simp: losses_of_def)
    qed (use Finalize IH in simp)
  qed (use IH in \<open>auto simp: losses_of_def call_defs\<close>)
qed (simp add: new_chain_def losses_of_def)

section \<open>The chain as a function of the history\<close>

text \<open>
  The specification keeps the blocks only. Whether a finalization appends one is decided from the
  calls before it and the blocks: no map of pending checkpoints, no sets, no counters.
\<close>

definition last_submit :: "call list \<Rightarrow> string \<Rightarrow> Pending option" where
  "last_submit cs r = foldl (\<lambda>p c.
     case c of
       Submit x e r' m l en \<Rightarrow>
         if r' = r then Some \<lparr>p_creature = x, p_epoch = e, p_miner = m, p_loss = l, p_energy = en\<rparr> else p
     | _ \<Rightarrow> p) None cs"

definition vouched :: "nat \<Rightarrow> call list \<Rightarrow> string \<Rightarrow> bool" where
  "vouched q cs r \<longleftrightarrow> Prove r \<in> set cs \<or> max 1 q \<le> count_list (attests cs) r"

definition no_regress :: "Block list \<Rightarrow> u32 \<Rightarrow> f32 \<Rightarrow> bool" where
  \<comment> \<open>against the last block of the creature, if its loss is not negative\<close>
  "no_regress bs c l = (case last_opt (blocks_of c bs) of
     None \<Rightarrow> True
   | Some b \<Rightarrow> \<not> (f_le f_zero (block_loss b) \<and> f_lt (block_loss b) l))"

definition due :: "nat \<Rightarrow> call list \<Rightarrow> Block list \<Rightarrow> string \<Rightarrow> Block option" where
  "due q cs bs r = (case last_submit cs r of
     None \<Rightarrow> None
   | Some it \<Rightarrow>
       if vouched q cs r \<and> r \<notin> root_hash ` set bs \<and>
         p_epoch it = of_nat (length (blocks_of (p_creature it) bs)) \<and> no_regress bs (p_creature it) (p_loss it)
       then Some \<lparr>index = of_nat (length bs + 1), creature_id = p_creature it, epoch_id = p_epoch it, root_hash = r,
         miner = p_miner it, block_loss = p_loss it, energy_spent = p_energy it\<rparr>
       else None)"

definition spec_step :: "nat \<Rightarrow> call list \<times> Block list \<Rightarrow> call \<Rightarrow> call list \<times> Block list" where
  "spec_step q = (\<lambda>(past, bs) c. (past @ [c],
     case c of Finalize r \<Rightarrow> (case due q past bs r of None \<Rightarrow> bs | Some b \<Rightarrow> bs @ [b]) | _ \<Rightarrow> bs))"

definition ledger_of :: "nat \<Rightarrow> call list \<Rightarrow> Block list" where
  "ledger_of q cs = snd (foldl (spec_step q) ([], []) cs)"

lemma fst_spec_step: "fst (foldl (spec_step q) ([], []) cs) = cs"
  by (induction cs rule: rev_induct) (simp_all add: spec_step_def split_def)

lemma ledger_of_simps [simp]:
  "ledger_of q [] = []"
  "ledger_of q (cs @ [c]) = (case c of
     Finalize r \<Rightarrow> (case due q cs (ledger_of q cs) r of None \<Rightarrow> ledger_of q cs | Some b \<Rightarrow> ledger_of q cs @ [b])
   | _ \<Rightarrow> ledger_of q cs)"
proof -
  have "foldl (spec_step q) ([], []) cs = (cs, ledger_of q cs)"
    by (simp add: ledger_of_def prod_eq_iff fst_spec_step)
  then have "ledger_of q (cs @ [c]) = snd (spec_step q (cs, ledger_of q cs) c)"
    by (subst ledger_of_def) simp
  then show "ledger_of q (cs @ [c]) = (case c of
     Finalize r \<Rightarrow> (case due q cs (ledger_of q cs) r of None \<Rightarrow> ledger_of q cs | Some b \<Rightarrow> ledger_of q cs @ [b])
   | _ \<Rightarrow> ledger_of q cs)"
    by (simp add: spec_step_def)
qed (simp add: ledger_of_def)

lemma last_submit_simps [simp]:
  "last_submit [] r = None"
  "last_submit (cs @ [c]) r = (case c of
     Submit x e r' m l en \<Rightarrow>
       if r' = r then Some \<lparr>p_creature = x, p_epoch = e, p_miner = m, p_loss = l, p_energy = en\<rparr> else last_submit cs r
   | _ \<Rightarrow> last_submit cs r)"
  by (simp_all add: last_submit_def split: call.split)

lemma finalized_mono: "r \<notin> finalized (after q (cs @ [c])) \<Longrightarrow> r \<notin> finalized (after q cs)"
proof (cases c)
  case (Finalize x)
  assume "r \<notin> finalized (after q (cs @ [c]))"
  with Finalize show ?thesis by (cases rule: finalize_cases [of "after q cs" x]) auto
qed (auto simp: call_defs)

text \<open>What the maps hold for a root that is not finalised yet.\<close>

lemma open_root:
  "r \<notin> finalized (after q cs) \<Longrightarrow>
   pending_map (after q cs) r = last_submit cs r \<and> (r \<in> proven (after q cs) \<longleftrightarrow> Prove r \<in> set cs)"
proof (induction cs rule: rev_induct)
  case (snoc c cs)
  note IH = snoc.IH [OF finalized_mono [OF snoc.prems]]
  show ?case
  proof (cases c)
    case (Finalize x)
    with IH snoc.prems show ?thesis by (cases rule: finalize_cases [of "after q cs" x]) auto
  qed (use IH in \<open>auto simp: call_defs\<close>)
qed (simp add: new_chain_def)

lemma worse_after: "worse (after q cs) c l \<longleftrightarrow> \<not> no_regress (chain (after q cs)) c l"
  using chain_inv_after [of q cs]
  by (auto simp: worse_def no_regress_def chain_inv_def split: option.split)

lemma acceptable_due:
  "due q cs (chain (after q cs)) r = (if \<exists>it. acceptable (after q cs) r it
     then map_option (\<lambda>it. \<lparr>index = of_nat (length (chain (after q cs)) + 1), creature_id = p_creature it, epoch_id = p_epoch it,
       root_hash = r, miner = p_miner it, block_loss = p_loss it, energy_spent = p_energy it\<rparr>) (pending_map (after q cs) r)
     else None)"
proof (cases "r \<in> finalized (after q cs)")
  case True
  then show ?thesis using chain_inv_after [of q cs]
    by (auto simp: due_def acceptable_def chain_inv_def split: option.split)
next
  case False
  have epoch: "epoch_of (after q cs) c = of_nat (length (blocks_of c (chain (after q cs))))" for c
    using chain_inv_after [of q cs] by (auto simp: chain_inv_def)
  have roots: "finalized (after q cs) = root_hash ` set (chain (after q cs))"
    using chain_inv_after [of q cs] by (auto simp: chain_inv_def)
  show ?thesis
    using open_root [OF False] False
    by (cases "last_submit cs r")
      (auto simp: due_def acceptable_def vouched_def quorum_after worse_after epoch roots)
qed

section \<open>Properties\<close>

text \<open>
  C7: the books of the chain balance after every history: blocks are numbered from 1, no root is
  finalised twice, the epochs of every creature are 0, 1, 2, ... in chain order, and every miner's
  energy and CORE balances are the sums of the energy of the blocks it mined (modulo \<open>2 ^
  64\<close>; indexes and epochs modulo \<open>2 ^ 32\<close>). So the miner is credited with all
  the CORE of its blocks: this is the code, not section 6 of \<open>docs/PoUWConsensus.md\<close>,
  which gives a share of it to the attesting validators (see
  \<open>validators_earn_nothing\<close>).
\<close>

theorem pouw_books_balance:
  "map index (chain (after q cs)) = map (\<lambda>k. of_nat (Suc k)) [0..<length (chain (after q cs))] \<and>
   distinct (map root_hash (chain (after q cs))) \<and>
   (\<forall>c. map epoch_id (blocks_of c (chain (after q cs))) =
      map of_nat [0..<length (blocks_of c (chain (after q cs)))]) \<and>
   (\<forall>m. energy_balance (after q cs) m = mined_by m (chain (after q cs)) \<and>
      core_balance (after q cs) m = mined_by m (chain (after q cs)))"
  using chain_inv_after [of q cs] by (simp add: chain_inv_def)

text \<open>
  C8: the chain is the function of its history that the specification says: after any sequence of
  calls its blocks are \<open>ledger_of\<close> of the calls, and a finalization succeeds exactly
  when a block is due: the root was submitted (the last submission counts), it was proven or
  attested at least \<open>max 1 quorum\<close> times, it has no block yet, the epoch is the number
  of blocks of the creature and the loss does not exceed that of its last block (unless that loss is
  negative or NaN). So no block is there without its reason, and none with a reason is refused.
\<close>

theorem pouw_refines_ledger:
  "chain (after q cs) = ledger_of q cs \<and>
   fst (finalize_checkpoint (after q cs) r) = (due q cs (ledger_of q cs) r \<noteq> None)"
proof -
  have pend: "acceptable s r it \<Longrightarrow> pending_map s r = Some it" for s r it by (simp add: acceptable_def)
  have chain: "chain (after q cs) = ledger_of q cs"
  proof (induction cs rule: rev_induct)
    case (snoc c cs)
    show ?case
    proof (cases c)
      case (Finalize x)
      with snoc acceptable_due [of q cs x] show ?thesis
        by (auto simp: finalize_iff dest: pend split: if_splits)
    qed (use snoc in \<open>auto simp: call_defs\<close>)
  qed (simp add: new_chain_def)
  then show ?thesis
    using acceptable_due [of q cs r] by (auto simp: finalize_iff dest: pend)
qed

text \<open>
  Attesting earns nothing, contrary to the reward formula of \<open>docs/PoUWConsensus.md\<close>: a finalized
  checkpoint credits its miner with the whole CORE reward, and every other CORE balance is what it was.
\<close>

theorem validators_earn_nothing:
  assumes "finalize_checkpoint s r = (True, t)"
  shows "\<exists>it. pending_map s r = Some it \<and>
    (\<forall>m. core_balance t m = core_balance s m + (if m = p_miner it then ucast (p_energy it) * CORE_PER_ENERGY else 0))"
proof -
  from assms obtain it where "pending_map s r = Some it" "t = append_block s r it"
    by (auto simp: finalize_checkpoint_def Let_def split: if_splits option.splits)
  then show ?thesis by (auto simp: append_block_def core_balance_def credit_def Let_def split: option.split)
qed

text \<open>
  C25: the monotone loss rule, for each creature by itself: as long as every submitted loss is a
  number that is not negative (the code skips the comparison after a negative loss), the losses along
  the blocks of one creature never increase.
\<close>

theorem pouw_losses_descend:
  assumes "plain_losses cs"
  shows "sorted_wrt (\<lambda>a b. f_le b a) (losses_of c (after q cs))"
  using assms by (rule losses_descend)

lemma pouw_losses_descend_witness:
  "sorted_wrt (\<lambda>a b. f_le b a) (losses_of 7 (after 3
     [Submit 7 0 ''r0'' ''alice'' f_one 5, Prove ''r0'', Finalize ''r0'',
      Submit 7 1 ''r1'' ''alice'' f_zero 5, Prove ''r1'', Finalize ''r1'']))"
  by (rule pouw_losses_descend)
    (auto simp: plain_losses_def f_le_def is_nan_def f_mag_def f_key_def f_neg_def f_one_def f_zero_def)

text \<open>
  A single checkpoint whose loss is NaN (it carries a valid proof) switches the rule off for
  its creature: any loss can follow any loss across it.
\<close>

theorem pouw_nan_resets:
  "losses_of 7 (after q
     [Submit 7 0 ''r0'' m l1 e, Prove ''r0'', Finalize ''r0'',
      Submit 7 1 ''r1'' m 0x7fc00000 e, Prove ''r1'', Finalize ''r1'',
      Submit 7 2 ''r2'' m l2 e, Prove ''r2'', Finalize ''r2'']) = [l1, 0x7fc00000, l2]"
proof -
  have nan: "is_nan 0x7fc00000" by (simp add: is_nan_def f_mag_def)
  show ?thesis
    by (simp add: after_def call_defs finalize_checkpoint_def append_block_def new_chain_def losses_of_def
        blocks_of_def nan Let_def)
qed

text \<open>
  Attestations are for a root, not for a submission: whoever submits the same root again after
  it has reached quorum replaces the pending entry, and the finalised block and the reward are
  theirs.
\<close>

theorem pouw_resubmission_takes_reward:
  "energy_balance (after 3
     [Submit 7 0 ''r0'' ''alice'' l1 50, Attest ''r0'', Attest ''r0'', Attest ''r0'',
      Submit 7 0 ''r0'' ''mallory'' l2 90, Finalize ''r0'']) ''mallory'' = 90 \<and>
   energy_balance (after 3
     [Submit 7 0 ''r0'' ''alice'' l1 50, Attest ''r0'', Attest ''r0'', Attest ''r0'',
      Submit 7 0 ''r0'' ''mallory'' l2 90, Finalize ''r0'']) ''alice'' = 0"
  by (simp add: after_def call_defs finalize_checkpoint_def append_block_def new_chain_def new_validator_def
      has_quorum_def credit_def energy_balance_def Let_def)

end
