(* ===== verification/Proof_Aggregator.thy ===== *)
theory Proof_Aggregator
  imports Validator Sockets "HOL-Library.AList"
begin

text \<open>
  Proof distribution (\<open>include/neuropet/proof_aggregator.hpp\<close>): the store of proofs by
  root, the wire format, and the network of servers. A socket that is written to is the bytes
  already on the wire and the number it will still take before an error; a socket that is read from
  is the bytes that will arrive before the end of the stream. How many bytes one \<open>recv\<close>
  or \<open>send\<close> call moves is decided by the argument \<open>chunk\<close>, a function of
  the place in the stream and the size asked for; only the four-byte \<open>recv\<close> calls have
  \<open>MSG_WAITALL\<close> and wait for all of them. Lengths travel in host order (little-endian
  on the supported targets), the loss in network order.
\<close>

section \<open>The store\<close>

type_synonym proof_store = "(string \<times> string \<times> f32) list"

definition agg_submit :: "proof_store \<Rightarrow> StarkProof \<Rightarrow> proof_store" where
  "agg_submit st p = AList.update (root p) (proof_field p, loss p) st"

definition agg_all :: "proof_store \<Rightarrow> StarkProof list" where
  "agg_all st = map (\<lambda>(r, q, l). \<lparr>root = r, proof_field = q, loss = l\<rparr>) st"

section \<open>Sending\<close>

record net_stats =
  bytes_sent :: u64
  bytes_received :: u64
  proofs_sent :: u64
  proofs_received :: u64

definition host_u32 :: "u32 \<Rightarrow> u8 list" where
  "host_u32 v = map (\<lambda>k. ucast (drop_bit (8 * k) v)) [0..<4]"

definition net_u32 :: "u32 \<Rightarrow> u8 list" where
  "net_u32 v = rev (host_u32 v)"

definition send_string :: "(nat \<Rightarrow> nat \<Rightarrow> nat) \<Rightarrow> string \<Rightarrow> out_socket \<Rightarrow> bool \<times> out_socket" where
  \<comment> \<open>the length is sent by a single call, which can be cut short\<close>
  "send_string chunk str s =
     (let (n, s1) = send_some chunk (host_u32 (of_nat (length str))) s in
      if n \<noteq> 4 then (False, s1) else send_loop chunk (map of_char str) s1)"

definition send_float :: "(nat \<Rightarrow> nat \<Rightarrow> nat) \<Rightarrow> f32 \<Rightarrow> out_socket \<Rightarrow> bool \<times> out_socket" where
  "send_float chunk f s = (let (n, s') = send_some chunk (net_u32 f) s in (n = 4, s'))"

definition send_proof ::
    "(nat \<Rightarrow> nat \<Rightarrow> nat) \<Rightarrow> StarkProof \<Rightarrow> out_socket \<times> net_stats \<Rightarrow> bool \<times> out_socket \<times> net_stats" where
  "send_proof chunk p = (\<lambda>(s, st).
     let (ok1, s1) = send_string chunk (root p) s in
     if \<not> ok1 then (False, s1, st)
     else let (ok2, s2) = send_string chunk (proof_field p) s1 in
       if \<not> ok2 then (False, s2, st)
       else let (ok3, s3) = send_float chunk (loss p) s2 in
         if \<not> ok3 then (False, s3, st)
         else (True, s3, st\<lparr>bytes_sent := bytes_sent st + (4 + of_nat (length (root p)))
                  + (4 + of_nat (length (proof_field p))) + 4,
                proofs_sent := proofs_sent st + 1\<rparr>))"

section \<open>Receiving\<close>

function recv_loop :: "(nat \<Rightarrow> nat \<Rightarrow> nat) \<Rightarrow> nat \<Rightarrow> u8 list \<Rightarrow> u8 list \<Rightarrow> (u8 list \<times> u8 list) option" where
  \<comment> \<open>\<open>need\<close> bytes are missing in the buffer; an empty stream makes \<open>recv\<close> return 0; the place in the
    stream is what is left of it\<close>
  "recv_loop chunk need buf inp =
     (if need = 0 then Some (buf, inp)
      else let n = min (max 1 (chunk (length inp) need)) (min need (length inp)) in
        if n = 0 then None else recv_loop chunk (need - n) (buf @ take n inp) (drop n inp))"
  by pat_completeness auto
termination by (relation "measure (\<lambda>(_, need, _, _). need)") auto

declare recv_loop.simps [simp del]

definition u32_of_host :: "u8 list \<Rightarrow> u32" where
  "u32_of_host bs = foldr (\<lambda>b v. ucast b OR push_bit 8 v) bs 0"

definition recv_u32 :: "u8 list \<Rightarrow> (u8 list \<times> u8 list) option" where
  \<comment> \<open>\<open>recv\<close> of four bytes with \<open>MSG_WAITALL\<close>\<close>
  "recv_u32 inp = (if 4 \<le> length inp then Some (take 4 inp, drop 4 inp) else None)"

definition recv_string :: "(nat \<Rightarrow> nat \<Rightarrow> nat) \<Rightarrow> u8 list \<Rightarrow> (string \<times> u8 list) option" where
  "recv_string chunk inp =
     (case recv_u32 inp of
        None \<Rightarrow> None
      | Some (b, inp1) \<Rightarrow>
          (case recv_loop chunk (unat (u32_of_host b)) [] inp1 of
             None \<Rightarrow> None
           | Some (bs, inp2) \<Rightarrow> Some (map (\<lambda>b. char_of (unat b)) bs, inp2)))"

definition recv_float :: "u8 list \<Rightarrow> (f32 \<times> u8 list) option" where
  "recv_float inp = (case recv_u32 inp of None \<Rightarrow> None | Some (b, inp1) \<Rightarrow> Some (u32_of_host (rev b), inp1))"

definition recv_proof ::
    "(nat \<Rightarrow> nat \<Rightarrow> nat) \<Rightarrow> u8 list \<Rightarrow> net_stats \<Rightarrow> (StarkProof \<times> u8 list \<times> net_stats) option" where
  "recv_proof chunk inp st =
     (case recv_string chunk inp of
        None \<Rightarrow> None
      | Some (r, inp1) \<Rightarrow>
          (case recv_string chunk inp1 of
             None \<Rightarrow> None
           | Some (q, inp2) \<Rightarrow>
               (case recv_float inp2 of
                  None \<Rightarrow> None
                | Some (l, inp3) \<Rightarrow>
                    Some (\<lparr>root = r, proof_field = q, loss = l\<rparr>, inp3,
                      st\<lparr>bytes_received := bytes_received st + (4 + of_nat (length r)) + (4 + of_nat (length q)) + 4,
                         proofs_received := proofs_received st + 1\<rparr>))))"

section \<open>Servers\<close>

text \<open>
  A server has the proofs it stores, the peers it is connected to (a connection is in the list of
  both ends), whether a callback is set, and the calls of the callback. \<open>in_flight\<close> is
  the queue of proofs from one server to another. \<open>handle_proof\<close> is one round of
  \<open>handle_client\<close>.
\<close>

record server =
  store :: proof_store
  peers :: "nat list"
  on_proof :: bool
  callbacks :: "StarkProof list"

record network =
  servers :: "nat \<Rightarrow> server"
  in_flight :: "nat \<Rightarrow> nat \<Rightarrow> StarkProof list"

definition send_to :: "nat \<Rightarrow> nat \<Rightarrow> StarkProof \<Rightarrow> network \<Rightarrow> network" where
  "send_to i j p net = net\<lparr>in_flight := (in_flight net)(i := (in_flight net i)(j := in_flight net i j @ [p]))\<rparr>"

definition broadcast :: "nat \<Rightarrow> StarkProof \<Rightarrow> network \<Rightarrow> network" where
  "broadcast i p net = fold (\<lambda>j. send_to i j p) (peers (servers net i)) net"

definition store_proof :: "nat \<Rightarrow> StarkProof \<Rightarrow> network \<Rightarrow> network" where
  "store_proof i p net =
     net\<lparr>servers := (servers net)(i := (servers net i)\<lparr>store := agg_submit (store (servers net i)) p\<rparr>)\<rparr>"

definition set_callback :: "nat \<Rightarrow> bool \<Rightarrow> network \<Rightarrow> network" where
  \<comment> \<open>a callback that can be called, or an empty one\<close>
  "set_callback i cb net = net\<lparr>servers := (servers net)(i := (servers net i)\<lparr>on_proof := cb\<rparr>)\<rparr>"

definition call_back :: "nat \<Rightarrow> StarkProof \<Rightarrow> network \<Rightarrow> network" where
  "call_back i p net =
     (if on_proof (servers net i)
      then net\<lparr>servers := (servers net)(i := (servers net i)\<lparr>callbacks := callbacks (servers net i) @ [p]\<rparr>)\<rparr>
      else net)"

definition server_submit :: "nat \<Rightarrow> StarkProof \<Rightarrow> network \<Rightarrow> network" where
  "server_submit i p net = call_back i p (broadcast i p (store_proof i p net))"

definition handle_proof :: "nat \<Rightarrow> StarkProof \<Rightarrow> network \<Rightarrow> network" where
  "handle_proof i p net = call_back i p (broadcast i p (store_proof i p net))"

definition deliver :: "nat \<Rightarrow> nat \<Rightarrow> network \<Rightarrow> network" where
  "deliver i j net =
     (case in_flight net i j of
        [] \<Rightarrow> net
      | p # ps \<Rightarrow> handle_proof j p (net\<lparr>in_flight := (in_flight net)(i := (in_flight net i)(j := ps))\<rparr>))"

definition connect :: "nat \<Rightarrow> nat \<Rightarrow> network \<Rightarrow> network" where
  \<comment> \<open>both ends register the connection; the connecting side sends what it stores\<close>
  "connect i j net =
     (let net1 = net\<lparr>servers := (servers net)(i := (servers net i)\<lparr>peers := peers (servers net i) @ [j]\<rparr>)\<rparr>;
          net2 = net1\<lparr>servers := (servers net1)(j := (servers net1 j)\<lparr>peers := peers (servers net1 j) @ [i]\<rparr>)\<rparr>
      in fold (\<lambda>p. send_to i j p) (agg_all (store (servers net2 i))) net2)"

section \<open>The wire format\<close>

definition string_bytes :: "string \<Rightarrow> u8 list" where
  "string_bytes s = host_u32 (of_nat (length s)) @ map of_char s"

definition proof_bytes :: "StarkProof \<Rightarrow> u8 list" where
  "proof_bytes p = string_bytes (root p) @ string_bytes (proof_field p) @ net_u32 (loss p)"

definition sendable :: "StarkProof \<Rightarrow> bool" where
  "sendable p \<longleftrightarrow> length (root p) < 2 ^ 32 \<and> length (proof_field p) < 2 ^ 32"

lemma length_u32 [simp]: "length (host_u32 v) = 4" "length (net_u32 v) = 4"
  by (simp_all add: host_u32_def net_u32_def)

lemma u32_of_host_u32 [simp]: "u32_of_host (host_u32 v) = v"
proof (rule bit_word_eqI)
  fix n assume "n < LENGTH(32)"
  then consider "n < 8" | "8 \<le> n \<and> n < 16" | "16 \<le> n \<and> n < 24" | "24 \<le> n \<and> n < 32" by force
  then show "bit (u32_of_host (host_u32 v)) n = bit v n"
    by cases (auto simp: u32_of_host_def host_u32_def bit_simps upt_conv_Cons)
qed

text \<open>However the bytes are cut into pieces, the loops move all of them or report the failure.\<close>

lemma recv_loop_eq:
  "recv_loop chunk need buf inp =
     (if need \<le> length inp then Some (buf @ take need inp, drop need inp) else None)"
proof (induction chunk need buf inp rule: recv_loop.induct)
  case (1 chunk need buf inp)
  let ?n = "min (max 1 (chunk (length inp) need)) (min need (length inp))"
  show ?case
  proof (cases "need = 0 \<or> inp = []")
    case False
    then have n: "0 < ?n" by auto
    have "take ?n inp @ take (need - ?n) (drop ?n inp) = take need inp"
      by (metis le_add_diff_inverse min.cobounded1 min.coboundedI2 take_add)
    with 1 False n show ?thesis
      by (subst recv_loop.simps) (auto simp: Let_def)
  qed (auto simp: recv_loop.simps [of _ need])
qed

lemma recv_string_bytes:
  assumes "length str < 2 ^ 32"
  shows "recv_string chunk (string_bytes str @ r) = Some (str, r)"
proof -
  have "unat (of_nat (length str) :: u32) = length str"
    using assms by (simp add: unsigned_of_nat take_bit_nat_eq_self)
  then show ?thesis
    by (simp add: recv_string_def string_bytes_def recv_u32_def recv_loop_eq comp_def)
qed

lemma recv_string_short:
  assumes "length str < 2 ^ 32" and "k < length (string_bytes str)"
  shows "recv_string chunk (take k (string_bytes str)) = None"
proof -
  have "unat (of_nat (length str) :: u32) = length str"
    using assms(1) by (simp add: unsigned_of_nat take_bit_nat_eq_self)
  then show ?thesis
    using assms(2) by (auto simp: recv_string_def string_bytes_def recv_u32_def recv_loop_eq)
qed

lemma length_string_bytes [simp]: "length (string_bytes s) = 4 + length s"
  by (simp add: string_bytes_def)

lemma recv_proof_bytes:
  assumes "sendable p"
  shows "\<exists>st'. recv_proof chunk (proof_bytes p @ r) st = Some (p, r, st') \<and>
    bytes_received st' = bytes_received st + of_nat (length (proof_bytes p)) \<and>
    proofs_received st' = proofs_received st + 1"
  using assms
  by (simp add: recv_proof_def proof_bytes_def sendable_def recv_string_bytes recv_float_def recv_u32_def
      net_u32_def)

section \<open>The network\<close>

definition empty_network :: network where
  "empty_network = \<lparr>servers = \<lambda>_. \<lparr>store = [], peers = [], on_proof = False, callbacks = []\<rparr>, in_flight = \<lambda>_ _. []\<rparr>"

lemma send_to_sel [simp]:
  "servers (send_to i j p net) = servers net"
  "in_flight (send_to i j p net) a b = in_flight net a b @ (if a = i \<and> b = j then [p] else [])"
  by (auto simp: send_to_def)

lemma fold_send_sel:
  "servers (fold (\<lambda>j. send_to i j p) js net) = servers net"
  "in_flight (fold (\<lambda>j. send_to i j p) js net) a b =
     in_flight net a b @ (if a = i then replicate (count_list js b) p else [])"
  by (induction js arbitrary: net) (auto simp: replicate_app_Cons_same)

lemma broadcast_sel [simp]:
  "servers (broadcast i p net) = servers net"
  "in_flight (broadcast i p net) a b =
     in_flight net a b @ (if a = i then replicate (count_list (peers (servers net i)) b) p else [])"
  by (simp_all add: broadcast_def fold_send_sel)

lemma store_proof_sel [simp]:
  "in_flight (store_proof i p net) = in_flight net"
  "peers (servers (store_proof i p net) a) = peers (servers net a)"
  "callbacks (servers (store_proof i p net) a) = callbacks (servers net a)"
  "on_proof (servers (store_proof i p net) a) = on_proof (servers net a)"
  by (simp_all add: store_proof_def)

lemma call_back_sel [simp]:
  "in_flight (call_back i p net) = in_flight net"
  "peers (servers (call_back i p net) a) = peers (servers net a)"
  "callbacks (servers (call_back i p net) a) = callbacks (servers net a) @ (if a = i \<and> on_proof (servers net i) then [p] else [])"
  "on_proof (servers (call_back i p net) a) = on_proof (servers net a)"
  by (simp_all add: call_back_def)

lemma handle_proof_sel [simp]:
  "peers (servers (handle_proof i p net) a) = peers (servers net a)"
  "callbacks (servers (handle_proof i p net) a) = callbacks (servers net a) @ (if a = i \<and> on_proof (servers net i) then [p] else [])"
  "on_proof (servers (handle_proof i p net) a) = on_proof (servers net a)"
  "in_flight (handle_proof i p net) a b =
     in_flight net a b @ (if a = i then replicate (count_list (peers (servers net i)) b) p else [])"
  by (simp_all add: handle_proof_def)

lemma deliver_sel:
  "in_flight net i j = p # ps \<Longrightarrow> peers (servers (deliver i j net) a) = peers (servers net a)"
  "in_flight net i j = p # ps \<Longrightarrow>
     callbacks (servers (deliver i j net) a) = callbacks (servers net a) @ (if a = j \<and> on_proof (servers net j) then [p] else [])"
  "in_flight net i j = p # ps \<Longrightarrow> in_flight (deliver i j net) a b =
     (if a = i \<and> b = j then ps else in_flight net a b) @
     (if a = j then replicate (count_list (peers (servers net j)) b) p else [])"
  by (auto simp: deliver_def)

lemma deliver_on_proof [simp]: "on_proof (servers (deliver i j net) a) = on_proof (servers net a)"
  by (cases "in_flight net i j") (simp_all add: deliver_def)

lemma deliver_idle: "in_flight net i j = [] \<Longrightarrow> deliver i j net = net"
  by (simp add: deliver_def)

definition peered :: "network \<Rightarrow> bool" where
  \<comment> \<open>connections have two ends, and proofs travel on connections only\<close>
  "peered net \<longleftrightarrow> (\<forall>i j. in_flight net i j \<noteq> [] \<longrightarrow> i \<in> set (peers (servers net j)) \<and> j \<in> set (peers (servers net i))) \<and>
     (\<forall>i j. i \<in> set (peers (servers net j)) \<longrightarrow> j \<in> set (peers (servers net i)))"

definition busy :: "network \<Rightarrow> bool" where
  "busy net \<longleftrightarrow> (\<exists>i j. in_flight net i j \<noteq> [])"

lemma deliver_peered: "peered net \<Longrightarrow> peered (deliver i j net)"
proof (cases "in_flight net i j")
  case (Cons p ps)
  assume "peered net"
  with Cons show ?thesis
    unfolding peered_def deliver_sel [OF Cons]
    by (auto simp: count_list_0_iff split: if_splits)
qed (simp add: deliver_idle)

lemma deliver_busy: "peered net \<Longrightarrow> busy net \<Longrightarrow> busy (deliver i j net)"
proof (cases "in_flight net i j")
  case (Cons p ps)
  assume "peered net"
  with Cons have "i \<in> set (peers (servers net j))" by (auto simp: peered_def)
  then have "0 < count_list (peers (servers net j)) i" by (metis count_list_0_iff gr0I)
  then have "in_flight (deliver i j net) j i \<noteq> []" by (simp add: deliver_sel(3) [OF Cons])
  then show ?thesis by (auto simp: busy_def)
qed (simp add: deliver_idle)

lemma deliveries_busy:
  "peered net \<Longrightarrow> busy net \<Longrightarrow> peered (fold (\<lambda>(i, j). deliver i j) ds net) \<and> busy (fold (\<lambda>(i, j). deliver i j) ds net)"
  by (induction ds arbitrary: net) (auto intro: deliver_peered deliver_busy)

definition two_peers :: "StarkProof \<Rightarrow> network" where
  \<comment> \<open>two servers with callbacks, connected, and one proof submitted at the first\<close>
  "two_peers p = server_submit 0 p (connect 0 1 (set_callback 1 True (set_callback 0 True empty_network)))"

definition echo :: "nat \<Rightarrow> StarkProof \<Rightarrow> network" where
  "echo k p = ((\<lambda>net. deliver 1 0 (deliver 0 1 net)) ^^ k) (two_peers p)"

lemma replicate_1: "replicate 1 x = [x]"
  by simp

lemma echo_state:
  "in_flight (echo k p) = (\<lambda>a b. if a = 0 \<and> b = 1 then [p] else []) \<and>
   peers (servers (echo k p) 0) = [1] \<and> peers (servers (echo k p) 1) = [0] \<and>
   on_proof (servers (echo k p) 0) \<and> on_proof (servers (echo k p) 1) \<and>
   callbacks (servers (echo k p) 0) = replicate (Suc k) p \<and> callbacks (servers (echo k p) 1) = replicate k p"
proof (induction k)
  case 0
  show ?case
    by (auto simp: echo_def two_peers_def server_submit_def connect_def set_callback_def empty_network_def agg_all_def Let_def fun_eq_iff replicate_1
        simp del: One_nat_def)
next
  case (Suc k)
  let ?n = "echo k p" and ?m = "deliver 0 1 (echo k p)"
  have f: "in_flight ?n 0 1 = [p]" using Suc by simp
  have m: "in_flight ?m = (\<lambda>a b. if a = 1 \<and> b = 0 then [p] else [])"
    using Suc by (auto simp: deliver_sel(3) [OF f] fun_eq_iff replicate_1 simp del: One_nat_def)
  then have g: "in_flight ?m 1 0 = [p]" by simp
  have "echo (Suc k) p = deliver 1 0 ?m" by (simp add: echo_def)
  then show ?case
    using Suc m
    by (auto simp: deliver_sel [OF f] deliver_sel [OF g] fun_eq_iff replicate_app_Cons_same replicate_append_same replicate_1
        simp del: One_nat_def)
qed

section \<open>Properties\<close>

definition headers_whole :: "(nat \<Rightarrow> nat \<Rightarrow> nat) \<Rightarrow> nat \<Rightarrow> StarkProof \<Rightarrow> bool" where
  \<comment> \<open>the two lengths and the loss, which are sent by one call each, are not cut\<close>
  "headers_whole chunk w p \<longleftrightarrow> 4 \<le> chunk w 4 \<and> 4 \<le> chunk (w + length (string_bytes (root p))) 4 \<and>
     4 \<le> chunk (w + length (string_bytes (root p)) + length (string_bytes (proof_field p))) 4"

lemma sends_string: "sends (string_bytes str) (4 \<le> chunk (length (wire s)) 4) (send_string chunk str s) s"
proof -
  obtain n s' where r: "send_some chunk (host_u32 (of_nat (length str))) s = (n, s')" by fastforce
  have h: "sends (host_u32 (of_nat (length str))) (4 \<le> chunk (length (wire s)) 4) (n = 4, s') s"
    using sends_once [OF _ r] by (simp add: max_def host_u32_def split: if_splits)
  show ?thesis
  proof (cases "n = 4")
    case True
    obtain good s'' where l: "send_loop chunk (map of_char str) s' = (good, s'')" by fastforce
    from sends_then [OF h [unfolded True simp_thms] sends_loop [of "map of_char str" chunk s', unfolded l]] True r l
    show ?thesis by (simp add: send_string_def string_bytes_def)
  next
    case False
    with h r sends_stop [of "host_u32 (of_nat (length str))" _ s' s "map of_char str" True] show ?thesis
      by (simp add: send_string_def string_bytes_def)
  qed
qed

lemma sends_float: "sends (net_u32 f) (4 \<le> chunk (length (wire s)) 4) (send_float chunk f s) s"
proof -
  obtain n s' where r: "send_some chunk (net_u32 f) s = (n, s')" by fastforce
  with sends_once [OF _ r] show ?thesis
    by (simp add: send_float_def max_def net_u32_def host_u32_def split: if_splits)
qed

lemma sends_wire: "sends bs w (True, s') s \<Longrightarrow> length (wire s') = length (wire s) + length bs"
  by (auto simp: sends_def)

lemma sends_proof:
  "\<exists>good s' st'. send_proof chunk p (s, st) = (good, s', st') \<and>
     sends (proof_bytes p) (headers_whole chunk (length (wire s)) p) (good, s') s \<and>
     (if good then bytes_sent st' = bytes_sent st + of_nat (length (proof_bytes p)) else st' = st)"
proof -
  let ?a = "string_bytes (root p)" and ?b = "string_bytes (proof_field p)" and ?c = "net_u32 (loss p)"
  let ?w = "length (wire s)"
  obtain good1 s1 where r1: "send_string chunk (root p) s = (good1, s1)" by fastforce
  obtain good2 s2 where r2: "send_string chunk (proof_field p) s1 = (good2, s2)" by fastforce
  obtain good3 s3 where r3: "send_float chunk (loss p) s2 = (good3, s3)" by fastforce
  note d1 = sends_string [of "root p" chunk s, unfolded r1] and d2 = sends_string [of "proof_field p" chunk s1, unfolded r2]
    and d3 = sends_float [of "loss p" chunk s2, unfolded r3]
  show ?thesis
  proof (cases "good1 \<and> good2")
    case True
    with d1 d2 have w: "length (wire s1) = ?w + length ?a" "length (wire s2) = ?w + length ?a + length ?b"
      by (auto dest!: sends_wire)
    from True d1 d2 have d: "sends ?a (4 \<le> chunk ?w 4) (True, s1) s" "sends ?b (4 \<le> chunk (length (wire s1)) 4) (True, s2) s1" by auto
    have "sends (?a @ ?b @ ?c) (4 \<le> chunk ?w 4 \<and> 4 \<le> chunk (length (wire s1)) 4 \<and> 4 \<le> chunk (length (wire s2)) 4) (good3, s3) s"
      by (rule sends_then [OF d(1) sends_then [OF d(2) d3]])
    then have "sends (proof_bytes p) (headers_whole chunk ?w p) (good3, s3) s"
      by (simp only: proof_bytes_def headers_whole_def w)
    moreover have "\<exists>st'. send_proof chunk p (s, st) = (good3, s3, st') \<and>
        (if good3 then bytes_sent st' = bytes_sent st + of_nat (length (proof_bytes p)) else st' = st)"
      using True by (simp add: send_proof_def r1 r2 r3 proof_bytes_def)
    ultimately show ?thesis by blast
  next
    case False
    have "\<exists>s'. send_proof chunk p (s, st) = (False, s', st) \<and>
        sends (?a @ ?b @ ?c) (4 \<le> chunk ?w 4 \<and> 4 \<le> chunk (?w + length ?a) 4 \<and> 4 \<le> chunk (?w + length ?a + length ?b) 4) (False, s') s"
    proof (cases good1)
      case True
      with False d1 d2 have "sends (?b @ ?c) (4 \<le> chunk (length (wire s1)) 4 \<and> 4 \<le> chunk (?w + length ?a + length ?b) 4) (False, s2) s1"
        by (auto intro!: sends_stop)
      with True d1 sends_wire [of ?a _ s1 s] have "sends (?a @ ?b @ ?c) (4 \<le> chunk ?w 4 \<and> 4 \<le> chunk (?w + length ?a) 4 \<and> 4 \<le> chunk (?w + length ?a + length ?b) 4) (False, s2) s"
        by (auto intro!: sends_then [of _ _ s1])
      with True False r1 r2 show ?thesis by (auto simp: send_proof_def)
    next
      case False
      with d1 r1 show ?thesis by (auto simp: send_proof_def intro!: sends_stop)
    qed
    then obtain s' where s': "send_proof chunk p (s, st) = (False, s', st)"
      "sends (?a @ ?b @ ?c) (4 \<le> chunk ?w 4 \<and> 4 \<le> chunk (?w + length ?a) 4 \<and> 4 \<le> chunk (?w + length ?a + length ?b) 4) (False, s') s" by blast
    then have "sends (proof_bytes p) (headers_whole chunk ?w p) (False, s') s"
      by (simp only: proof_bytes_def headers_whole_def)
    with s'(1) show ?thesis by (intro exI [of _ False]) simp
  qed
qed

text \<open>
  C21: a proof survives the wire, and a transfer that is cut where the code does not expect it is
  reported. Sending succeeds exactly when the socket takes all of \<open>proof_bytes\<close> and
  moves each of the two lengths and the loss in one call, however it cuts the strings; it has then
  appended exactly \<open>proof_bytes\<close> and counted them. Otherwise it reports failure, has
  counted nothing and has sent a proper prefix. Receiving \<open>proof_bytes\<close>, however they
  are cut, gives the proof back, leaves the bytes that follow it and counts them.
\<close>

theorem proof_wire_roundtrip:
  assumes "sendable p"
  shows "\<exists>good s' st'. send_proof chunk p (s, st) = (good, s', st') \<and>
    (good \<longleftrightarrow> length (proof_bytes p) \<le> room s \<and> headers_whole chunk (length (wire s)) p) \<and>
    (if good then wire s' = wire s @ proof_bytes p \<and> bytes_sent st' = bytes_sent st + of_nat (length (proof_bytes p))
     else st' = st \<and> (\<exists>k<length (proof_bytes p). wire s' = wire s @ take k (proof_bytes p))) \<and>
    (\<exists>st2'. recv_proof chunk' (proof_bytes p @ rest) st2 = Some (p, rest, st2') \<and>
      bytes_received st2' = bytes_received st2 + of_nat (length (proof_bytes p)))"
proof -
  obtain good s' st' where r: "send_proof chunk p (s, st) = (good, s', st')"
      "sends (proof_bytes p) (headers_whole chunk (length (wire s)) p) (good, s') s"
      "if good then bytes_sent st' = bytes_sent st + of_nat (length (proof_bytes p)) else st' = st"
    using sends_proof by blast
  then have "good \<longleftrightarrow> length (proof_bytes p) \<le> room s \<and> headers_whole chunk (length (wire s)) p"
    and "if good then wire s' = wire s @ proof_bytes p else \<exists>k<length (proof_bytes p). wire s' = wire s @ take k (proof_bytes p)"
    by (auto 0 4 simp: sends_def intro: le_neq_implies_less)
  with r(1,3) recv_proof_bytes [OF assms, of chunk' rest st2] show ?thesis by auto
qed

lemma proof_wire_roundtrip_witness:
  "\<exists>s' st'. send_proof (\<lambda>_ n. if n = 4 then 4 else 1) \<lparr>root = ''ab'', proof_field = ''c'', loss = f_one\<rparr>
      (\<lparr>wire = [], room = 100\<rparr>, \<lparr>bytes_sent = 0, bytes_received = 0, proofs_sent = 0, proofs_received = 0\<rparr>) = (True, s', st') \<and>
    wire s' = proof_bytes \<lparr>root = ''ab'', proof_field = ''c'', loss = f_one\<rparr> \<and>
   (\<exists>s' st'. send_proof (\<lambda>_ _. 1) \<lparr>root = ''ab'', proof_field = ''c'', loss = f_one\<rparr>
      (\<lparr>wire = [], room = 100\<rparr>, \<lparr>bytes_sent = 0, bytes_received = 0, proofs_sent = 0, proofs_received = 0\<rparr>) = (False, s', st'))"
proof -
  let ?p = "\<lparr>root = ''ab'', proof_field = ''c'', loss = f_one\<rparr>" and ?s = "\<lparr>wire = [], room = 100\<rparr>"
  let ?st = "\<lparr>bytes_sent = 0, bytes_received = 0, proofs_sent = 0, proofs_received = 0\<rparr>"
  have p: "sendable ?p" "length (proof_bytes ?p) \<le> room ?s" "headers_whole (\<lambda>_ n. if n = 4 then 4 else 1) 0 ?p"
    "\<not> headers_whole (\<lambda>_ _. 1) 0 ?p"
    by (simp_all add: sendable_def proof_bytes_def headers_whole_def)
  note ok = proof_wire_roundtrip [OF p(1), of _ ?s ?st "\<lambda>_ _. 1" "[]" ?st]
  from ok [of "\<lambda>_ n. if n = 4 then 4 else 1"] ok [of "\<lambda>_ _. 1"] p(2-4) show ?thesis by auto
qed

text \<open>
  A stream that ends inside a proof never yields one: on every proper prefix of
  \<open>proof_bytes\<close> the receiver fails, so a broken connection delivers whole proofs only.
\<close>

theorem proof_wire_truncated:
  assumes "sendable p" and "k < length (proof_bytes p)"
  shows "recv_proof chunk (take k (proof_bytes p)) st = None"
proof -
  let ?a = "string_bytes (root p)" and ?b = "string_bytes (proof_field p)"
  consider "k < length ?a" | "length ?a \<le> k" "k < length ?a + length ?b" | "length ?a + length ?b \<le> k" by linarith
  then show ?thesis
  proof cases
    case 1
    then show ?thesis
      using assms(1) recv_string_short [of "root p" k] by (simp add: recv_proof_def proof_bytes_def sendable_def)
  next
    case 2
    then have "take k (proof_bytes p) = ?a @ take (k - length ?a) ?b" by (simp add: proof_bytes_def)
    with 2 show ?thesis
      using assms(1) recv_string_short [of "proof_field p" "k - length ?a"] recv_string_bytes [of "root p"]
      by (simp add: recv_proof_def sendable_def)
  next
    case 3
    then have "take k (proof_bytes p) = ?a @ ?b @ take (k - length ?a - length ?b) (net_u32 (loss p))"
      by (simp add: proof_bytes_def)
    moreover have "k - length ?a - length ?b < 4" using 3 assms(2) by (simp add: proof_bytes_def)
    ultimately show ?thesis
      using assms(1) by (simp add: recv_proof_def sendable_def recv_string_bytes recv_float_def recv_u32_def)
  qed
qed

lemma proof_wire_truncated_witness:
  "recv_proof (\<lambda>_ _. 3) (take 14 (proof_bytes \<lparr>root = ''ab'', proof_field = ''c'', loss = f_one\<rparr>))
     \<lparr>bytes_sent = 0, bytes_received = 0, proofs_sent = 0, proofs_received = 0\<rparr> = None"
  by (rule proof_wire_truncated) (simp_all add: sendable_def proof_bytes_def)

text \<open>
  C37: gossip never dies down: servers answer every proof with a broadcast to all their
  connections, the sender included, so once a proof is under way on a network of two-way
  connections, some proof is under way after every sequence of deliveries.
\<close>

theorem gossip_never_quiesces:
  assumes "peered net" and "busy net"
  shows "busy (fold (\<lambda>(i, j). deliver i j) ds net)"
  using deliveries_busy [OF assms] by blast

lemma gossip_never_quiesces_witness:
  "\<forall>ds p. busy (fold (\<lambda>(i, j). deliver i j) ds (two_peers p))"
proof (intro allI)
  fix ds p
  have e: "echo 0 p = two_peers p" by (simp add: echo_def)
  have "busy (two_peers p)" using echo_state [of 0 p] by (auto simp: e busy_def)
  moreover have "peered (two_peers p)"
    unfolding peered_def
  proof (intro conjI allI impI)
    have other: "peers (servers (two_peers p) a) = []" if "a \<noteq> 0" "a \<noteq> 1" for a
      using that by (simp add: two_peers_def server_submit_def connect_def set_callback_def empty_network_def agg_all_def Let_def)
    show "j \<in> set (peers (servers (two_peers p) i))" if "i \<in> set (peers (servers (two_peers p) j))" for i j
      using that echo_state [of 0 p] other by (cases "j = 0"; cases "j = 1") (auto simp: e)
  qed (use echo_state [of 0 p] in \<open>auto simp: e split: if_splits\<close>)
  ultimately show "busy (fold (\<lambda>(i, j). deliver i j) ds (two_peers p))"
    by (intro gossip_never_quiesces)
qed

text \<open>
  One proof, submitted once, becomes any number of attestations: with two connected servers the
  callback of the submitting one has run \<open>k + 1\<close> times after \<open>2 k\<close>
  deliveries, each time for the same proof, and a validator attached to it sees a quorum as soon as
  \<open>k + 1\<close> reaches it.
\<close>

theorem echo_fakes_quorum:
  "callbacks (servers (echo k p) 0) = replicate (Suc k) p \<and>
   (has_quorum (foldl attest (new_validator q True) (map root (callbacks (servers (echo k p) 0)))) (root p) \<longleftrightarrow>
      max 1 q \<le> Suc k)"
proof -
  have "count_list (replicate n (root p)) (root p) = n" for n by (induction n) auto
  then show ?thesis
    using echo_state [of k p]
      has_quorum_votes [OF validator_inv_foldl_attest [OF validator_inv_new [of q True]], of "replicate (Suc k) (root p)" "root p"]
      votes_foldl_attest [of "new_validator q True" "replicate (Suc k) (root p)" "root p"]
      quorum_foldl_attest [of "new_validator q True" "replicate (Suc k) (root p)"]
    by (simp add: new_validator_def votes_def)
qed

end
