(* ===== verification/Bridge_Cli.thy ===== *)
theory Bridge_Cli
  imports Onchain Http_Client
begin

text \<open>
  The bridge tool (\<open>tools/bridge_cli.cpp\<close>). A run is given its arguments, the file it
  may read, what happens to each connection and the answers of the verifier contract; its result is
  the exit code and the bytes it sent, or a fault. \<open>append_uint256\<close> shifts a 64-bit
  value by up to 248, which C++ leaves undefined: the shift is an argument,
  \<open>strict_shr\<close> faults as the standard allows and \<open>x86_shr\<close> is what the
  machine does.
\<close>

section \<open>Arguments\<close>

definition parse_number :: "string \<Rightarrow> (bool \<times> int) option" where
  \<comment> \<open>white space, an optional sign, decimal digits\<close>
  "parse_number s =
     (let s1 = dropWhile is_space s;
          s2 = (if take 1 s1 = ''-'' \<or> take 1 s1 = ''+'' then drop 1 s1 else s1)
      in if s2 \<noteq> [] \<and> 48 \<le> (of_char (hd s2) :: int) \<and> (of_char (hd s2) :: int) \<le> 57
         then Some (take 1 s1 = ''-'', digits_val 0 s2) else None)"

definition stoi :: "string \<Rightarrow> int res" where
  "stoi s =
     (case parse_number s of
        None \<Rightarrow> Inl (Thrown ''invalid_argument'')
      | Some (neg, v) \<Rightarrow> let w = (if neg then - v else v) in if in_i32 w then Inr w else Inl (Thrown ''out_of_range''))"

definition stoul :: "string \<Rightarrow> u64 res" where
  \<comment> \<open>\<open>unsigned long\<close> has 64 bits; a minus sign negates modulo \<open>2 ^ 64\<close>\<close>
  "stoul s =
     (case parse_number s of
        None \<Rightarrow> Inl (Thrown ''invalid_argument'')
      | Some (neg, v) \<Rightarrow> if v < 2 ^ 64 then Inr (word_of_int (if neg then - v else v)) else Inl (Thrown ''out_of_range''))"

definition split_hostport :: "string \<Rightarrow> string \<times> string" where
  \<comment> \<open>without a colon, \<open>pos + 1\<close> wraps to 0 and both parts are the whole argument\<close>
  "split_hostport hp =
     (case find_from '':'' hp 0 of None \<Rightarrow> (hp, hp) | Some pos \<Rightarrow> (take pos hp, drop (pos + 1) hp))"

section \<open>Encoding\<close>

definition encode_address :: "string \<Rightarrow> string res" where
  "encode_address addr =
     (let h = strip_0x addr in
      if length h > 64 then Inl (Thrown ''length_error'') else Inr (replicate (64 - length h) (CHR ''0'') @ h))"

definition push_hex :: "string \<Rightarrow> u8 list \<Rightarrow> u8 list res" where
  \<comment> \<open>the loop that appends one byte per two digits\<close>
  "push_hex h out =
     rfold (\<lambda>k out. rbind (stoi16 (substr h (2 * k) 2)) (\<lambda>v. Inr (out @ [word_of_int v])))
       [0..<(length h + 1) div 2] out"

definition hex_to_bytes :: "string \<Rightarrow> u8 list res" where
  "hex_to_bytes hex =
     (let h = strip_0x hex; h = (if length h mod 2 \<noteq> 0 then ''0'' @ h else h) in push_hex h [])"

definition append_uint256 :: "(u64 \<Rightarrow> nat \<Rightarrow> u64 res) \<Rightarrow> u8 list \<Rightarrow> u64 \<Rightarrow> u8 list res" where
  "append_uint256 shr out v =
     rfold (\<lambda>i out. rbind (shr v (i * 8)) (\<lambda>w. Inr (out @ [ucast w]))) (rev [0..<32]) out"

definition append_address :: "u8 list \<Rightarrow> string \<Rightarrow> u8 list res" where
  "append_address out addr =
     (let h = strip_0x addr; h = (if length h < 40 then replicate (40 - length h) (CHR ''0'') @ h else h)
      in push_hex h out)"

definition compute_root_hash ::
    "(u64 \<Rightarrow> nat \<Rightarrow> u64 res) \<Rightarrow> (u8 list \<Rightarrow> string) \<Rightarrow> u32 \<Rightarrow> string \<Rightarrow> u32 \<Rightarrow> u8 list \<Rightarrow> string \<Rightarrow> string res" where
  \<comment> \<open>the digest is the argument \<open>keccak\<close>\<close>
  "compute_root_hash shr keccak token to src_chain weights dna_hex =
     rbind (append_uint256 shr [] (ucast token)) (\<lambda>buf.
     rbind (append_address buf to) (\<lambda>buf.
     rbind (append_uint256 shr buf (ucast src_chain)) (\<lambda>buf.
     rbind (hex_to_bytes dna_hex) (\<lambda>dna_bytes.
     let dna_bytes = (if length dna_bytes < 32 then replicate (32 - length dna_bytes) 0 @ dna_bytes else dna_bytes) in
     Inr (keccak (buf @ weights @ dna_bytes))))))"

definition strict_shr :: "u64 \<Rightarrow> nat \<Rightarrow> u64 res" where
  "strict_shr v n = (if n < 64 then Inr (drop_bit n v) else Inl Shift_Too_Wide)"

definition x86_shr :: "u64 \<Rightarrow> nat \<Rightarrow> u64 res" where
  \<comment> \<open>the count is taken modulo 64\<close>
  "x86_shr v n = Inr (drop_bit (n mod 64) v)"

section \<open>Transactions\<close>

definition bridge_send_tx :: "(string \<Rightarrow> bool) \<Rightarrow> attempt \<Rightarrow> string \<Rightarrow> u16 \<Rightarrow> string \<Rightarrow> string \<Rightarrow> u8 list list" where
  \<comment> \<open>what the peer receives: one \<open>send\<close>, whose result is ignored\<close>
  "bridge_send_tx inet_pton conn host port contract data =
     (case conn of
        Connected l \<Rightarrow>
          if \<not> inet_pton host then []
          else let r = post_request host port (tx_body contract data)
               in [wire (snd (sock_send (pieces l (length r)) (map of_char r) \<lparr>wire = [], room = takes l\<rparr>))]
      | _ \<Rightarrow> [])"

definition bridge_out_calldata :: "u32 \<Rightarrow> u32 \<Rightarrow> string" where
  "bridge_out_calldata token dst = ''0x3dc83f6e'' @ encode_uint256 (ucast token) @ encode_uint256 (ucast dst)"

definition bridge_in_calldata :: "u32 \<Rightarrow> string \<Rightarrow> u32 \<Rightarrow> string \<Rightarrow> string \<Rightarrow> string res" where
  "bridge_in_calldata token to src weights_hex dna_hex =
     rbind (encode_address to) (\<lambda>a.
     let proof = encode_uint256 (ucast token) @ a @ encode_bytes weights_hex @ encode_bytes32 dna_hex in
     Inr (''0x4b42d211'' @ encode_uint256 (ucast token) @ a @ encode_uint256 (ucast src) @
       encode_bytes weights_hex @ encode_bytes32 dna_hex @ encode_bytes proof))"

record world =
  shift_right :: "u64 \<Rightarrow> nat \<Rightarrow> u64 res"
  keccak :: "u8 list \<Rightarrow> string"
  valid_host :: "string \<Rightarrow> bool"
  connection :: attempt
  eth_call :: "nat \<Rightarrow> string \<Rightarrow> string option"
  file_bytes :: "string \<Rightarrow> u8 list"

definition bridge_main :: "world \<Rightarrow> string list \<Rightarrow> (int \<times> u8 list list) res" where
  \<comment> \<open>\<open>eth_call k\<close> answers the \<open>k\<close>-th query of the verifier; a file that cannot be opened reads as empty\<close>
  "bridge_main W argv =
     (if length argv < 2 then Inr (1, [])
      else if argv ! 1 = ''out'' then
        if length argv \<noteq> 6 then Inr (1, [])
        else let (host, p) = split_hostport (argv ! 2) in
          rbind (stoi p) (\<lambda>port. rbind (stoul (argv ! 4)) (\<lambda>token. rbind (stoul (argv ! 5)) (\<lambda>dst.
          Inr (0, bridge_send_tx (valid_host W) (connection W) host (word_of_int port) (argv ! 3)
                    (bridge_out_calldata (ucast token) (ucast dst))))))
      else if argv ! 1 = ''in'' then
        if length argv \<noteq> 11 then Inr (1, [])
        else let (host, p) = split_hostport (argv ! 2) in
          rbind (stoi p) (\<lambda>port. rbind (stoul (argv ! 5)) (\<lambda>token. rbind (stoul (argv ! 7)) (\<lambda>src.
          rbind (stoul (argv ! 8)) (\<lambda>dst.
          let to = argv ! 6; weights = file_bytes W (argv ! 9); dna_hex = argv ! 10 in
          rbind (compute_root_hash (shift_right W) (keccak W) (ucast token) to (ucast src) weights dna_hex) (\<lambda>root.
          if \<not> list_ex (\<lambda>i. call_verify (eth_call W i) (argv ! 4) root) [0..<5] then Inr (1, [])
          else rbind (bridge_in_calldata (ucast token) to (ucast src) (to_hex weights) dna_hex) (\<lambda>data.
            Inr (0, bridge_send_tx (valid_host W) (connection W) host (word_of_int port) (argv ! 3) data)))))))
      else Inr (1, []))"

section \<open>Shifts\<close>

lemma append_uint256_strict: "append_uint256 strict_shr out v = Inl Shift_Too_Wide"
proof -
  have "rev [0..<32] = 31 # rev [0..<31]" by (simp add: upt_rec)
  then show ?thesis by (simp add: append_uint256_def strict_shr_def)
qed

lemma rfold_push: "rfold (\<lambda>i out. Inr (out @ [f i])) xs out = Inr (out @ map f xs)"
  by (induction xs arbitrary: out) simp_all

definition be_bytes :: "u64 \<Rightarrow> u8 list" where
  "be_bytes v = map (\<lambda>i. ucast (drop_bit (8 * i) v)) (rev [0..<8])"

lemma count_down_32: "rev [0..<32] =
    [31, 30, 29, 28, 27, 26, 25, 24, 23, 22, 21, 20, 19, 18, 17, 16, 15, 14, 13, 12, 11, 10, 9, 8, 7, 6, 5, 4, 3, 2, 1, 0]"
  by (simp add: upt_rec)

lemma count_down_8: "rev [0..<8] = [7, 6, 5, 4, 3, 2, 1, 0]"
  by (simp add: upt_rec)

lemma four_times: "concat (replicate 4 xs) = xs @ xs @ xs @ xs"
  by (simp add: eval_nat_numeral)

lemma append_uint256_machine: "append_uint256 x86_shr out v = Inr (out @ concat (replicate 4 (be_bytes v)))"
  unfolding append_uint256_def x86_shr_def rbind.simps rfold_push be_bytes_def four_times count_down_32 count_down_8
  by simp

lemma be_bytes_zero: "be_bytes v = replicate 8 0 \<longleftrightarrow> v = 0"
proof
  assume z: "be_bytes v = replicate 8 0"
  show "v = 0"
  proof (rule bit_word_eqI)
    fix n assume n: "n < LENGTH(64)"
    have "rev (be_bytes v) ! (n div 8) = 0" using z n by simp
    moreover have "rev (be_bytes v) ! (n div 8) = ucast (drop_bit (8 * (n div 8)) v)"
    proof -
      have "n div 8 < 8" using n by simp
      then show ?thesis by (simp add: be_bytes_def rev_map)
    qed
    ultimately have "\<not> bit (ucast (drop_bit (8 * (n div 8)) v) :: u8) (n mod 8)" by simp
    then show "bit v n = bit (0 :: u64) n" using n by (simp add: bit_simps)
  qed
qed (simp add: be_bytes_def map_replicate_const)

lemma parse_number_dec: "parse_number (dec n) = Some (False, int n)"
proof -
  obtain c r where d: "dec n = c # r" by (cases "dec n") auto
  then have c: "\<not> is_space c" "c \<noteq> CHR ''-''" "c \<noteq> CHR ''+''" using dec_plain [of c n] by auto
  obtain k where k: "k < 10" "c = char_of (48 + k :: nat)" using dec_digits [of c n] d by auto
  have "digits_val 0 (dec n) = int n" using digits_val_dec [of 0 n "[]"] by auto
  with c d k show ?thesis by (simp add: parse_number_def digit_char)
qed

lemma split_host_port:
  assumes "CHR '':'' \<notin> set host"
  shows "split_hostport (host @ '':'' @ port) = (host, port)"
  using find_in_skip [OF assms, of port 0] by (simp add: split_hostport_def find_from_def)

section \<open>Properties\<close>

text \<open>
  C40: the tool cannot bridge a token in: no run of \<open>in\<close> with all its arguments reaches its end in
  defined C++, because the root hash shifts a 64-bit value by 248 bits; nothing is sent.
\<close>

theorem bridge_in_undefined:
  assumes "length argv = 11" and "argv ! 1 = ''in''"
  shows "\<exists>e. bridge_main (W\<lparr>shift_right := strict_shr\<rparr>) argv = Inl e"
proof -
  have c: "compute_root_hash strict_shr k t a s w d = Inl Shift_Too_Wide" for k t a s w d
    by (simp add: compute_root_hash_def append_uint256_strict)
  show ?thesis
    using assms
    by (cases "split_hostport (argv ! 2)"; cases "stoi (snd (split_hostport (argv ! 2)))"; cases "stoul (argv ! 5)";
        cases "stoul (argv ! 7)"; cases "stoul (argv ! 8)")
      (simp_all add: bridge_main_def c Let_def)
qed

definition quiet_world :: world where
  "quiet_world = \<lparr>shift_right = strict_shr, keccak = \<lambda>_. ''0'', valid_host = \<lambda>_. True,
     connection = Connected \<lparr>takes = 5000, pieces = \<lambda>n. n, replies = []\<rparr>, eth_call = \<lambda>_ _. None, file_bytes = \<lambda>_. []\<rparr>"

lemma bridge_in_undefined_witness:
  "\<exists>e. bridge_main quiet_world [''b'', ''in'', ''h:1'', ''c'', ''v'', ''7'', ''0xabc'', ''1'', ''2'', ''w.bin'', ''12''] = Inl e"
proof -
  have "quiet_world\<lparr>shift_right := strict_shr\<rparr> = quiet_world" by (simp add: quiet_world_def)
  with bridge_in_undefined [of "[''b'', ''in'', ''h:1'', ''c'', ''v'', ''7'', ''0xabc'', ''1'', ''2'', ''w.bin'', ''12'']" quiet_world]
  show ?thesis by simp
qed

text \<open>
  What x86 makes of those shifts: the 32 bytes appended for a value are its eight bytes four
  times over, which is the 256-bit encoding the contract hashes only for 0.
\<close>

theorem bridge_packing_x86:
  "append_uint256 x86_shr [] v = Inr (concat (replicate 4 (be_bytes v))) \<and>
   (append_uint256 x86_shr [] v = Inr (replicate 24 0 @ be_bytes v) \<longleftrightarrow> v = 0)"
proof -
  have l: "length (be_bytes v) = 8" by (simp add: be_bytes_def)
  have "concat (replicate 4 (be_bytes v)) = (be_bytes v @ be_bytes v @ be_bytes v) @ be_bytes v"
    by (simp add: four_times)
  moreover have "(be_bytes v @ be_bytes v @ be_bytes v) @ be_bytes v = replicate 24 0 @ be_bytes v \<longleftrightarrow>
      be_bytes v = replicate 8 0"
  proof -
    have "replicate 24 (0 :: u8) = replicate 8 0 @ replicate 8 0 @ replicate 8 0" by (simp add: eval_nat_numeral)
    then show ?thesis using l by auto
  qed
  ultimately show ?thesis using append_uint256_machine [of "[]" v] by (simp add: be_bytes_zero)
qed

text \<open>
  The destination chain is not part of a transfer: \<open>in\<close> parses its
  \<open>dstChainId\<close> argument and sends the same transaction whatever it is, although the
  contract's \<open>bridgeIn\<close> takes it as its fourth parameter.
\<close>

theorem bridge_in_ignores_dst:
  assumes "stoul d = Inr v" and "stoul d' = Inr v'"
  shows "bridge_main W [prog, ''in'', hp, c, vf, tok, to, src, d, w, dna] =
    bridge_main W [prog, ''in'', hp, c, vf, tok, to, src, d', w, dna]"
  using assms by (simp add: bridge_main_def cong: if_cong)

lemma bridge_in_ignores_dst_witness:
  "bridge_main quiet_world [''b'', ''in'', ''h:1'', ''c'', ''v'', ''7'', ''0xabc'', ''1'', ''2'', ''w.bin'', ''12''] =
   bridge_main quiet_world [''b'', ''in'', ''h:1'', ''c'', ''v'', ''7'', ''0xabc'', ''1'', ''99'', ''w.bin'', ''12'']"
  by (rule bridge_in_ignores_dst [where v = 2 and v' = 99]) code_simp+

text \<open>
  \<open>out\<close> sends what it is told: for a host and port, a token and a chain id in decimal, a
  connection that takes the request in one piece receives one well-formed POST whose calldata is
  the selector and the ABI words of the token and the chain id.
\<close>

theorem bridge_out_sends:
  assumes "CHR '':'' \<notin> set host" and "p < 2 ^ 16" and "t < 2 ^ 32" and "c < 2 ^ 32" and "valid_host W host"
    and "connection W = Connected l"
    and "length (post_request host (of_nat p) (tx_body contract (bridge_out_calldata (of_nat t) (of_nat c)))) \<le> min (takes l)
      (pieces l (length (post_request host (of_nat p) (tx_body contract (bridge_out_calldata (of_nat t) (of_nat c))))))"
  shows "bridge_main W [prog, ''out'', host @ '':'' @ dec p, contract, dec t, dec c] =
      Inr (0, [map of_char (post_request host (of_nat p) (tx_body contract (bridge_out_calldata (of_nat t) (of_nat c))))]) \<and>
    abi_words 2 (drop 10 (bridge_out_calldata (of_nat t) (of_nat c))) = [t, c]"
proof
  have n: "stoi (dec p) = Inr (int p)" "stoul (dec t) = Inr (of_nat t)" "stoul (dec c) = Inr (of_nat c)"
    using assms(2-4) by (simp_all add: stoi_def stoul_def parse_number_dec in_i32_def)
  have u: "(ucast (of_nat k :: u64) :: u32) = of_nat k" for k by (simp add: unsigned_of_nat word_of_nat_eq_iff)
  have s: "bridge_send_tx (valid_host W) (connection W) host (of_nat p) contract (bridge_out_calldata (of_nat t) (of_nat c)) =
      [map of_char (post_request host (of_nat p) (tx_body contract (bridge_out_calldata (of_nat t) (of_nat c))))]"
    using assms(5-7) by (simp add: bridge_send_tx_def sock_send_def Let_def)
  show "bridge_main W [prog, ''out'', host @ '':'' @ dec p, contract, dec t, dec c] =
      Inr (0, [map of_char (post_request host (of_nat p) (tx_body contract (bridge_out_calldata (of_nat t) (of_nat c))))])"
    using split_host_port [OF assms(1), of "dec p"] n s by (simp add: bridge_main_def u)
  have w: "unat (ucast (of_nat k :: u32) :: u64) mod 2 ^ 32 = k" if "k < 2 ^ 32" for k
    using that by (simp add: unsigned_of_nat unsigned_ucast_eq take_bit_nat_eq_self)
  have "list_all2 abi_word [encode_uint256 (ucast (of_nat t :: u32)), encode_uint256 (ucast (of_nat c :: u32))] [t, c]"
    using encode_uint256_word [of "ucast (of_nat t :: u32)"] encode_uint256_word [of "ucast (of_nat c :: u32)"]
      w [OF assms(3)] w [OF assms(4)] by simp
  from abi_words_concat [OF this, of 2]
  show "abi_words 2 (drop 10 (bridge_out_calldata (of_nat t) (of_nat c))) = [t, c]"
    by (simp add: bridge_out_calldata_def del: abi_words.simps)
qed

end
