(* ===== verification/Marketplace.thy ===== *)
theory Marketplace
  imports Http_Client
begin

text \<open>
  The plugin marketplace of \<open>include/neuropet/plugin_loader.hpp\<close>:
  \<open>fetch_available_plugins\<close> fetches a listing and scans it with a regular expression.
  The expression is a sequence of literals, greedy classes and captures, and matching is the
  backtracking of \<open>std::regex\<close>: a greedy item tries its longest run of characters first
  and gives characters back as long as the rest does not match.
\<close>

section \<open>Matching\<close>

datatype item = Lit string | Many "char \<Rightarrow> bool" | Capture "char \<Rightarrow> bool"

fun greedy :: "(char \<Rightarrow> bool) \<Rightarrow> (string \<Rightarrow> string \<Rightarrow> 'a option) \<Rightarrow> string \<Rightarrow> string \<Rightarrow> 'a option" where
  \<comment> \<open>\<open>f run rest\<close> for the longest run that succeeds; the run so far is the third argument\<close>
  "greedy p f run [] = f run []"
| "greedy p f run (c # s) =
     (if p c then (case greedy p f (run @ [c]) s of Some x \<Rightarrow> Some x | None \<Rightarrow> f run (c # s)) else f run (c # s))"

fun matches :: "item list \<Rightarrow> string \<Rightarrow> (string list \<times> string) option" where
  \<comment> \<open>the captures and the rest of the text\<close>
  "matches [] s = Some ([], s)"
| "matches (Lit w # r) s = (if take (length w) s = w then matches r (drop (length w) s) else None)"
| "matches (Many p # r) s = greedy p (\<lambda>run rest. matches r rest) [] s"
| "matches (Capture p # r) s =
     greedy p (\<lambda>run rest. if run = [] then None else map_option (\<lambda>(cs, t). (run # cs, t)) (matches r rest)) [] s"

abbreviation quote :: char where "quote \<equiv> CHR 0x22"

definition not_quote :: "char \<Rightarrow> bool" where
  "not_quote c \<longleftrightarrow> c \<noteq> quote"

definition not_brace :: "char \<Rightarrow> bool" where
  "not_brace c \<longleftrightarrow> c \<noteq> CHR ''{'' \<and> c \<noteq> CHR ''}''"

definition quoted :: "string \<Rightarrow> string" where
  "quoted s = quote # s @ [quote]"

definition key :: "string \<Rightarrow> item list" where
  "key w = [Lit (quoted w), Many is_space, Lit '':'', Many is_space, Lit [quote], Capture not_quote, Lit [quote]]"

definition item_regex :: "item list" where
  "item_regex = key ''name'' @ [Many not_brace] @ key ''version'' @ [Many not_brace] @ key ''url''"

lemma greedy_suffix:
  "greedy p f run s = Some x \<Longrightarrow> \<exists>u t. s = u @ t \<and> f (run @ u) t = Some x"
proof (induction s arbitrary: run)
  case (Cons c s)
  show ?case
  proof (cases "p c \<and> greedy p f (run @ [c]) s \<noteq> None")
    case True
    then have "greedy p f (run @ [c]) s = Some x" using Cons.prems by auto
    from Cons.IH [OF this] obtain u t where "s = u @ t" "f ((run @ [c]) @ u) t = Some x" by blast
    then show ?thesis by (intro exI [of _ "c # u"] exI [of _ t]) simp
  next
    case False
    then have "f run (c # s) = Some x" using Cons.prems by (auto split: if_splits)
    then show ?thesis by (intro exI [of _ "[]"] exI [of _ "c # s"]) simp
  qed
qed simp

lemma matches_shorter: "matches r s = Some (cs, t) \<Longrightarrow> length t \<le> length s"
proof (induction r s arbitrary: cs t rule: matches.induct)
  case (2 w r s)
  then show ?case by (auto split: if_splits)
next
  case (3 p r s)
  from 3(2) obtain u v where "s = u @ v" "matches r v = Some (cs, t)" by (auto dest: greedy_suffix)
  with 3(1) [of v cs t] show ?case by simp
next
  case (4 p r s)
  from 4(2) obtain u v cs' where "u \<noteq> []" "s = u @ v" "matches r v = Some (cs', t)" by (fastforce dest: greedy_suffix split: if_splits)
  with 4(1) [of u v cs' t] show ?case by auto
qed simp

lemma literal_shorter:
  assumes "matches (Lit w # r) s = Some (cs, t)" and "w \<noteq> []"
  shows "length t < length s"
proof -
  have w: "take (length w) s = w" "matches r (drop (length w) s) = Some (cs, t)" using assms(1) by (auto split: if_splits)
  have "length s > 0" using w(1) assms(2) by (cases s) auto
  moreover have "length w > 0" using assms(2) by simp
  ultimately have "length (drop (length w) s) < length s" by simp
  with matches_shorter [OF w(2)] show ?thesis by linarith
qed

lemma item_shorter: "matches item_regex s = Some (cs, t) \<Longrightarrow> length t < length s"
  unfolding item_regex_def key_def append_Cons by (rule literal_shorter, assumption) (simp add: quoted_def)

section \<open>The listing\<close>

record MarketplacePlugin =
  plugin_name :: string
  plugin_version :: string
  plugin_url :: string

definition plugin_of :: "string list \<Rightarrow> MarketplacePlugin" where
  "plugin_of cs = \<lparr>plugin_name = cs ! 0, plugin_version = cs ! 1, plugin_url = cs ! 2\<rparr>"

function scan :: "string \<Rightarrow> MarketplacePlugin list" where
  \<comment> \<open>\<open>sregex_iterator\<close>: the next search starts where the last match ended\<close>
  "scan s =
     (case matches item_regex s of
        Some (cs, rest) \<Rightarrow> plugin_of cs # scan rest
      | None \<Rightarrow> (case s of [] \<Rightarrow> [] | c # s' \<Rightarrow> scan s'))"
  by auto
termination by (relation "measure length") (auto dest: item_shorter)

definition fetch_available_plugins ::
    "(nat \<Rightarrow> attempt) \<Rightarrow> (string \<Rightarrow> bool) \<Rightarrow> string \<Rightarrow> u16 \<Rightarrow> string \<Rightarrow> MarketplacePlugin list res" where
  \<comment> \<open>\<open>http_get\<close> runs with its default number of attempts and delay\<close>
  "fetch_available_plugins net inet_pton host port path =
     rbind (http_get net inet_pton host port path (Some []) 3 100) (\<lambda>(ok, s).
       if \<not> ok then Inr [] else Inr (case response s of None \<Rightarrow> [] | Some resp \<Rightarrow> scan resp))"

declare scan.simps [simp del]

section \<open>Reading a printed listing\<close>

definition print_plugin :: "MarketplacePlugin \<Rightarrow> string" where
  "print_plugin p = ''{'' @ quoted ''name'' @ '':'' @ quoted (plugin_name p) @ '','' @ quoted ''version'' @ '':'' @
     quoted (plugin_version p) @ '','' @ quoted ''url'' @ '':'' @ quoted (plugin_url p) @ ''}''"

fun print_rest :: "MarketplacePlugin list \<Rightarrow> string" where
  "print_rest [] = '']''"
| "print_rest (p # ps) = '','' @ print_plugin p @ print_rest ps"

fun print_listing :: "MarketplacePlugin list \<Rightarrow> string" where
  "print_listing [] = ''[]''"
| "print_listing (p # ps) = ''['' @ print_plugin p @ print_rest ps"

definition printable :: "MarketplacePlugin \<Rightarrow> bool" where
  \<comment> \<open>no field is empty or contains a quote\<close>
  "printable p \<longleftrightarrow> list_all (\<lambda>s. s \<noteq> [] \<and> quote \<notin> set s) [plugin_name p, plugin_version p, plugin_url p]"

lemma greedy_run:
  "(\<forall>c\<in>set u. p c) \<Longrightarrow> \<not> p c \<Longrightarrow> f (run @ u) (c # s) = Some x \<Longrightarrow> greedy p f run (u @ c # s) = Some x"
  by (induction u arbitrary: run) auto

lemma greedy_backtracks: "p c \<Longrightarrow> greedy p f (run @ [c]) s = None \<Longrightarrow> greedy p f run (c # s) = f run (c # s)"
  by simp

definition no_match :: "item list \<Rightarrow> string \<Rightarrow> bool" where
  \<comment> \<open>from no position of the longest run without braces\<close>
  "no_match r s \<longleftrightarrow> (\<forall>run. greedy not_brace (\<lambda>run rest. matches r rest) run s = None)"

lemma no_match_Cons: "matches r (c # s) = None \<Longrightarrow> (not_brace c \<Longrightarrow> no_match r s) \<Longrightarrow> no_match r (c # s)"
  by (simp add: no_match_def)

lemma not_at_key: "c \<noteq> quote \<Longrightarrow> matches (key w @ r) (c # s) = None"
  by (simp add: key_def quoted_def)

lemma no_match_app: "quote \<notin> set u \<Longrightarrow> no_match (key w @ r) s \<Longrightarrow> no_match (key w @ r) (u @ s)"
  by (induction u) (auto intro!: no_match_Cons not_at_key)

lemma other_key: "c \<noteq> a \<Longrightarrow> matches (key (a # w) @ r) (quote # c # s) = None"
  by (simp add: key_def quoted_def)

lemma quoted_literal:
  assumes "quote \<notin> set u" and "quote \<notin> set w" and "take (length (quoted w)) (quote # u @ quote # s) = quoted w"
  shows "u = w"
proof -
  have t: "takeWhile (\<lambda>c. c \<noteq> quote) (v @ quote # x) = v" if "quote \<notin> set v" for v x
    using that by (induction v) auto
  have "u @ quote # s = w @ quote # drop (Suc (length w)) (u @ quote # s)"
    using assms(3) append_take_drop_id [of "Suc (length w)" "u @ quote # s"] by (simp add: quoted_def)
  with t [OF assms(1)] t [OF assms(2)] show ?thesis by metis
qed

lemma not_a_key:
  assumes "quote \<notin> set u" and "quote \<notin> set w" and "c \<noteq> CHR '':''" and "\<not> is_space c"
  shows "matches (key w @ r) (quote # u @ quote # c # s) = None"
proof (cases "u = w")
  case True
  then show ?thesis using assms(3,4) by (simp add: key_def quoted_def)
next
  case False
  with quoted_literal [OF assms(1,2), of "c # s"] show ?thesis by (auto simp: key_def)
qed

lemma at_key:
  assumes "v \<noteq> []" and "quote \<notin> set v" and "matches r s = Some (cs, t)"
  shows "matches (key w @ r) (quoted w @ '':'' @ quoted v @ s) = Some (v # cs, t)"
proof -
  have sp: "\<not> is_space (CHR '':'')" "\<not> is_space quote" by (simp_all add: is_space_def)
  have "greedy not_quote (\<lambda>run rest. if run = [] then None
      else map_option (\<lambda>(cs, t). (run # cs, t)) (matches (Lit [quote] # r) rest)) [] (v @ quote # s) = Some (v # cs, t)"
    by (rule greedy_run) (use assms in \<open>auto simp: not_quote_def\<close>)
  moreover have "take (length (quoted w)) (quoted w @ x) = quoted w" "drop (length (quoted w)) (quoted w @ x) = x" for x
    by simp_all
  ultimately show ?thesis using sp by (simp add: key_def quoted_def [of v])
qed

lemma no_match_string:
  assumes "quote \<notin> set u" and "quote \<notin> set (a # w)" and "u \<noteq> a # w \<or> c \<noteq> CHR '':'' \<and> \<not> is_space c" and "c \<noteq> a"
    and "no_match (key (a # w) @ r) (c # s)"
  shows "no_match (key (a # w) @ r) (quoted u @ c # s)"
proof -
  have "matches (key (a # w) @ r) (quote # u @ quote # c # s) = None"
  proof (cases "u = a # w")
    case True
    with assms(3) not_a_key [OF assms(1,2), of c r s] show ?thesis by blast
  next
    case False
    with quoted_literal [OF assms(1,2), of "c # s"] show ?thesis by (auto simp: key_def)
  qed
  moreover have "no_match (key (a # w) @ r) (u @ quote # c # s)"
    by (rule no_match_app [OF assms(1) no_match_Cons [OF other_key [OF assms(4)] assms(5)]])
  ultimately show ?thesis by (simp add: quoted_def no_match_Cons)
qed

lemma no_match_plain: "c \<noteq> quote \<Longrightarrow> no_match (key w @ r) s \<Longrightarrow> no_match (key w @ r) (c # s)"
  by (rule no_match_Cons [OF not_at_key])

lemma no_match_own:
  assumes "quote \<notin> set u" and "CHR '':'' \<noteq> a" and "no_match (key (a # w) @ r) s"
  shows "no_match (key (a # w) @ r) (u @ quote # CHR '':'' # s)"
  by (rule no_match_app [OF assms(1) no_match_Cons [OF other_key [OF assms(2)] no_match_plain [OF _ assms(3)]]]) simp

lemma no_match_brace: "no_match (key w @ r) (CHR ''}'' # s)"
  by (intro no_match_Cons not_at_key) (simp_all add: not_brace_def)

lemma no_match_version:
  assumes "quote \<notin> set v" and "quote \<notin> set u"
  shows "no_match (key ''version'' @ r) (tl (quoted ''version'') @ '':'' @ quoted v @ '','' @ quoted ''url'' @ '':'' @ quoted u @ ''}'' @ s)"
proof -
  have "no_match (key ''version'' @ r) (quoted u @ CHR ''}'' # s)"
    by (rule no_match_string) (use assms in \<open>auto simp: is_space_def no_match_brace\<close>)
  then have "no_match (key ''version'' @ r) (CHR '':'' # quoted u @ CHR ''}'' # s)"
    by (rule no_match_plain [rotated]) simp
  then have "no_match (key ''version'' @ r) (quoted ''url'' @ CHR '':'' # quoted u @ CHR ''}'' # s)"
    by (rule no_match_string [rotated 4]) auto
  then have "no_match (key ''version'' @ r) (CHR '','' # quoted ''url'' @ CHR '':'' # quoted u @ CHR ''}'' # s)"
    by (rule no_match_plain [rotated]) simp
  then have "no_match (key ''version'' @ r) (quoted v @ CHR '','' # quoted ''url'' @ CHR '':'' # quoted u @ CHR ''}'' # s)"
    by (rule no_match_string [rotated 4]) (use assms in \<open>auto simp: is_space_def\<close>)
  then have "no_match (key ''version'' @ r) (''version'' @ quote # CHR '':'' # quoted v @ CHR '','' # quoted ''url'' @
      CHR '':'' # quoted u @ CHR ''}'' # s)"
    by (rule no_match_own [rotated 2]) auto
  then show ?thesis by (simp add: quoted_def)
qed

lemma no_match_url:
  assumes "quote \<notin> set u"
  shows "no_match (key ''url'' @ r) (tl (quoted ''url'') @ '':'' @ quoted u @ ''}'' @ s)"
proof -
  have "no_match (key ''url'' @ r) (quoted u @ CHR ''}'' # s)"
    by (rule no_match_string) (use assms in \<open>auto simp: is_space_def no_match_brace\<close>)
  then have "no_match (key ''url'' @ r) (''url'' @ quote # CHR '':'' # quoted u @ CHR ''}'' # s)"
    by (rule no_match_own [rotated 2]) auto
  then show ?thesis by (simp add: quoted_def)
qed

lemma next_key:
  assumes "matches (key w @ r) (quoted w @ s) = Some x" and "no_match (key w @ r) (tl (quoted w) @ s)"
  shows "matches ([Many not_brace] @ key w @ r) ('','' @ quoted w @ s) = Some x"
proof -
  have "not_brace (CHR '','')" "not_brace quote" by (simp_all add: not_brace_def)
  with assms show ?thesis by (simp add: quoted_def no_match_def)
qed

lemma item_matches:
  assumes "printable p"
  shows "matches item_regex (tl (print_plugin p) @ s) = Some ([plugin_name p, plugin_version p, plugin_url p], ''}'' @ s)"
proof -
  let ?n = "plugin_name p" and ?v = "plugin_version p" and ?u = "plugin_url p"
  have p: "?n \<noteq> []" "quote \<notin> set ?n" "?v \<noteq> []" "quote \<notin> set ?v" "?u \<noteq> []" "quote \<notin> set ?u"
    using assms by (auto simp: printable_def)
  have "matches (key ''url'' @ []) (quoted ''url'' @ '':'' @ quoted ?u @ ''}'' @ s) = Some ([?u], ''}'' @ s)"
    by (rule at_key [OF p(5,6)]) simp
  from next_key [OF this no_match_url [OF p(6)]]
  have "matches (key ''version'' @ [Many not_brace] @ key ''url'')
      (quoted ''version'' @ '':'' @ quoted ?v @ '','' @ quoted ''url'' @ '':'' @ quoted ?u @ ''}'' @ s) = Some ([?v, ?u], ''}'' @ s)"
    by (intro at_key [OF p(3,4)]) simp
  from next_key [OF this no_match_version [OF p(4,6)]]
  have "matches item_regex (quoted ''name'' @ '':'' @ quoted ?n @ '','' @ quoted ''version'' @ '':'' @ quoted ?v @ '','' @
      quoted ''url'' @ '':'' @ quoted ?u @ ''}'' @ s) = Some ([?n, ?v, ?u], ''}'' @ s)"
    unfolding item_regex_def by (rule at_key [OF p(1,2)])
  then show ?thesis by (simp add: print_plugin_def)
qed

lemma scan_match: "matches item_regex s = Some (cs, rest) \<Longrightarrow> scan s = plugin_of cs # scan rest"
  by (subst scan.simps) simp

lemma scan_plain: "c \<noteq> quote \<Longrightarrow> scan (c # s) = scan s"
  by (subst scan.simps) (simp add: item_regex_def not_at_key)

lemma scan_empty: "scan [] = []"
  by (subst scan.simps) (simp add: item_regex_def key_def quoted_def)

lemma scan_plugin: "printable p \<Longrightarrow> scan (print_plugin p @ s) = p # scan s"
proof -
  assume p: "printable p"
  have e: "print_plugin p @ s = CHR ''{'' # tl (print_plugin p) @ s" by (simp add: print_plugin_def)
  have "scan (print_plugin p @ s) = scan (tl (print_plugin p) @ s)" unfolding e by (rule scan_plain) simp
  also have "\<dots> = plugin_of [plugin_name p, plugin_version p, plugin_url p] # scan (''}'' @ s)"
    by (rule scan_match [OF item_matches [OF p]])
  finally show ?thesis using scan_plain [of "CHR ''}''" s] by (simp add: plugin_of_def)
qed

lemma scan_rest: "list_all printable ps \<Longrightarrow> scan (print_rest ps) = ps"
  by (induction ps) (simp_all add: scan_plain scan_plugin scan_empty)

lemma scan_listing: "list_all printable ps \<Longrightarrow> scan (print_listing ps) = ps"
  by (cases ps) (simp_all add: scan_plain scan_plugin scan_rest scan_empty)

section \<open>Properties\<close>

text \<open>
  C35: the marketplace listing is read back off the wire: for a server that takes the first request
  and answers it with a success status, headers and, after the blank line, a listing whose fields
  are not empty and contain no quotes (they may contain braces, or the words \<open>name\<close>,
  \<open>version\<close> and \<open>url\<close>), cut into pieces as the network likes,
  \<open>fetch_available_plugins\<close> returns exactly the listed plugins, in order.
\<close>

theorem marketplace_roundtrip:
  assumes "inet_pton host" and "net 0 = Connected l" and "length (get_request host port path) \<le> takes l"
    and "200 \<le> code" and "code < 300"
    and "read_all (replies l) = ''HTTP/1.1 '' @ dec code @ '' '' @ head @ crlf @ crlf @ print_listing ps"
    and "find_from (crlf @ crlf) (''HTTP/1.1 '' @ dec code @ '' '' @ head @ crlf @ crlf) 0 =
      Some (length (''HTTP/1.1 '' @ dec code @ '' '' @ head))"
    and "list_all printable ps"
  shows "fetch_available_plugins net inet_pton host port path = Inr ps"
proof -
  obtain t where "http_get net inet_pton host port path (Some []) 3 100 = Inr (True, t)" "response t = Some (print_listing ps)"
    using http_get_body [where inet_pton = inet_pton and host = host and attempts = 3 and net = net and l = l and port = port and
        path = path and code = code and head = head and body = "print_listing ps" and old = "[]" and backoff = 100] assms(1-7)
    by auto
  then show ?thesis using assms(8) by (simp add: fetch_available_plugins_def scan_listing)
qed

definition two_plugins :: "MarketplacePlugin list" where
  "two_plugins = [\<lparr>plugin_name = ''a}'', plugin_version = ''version'', plugin_url = ''http://x/{id}''\<rparr>,
     \<lparr>plugin_name = ''url'', plugin_version = ''1.2'', plugin_url = ''u''\<rparr>]"

lemma marketplace_roundtrip_witness:
  "fetch_available_plugins (\<lambda>_. Connected \<lparr>takes = 1000, pieces = \<lambda>n. n,
     replies = [''HTTP/1.1 200 OK'' @ crlf, crlf @ print_listing two_plugins]\<rparr>) (\<lambda>_. True) ''h'' 80 ''/'' = Inr two_plugins"
proof (rule marketplace_roundtrip [where l = "\<lparr>takes = 1000, pieces = \<lambda>n. n,
      replies = [''HTTP/1.1 200 OK'' @ crlf, crlf @ print_listing two_plugins]\<rparr>" and code = 200 and head = "''OK''"])
  have d: "dec 200 = ''200''" by code_simp
  show "length (get_request ''h'' 80 ''/'') \<le> takes \<lparr>takes = 1000, pieces = \<lambda>n. n,
      replies = [''HTTP/1.1 200 OK'' @ crlf, crlf @ print_listing two_plugins]\<rparr>" by code_simp
  show "read_all (replies \<lparr>takes = 1000, pieces = \<lambda>n. n,
      replies = [''HTTP/1.1 200 OK'' @ crlf, crlf @ print_listing two_plugins]\<rparr>) =
      ''HTTP/1.1 '' @ dec 200 @ '' '' @ ''OK'' @ crlf @ crlf @ print_listing two_plugins"
    by (simp add: d crlf_def)
  show "find_from (crlf @ crlf) (''HTTP/1.1 '' @ dec 200 @ '' '' @ ''OK'' @ crlf @ crlf) 0 =
      Some (length (''HTTP/1.1 '' @ dec 200 @ '' '' @ ''OK''))"
    unfolding d by code_simp
qed (auto simp: two_plugins_def printable_def)

end
