(* ===== verification/Plugin_Loader.thy ===== *)
theory Plugin_Loader
  imports Marketplace
begin

text \<open>
  The plugin loader (\<open>include/neuropet/plugin_loader.hpp\<close>). The file system is the
  function that gives the content of a file (nothing when it does not exist or cannot be read, a
  fault when \<open>exists\<close> throws) and the one that gives the entries of a directory (their
  names and whether they are regular files); \<open>load_plugin\<close> is the Harmonics loader,
  \<open>None\<close> when it throws. The listing of the marketplace is fetched and thrown away.
\<close>

section \<open>Manifests\<close>

definition skip_spaces :: "string \<Rightarrow> nat \<Rightarrow> nat" where
  "skip_spaces data pos = pos + length (takeWhile is_space (drop pos data))"

definition is_digit :: "char \<Rightarrow> bool" where
  "is_digit c \<longleftrightarrow> (let n = of_char c :: nat in 48 \<le> n \<and> n \<le> 57)"

definition parse_manifest :: "string option res \<Rightarrow> int \<Rightarrow> int res" where
  \<comment> \<open>the new value of \<open>*harmonics_ver\<close>; the function itself always returns true\<close>
  "parse_manifest file ver =
     rbind file (\<lambda>found. case found of
        None \<Rightarrow> Inr ver
      | Some data \<Rightarrow>
          (case find_from ''\"harmonics_version\"'' data 0 of
             None \<Rightarrow> Inr ver
           | Some p \<Rightarrow>
               (case find_from '':'' data p of
                  None \<Rightarrow> Inr ver
                | Some q \<Rightarrow>
                    let pos = skip_spaces data (q + 1) in
                    if pos \<ge> length data then Inr ver
                    else let pos = (if data ! pos = CHR 0x22 \<or> data ! pos = CHR 0x27 then pos + 1 else pos);
                             num = takeWhile is_digit (drop pos data)
                         in if num \<noteq> [] then atoi num else Inr ver)))"

definition manifest_version_ok :: "int \<Rightarrow> string option res \<Rightarrow> bool res" where
  \<comment> \<open>for the content of the \<open>plugin.json\<close> next to the library\<close>
  "manifest_version_ok version file = rbind (parse_manifest file 0) (\<lambda>hv. Inr (hv = 0 \<or> hv = version))"

section \<open>Loading\<close>

fun split_path :: "string \<Rightarrow> string \<Rightarrow> string list" where
  \<comment> \<open>\<open>getline\<close> with the delimiter \<open>:\<close>; the second argument is the piece under way\<close>
  "split_path [] piece = (if piece = [] then [] else [piece])"
| "split_path (c # s) piece = (if c = CHR '':'' then piece # split_path s [] else split_path s (piece @ [c]))"

definition extension :: "string \<Rightarrow> string" where
  \<comment> \<open>of a file name: from its last dot on, unless that is its first character\<close>
  "extension name =
     (let r = takeWhile (\<lambda>c. c \<noteq> CHR ''.'') (rev name)
      in if length r + 1 < length name then CHR ''.'' # rev r else [])"

definition manifest_of :: "string \<Rightarrow> string" where
  "manifest_of lib = path_append (parent_path lib) ''plugin.json''"

definition load_entry ::
    "int \<Rightarrow> (string \<Rightarrow> string option res) \<Rightarrow> (string \<Rightarrow> 'h option) \<Rightarrow> string \<Rightarrow> string \<times> bool \<Rightarrow> 'h list \<Rightarrow> 'h list res" where
  "load_entry version content load_plugin dir = (\<lambda>(name, regular) handles.
     let lib = path_append dir name in
     if regular \<and> extension name = ''.so'' then
       rbind (manifest_version_ok version (content (manifest_of lib))) (\<lambda>ok.
       Inr (if \<not> ok then handles
            else case load_plugin lib of None \<Rightarrow> handles | Some h \<Rightarrow> handles @ [h]))
     else Inr handles)"

definition load_dir ::
    "int \<Rightarrow> (string \<Rightarrow> string option res) \<Rightarrow> (string \<Rightarrow> (string \<times> bool) list option res) \<Rightarrow> (string \<Rightarrow> 'h option) \<Rightarrow>
     string \<Rightarrow> 'h list \<Rightarrow> 'h list res" where
  \<comment> \<open>\<open>listing\<close>: \<open>None\<close> is not a directory, a fault is what \<open>exists\<close> or \<open>directory_iterator\<close> throws\<close>
  "load_dir version content listing load_plugin dir handles =
     (if dir = [] then Inr handles
      else rbind (listing dir) (\<lambda>found.
        case found of
          None \<Rightarrow> Inr handles
        | Some entries \<Rightarrow> rfold (load_entry version content load_plugin dir) entries handles))"

definition load_kernel_plugins ::
    "int \<Rightarrow> (string \<Rightarrow> string option res) \<Rightarrow> (string \<Rightarrow> (string \<times> bool) list option res) \<Rightarrow> (string \<Rightarrow> 'h option) \<Rightarrow>
     (string \<Rightarrow> u16 \<Rightarrow> MarketplacePlugin list res) \<Rightarrow> string option \<Rightarrow> string \<Rightarrow> string \<Rightarrow> u16 \<Rightarrow> 'h list res" where
  \<comment> \<open>\<open>fetch\<close> is \<open>fetch_available_plugins\<close>, \<open>env\<close> is \<open>HARMONICS_PLUGIN_PATH\<close>\<close>
  "load_kernel_plugins version content listing load_plugin fetch env path market_host market_port =
     rbind (if market_host \<noteq> [] then fetch market_host market_port else Inr []) (\<lambda>_.
     let search = (if path = [] then (case env of None \<Rightarrow> path | Some e \<Rightarrow> e) else path) in
     if search = [] then Inr []
     else rfold (load_dir version content listing load_plugin) (split_path search []) [])"

section \<open>Lemmas\<close>

lemma is_digit_int: "is_digit c \<longleftrightarrow> 48 \<le> (of_char c :: int) \<and> (of_char c :: int) \<le> 57"
proof -
  have "(of_char c :: int) = int (of_char c)" by (simp add: of_char_def)
  then show ?thesis by (simp add: is_digit_def Let_def)
qed

lemma dec_all_digits: "c \<in> set (dec n) \<Longrightarrow> is_digit c"
  using dec_digits [of c n] by (auto simp: is_digit_int digit_char)

lemma takeWhile_digits: "s = [] \<or> \<not> is_digit (hd s) \<Longrightarrow> takeWhile is_digit (dec n @ s) = dec n"
  using dec_all_digits [of _ n] by (cases s) (auto simp: takeWhile_append)

lemma parse_manifest_number:
  assumes "data = pre @ '':'' @ sp @ mark @ dec n @ rest" and "list_all is_space sp" and "mark \<in> {[], [CHR 0x22], [CHR 0x27]}"
    and "rest = [] \<or> \<not> is_digit (hd rest)" and "int n \<le> 2147483647"
    and "find_from ''\"harmonics_version\"'' data 0 = Some p" and "find_from '':'' data p = Some (length pre)"
  shows "parse_manifest (Inr (Some data)) v = Inr (int n)"
proof -
  obtain c r where d: "dec n = c # r" by (cases "dec n") auto
  with dec_plain [of c n] dec_all_digits [of c n] have c: "\<not> is_space c" "is_digit c" by auto
  then have "c \<noteq> CHR 0x22" "c \<noteq> CHR 0x27" by (auto simp: is_digit_def)
  have q: "\<not> is_space (CHR 0x22)" "\<not> is_space (CHR 0x27)" by (simp_all add: is_space_def)
  have tw: "takeWhile is_space (sp @ mark @ dec n @ rest) = sp"
    using assms(2,3) c q d by (auto simp: takeWhile_append list_all_iff)
  let ?pos = "length pre + 1 + length sp"
  have skip: "skip_spaces data (length pre + 1) = ?pos" using tw by (simp add: skip_spaces_def assms(1))
  have dp: "drop ?pos data = mark @ dec n @ rest" by (simp add: assms(1))
  have len: "?pos < length data" using d by (simp add: assms(1))
  then have hd: "data ! ?pos = hd (mark @ dec n @ rest)" using dp by (metis hd_drop_conv_nth)
  have num: "takeWhile is_digit (drop (if data ! ?pos = CHR 0x22 \<or> data ! ?pos = CHR 0x27 then ?pos + 1 else ?pos) data) = dec n"
  proof (cases "mark = []")
    case True
    with hd d \<open>c \<noteq> CHR 0x22\<close> \<open>c \<noteq> CHR 0x27\<close>
    have "\<not> (data ! ?pos = CHR 0x22 \<or> data ! ?pos = CHR 0x27)" by simp
    then show ?thesis by (simp only: if_False dp True append_Nil takeWhile_digits [OF assms(4)])
  next
    case False
    with assms(3) obtain x where x: "mark = [x]" "x = CHR 0x22 \<or> x = CHR 0x27" by auto
    have "drop (?pos + 1) data = dec n @ rest" using x(1) by (simp add: assms(1))
    with x hd show ?thesis using takeWhile_digits [OF assms(4)] by simp
  qed
  have "atoi (dec n) = Inr (int n)" using atoi_dec [of n "[]"] assms(5) by simp
  with num len skip assms(6,7) d show ?thesis by (simp only: parse_manifest_def Let_def rbind.simps option.case) simp
qed

section \<open>What should be loaded\<close>

text \<open>The specification: a directory stands for the handles of its accepted libraries, in order.\<close>

definition accepts :: "int \<Rightarrow> (string \<Rightarrow> string option res) \<Rightarrow> string \<Rightarrow> bool" where
  \<comment> \<open>without a manifest, or without a version in it, a library is accepted\<close>
  "accepts version content lib \<longleftrightarrow> parse_manifest (content (manifest_of lib)) 0 \<in> {Inr 0, Inr version}"

definition plugins_in :: "int \<Rightarrow> (string \<Rightarrow> string option res) \<Rightarrow> (string \<Rightarrow> 'h option) \<Rightarrow> string \<Rightarrow> (string \<times> bool) list \<Rightarrow> 'h list" where
  "plugins_in version content load_plugin dir entries =
     List.map_filter (\<lambda>(name, regular). load_plugin (path_append dir name))
       (filter (\<lambda>(name, regular). regular \<and> extension name = ''.so'' \<and> accepts version content (path_append dir name)) entries)"

definition plugins_of :: "int \<Rightarrow> (string \<Rightarrow> string option res) \<Rightarrow> (string \<Rightarrow> (string \<times> bool) list option res) \<Rightarrow> (string \<Rightarrow> 'h option) \<Rightarrow> string list \<Rightarrow> 'h list" where
  "plugins_of version content listing load_plugin dirs =
     concat (map (\<lambda>dir. case listing dir of
         Inr (Some entries) \<Rightarrow> plugins_in version content load_plugin dir entries
       | _ \<Rightarrow> [])
       (filter (\<lambda>dir. dir \<noteq> []) dirs))"

lemma load_entry_eq:
  assumes "parse_manifest (content (manifest_of (path_append dir (fst e)))) 0 = Inr hv"
  shows "load_entry version content load_plugin dir e s = Inr (s @ plugins_in version content load_plugin dir [e])"
  using assms by (cases e)
    (auto simp: load_entry_def Let_def manifest_version_ok_def plugins_in_def accepts_def List.map_filter_def split: option.split)

lemma concat_plugins_in:
  "concat (map (\<lambda>e. plugins_in version content load_plugin dir [e]) es) = plugins_in version content load_plugin dir es"
  by (induction es) (auto simp: plugins_in_def List.map_filter_def)

text \<open>
  Nothing on the search path throws: directories can be listed, \<open>exists\<close> can tell
  whether there is a manifest, version numbers fit an \<open>int\<close>.
\<close>

definition readable_dir :: "(string \<Rightarrow> string option res) \<Rightarrow> (string \<Rightarrow> (string \<times> bool) list option res) \<Rightarrow> string \<Rightarrow> bool" where
  "readable_dir content listing dir \<longleftrightarrow>
     (case listing dir of
        Inl e \<Rightarrow> False
      | Inr None \<Rightarrow> True
      | Inr (Some entries) \<Rightarrow> list_all (\<lambda>(name, regular). ok (parse_manifest (content (manifest_of (path_append dir name))) 0)) entries)"

lemma load_dir_eq:
  assumes "dir \<noteq> [] \<longrightarrow> readable_dir content listing dir"
  shows "load_dir version content listing load_plugin dir s = Inr (s @ plugins_of version content listing load_plugin [dir])"
proof (cases "dir = [] \<or> listing dir = Inr None")
  case False
  with assms obtain es where es: "listing dir = Inr (Some es)" "dir \<noteq> []"
    and e: "\<forall>e\<in>set es. ok (parse_manifest (content (manifest_of (path_append dir (fst e)))) 0)"
    by (auto simp: readable_dir_def list_all_iff split_def split: sum.splits option.splits)
  have "load_entry version content load_plugin dir x s = Inr (s @ plugins_in version content load_plugin dir [x])"
    if "x \<in> set es" for x s
    using that e by (cases "parse_manifest (content (manifest_of (path_append dir (fst x)))) 0") (auto simp: load_entry_eq)
  then have "rfold (load_entry version content load_plugin dir) es s = Inr (s @ plugins_in version content load_plugin dir es)"
    by (subst rfold_extend [where g = "\<lambda>x. plugins_in version content load_plugin dir [x]"]) (simp_all add: concat_plugins_in)
  with es show ?thesis by (simp add: load_dir_def plugins_of_def)
qed (auto simp: load_dir_def plugins_of_def)

lemma concat_plugins_of:
  "concat (map (\<lambda>dir. plugins_of version content listing load_plugin [dir]) dirs) = plugins_of version content listing load_plugin dirs"
  by (induction dirs) (simp_all add: plugins_of_def)

section \<open>Properties\<close>

text \<open>
  C34: the loader loads exactly what it should: when nothing on the search path throws,
  \<open>load_kernel_plugins\<close> returns the handles of the libraries on the search path (the argument, or
  else the environment variable), directory by directory and in the order of the listings: of
  the regular files with the extension \<open>.so\<close> whose manifest passes the version check, those that
  the Harmonics loader loads. Empty components, missing directories, rejected libraries and
  libraries that fail to load are skipped and never stop the scan.
\<close>

theorem plugins_checked:
  assumes "market_host = [] \<or> ok (fetch market_host market_port)"
    and "dirs = split_path (if path = [] then (case env of None \<Rightarrow> [] | Some e \<Rightarrow> e) else path) []"
    and "\<forall>dir\<in>set dirs. dir \<noteq> [] \<longrightarrow> readable_dir content listing dir"
  shows "load_kernel_plugins version content listing load_plugin fetch env path market_host market_port =
    Inr (plugins_of version content listing load_plugin dirs)"
proof -
  obtain ps where "(if market_host \<noteq> [] then fetch market_host market_port else Inr []) = Inr ps"
    using assms(1) by (cases "market_host = []"; cases "fetch market_host market_port") auto
  moreover have "rfold (load_dir version content listing load_plugin) dirs [] = Inr ([] @ plugins_of version content listing load_plugin dirs)"
    using assms(3) by (subst rfold_extend [where g = "\<lambda>dir. plugins_of version content listing load_plugin [dir]"])
      (simp_all add: load_dir_eq concat_plugins_of)
  ultimately show ?thesis
    using assms(2) by (auto simp: load_kernel_plugins_def Let_def plugins_of_def split: option.splits)
qed

text \<open>
  Two directories, one of them missing, and a directory with an accepted library, a text file and
  a library that fails to load; another with a library whose manifest asks for a newer version.
\<close>

lemma plugins_checked_witness:
  "load_kernel_plugins 2
      (\<lambda>f. if f = ''a/plugin.json'' then Inr (Some ''{\"harmonics_version\": \"2\"}'')
           else if f = ''/c/plugin.json'' then Inr (Some ''{\"harmonics_version\": 3}'') else Inr None)
      (\<lambda>d. if d = ''a/'' then Inr (Some [(''x.so'', True), (''y.txt'', True), (''z.so'', True)])
           else if d = ''/c'' then Inr (Some [(''w.so'', True)]) else Inr None)
      (\<lambda>p. if p = ''a/z.so'' then None else Some p) (\<lambda>host port. Inr []) None ''b::a/:/c'' [] 0 = Inr [''a/x.so'']"
    (is "load_kernel_plugins 2 ?content ?listing ?load ?fetch None ?path [] 0 = _")
proof -
  have dirs: "[''b'', [], ''a/'', ''/c''] = split_path (if ?path = [] then (case None of None \<Rightarrow> [] | Some e \<Rightarrow> e) else ?path) []"
    by code_simp
  have readable: "\<forall>dir\<in>set [''b'', [], ''a/'', ''/c'']. dir \<noteq> [] \<longrightarrow> readable_dir ?content ?listing dir"
    by code_simp
  have "plugins_of 2 ?content ?listing ?load [''b'', [], ''a/'', ''/c''] = [''a/x.so'']"
    by code_simp
  then show ?thesis by (simp only: plugins_checked [OF disjI1 [OF refl] dirs readable])
qed

text \<open>
  The version check reads one number: a manifest with a version \<open>n\<close>, quoted or not, is accepted
  exactly when \<open>n\<close> is the library's version or 0; what follows the digits (a minor version) is
  ignored.
\<close>

theorem manifest_version_exact:
  assumes "data = pre @ '':'' @ sp @ mark @ dec n @ rest" and "list_all is_space sp" and "mark \<in> {[], [CHR 0x22], [CHR 0x27]}"
    and "rest = [] \<or> \<not> is_digit (hd rest)" and "int n \<le> 2147483647"
    and "find_from ''\"harmonics_version\"'' data 0 = Some p" and "find_from '':'' data p = Some (length pre)"
  shows "manifest_version_ok version (Inr (Some data)) = Inr (n = 0 \<or> int n = version)"
  using parse_manifest_number [OF assms] by (simp add: manifest_version_ok_def)

lemma manifest_version_exact_witness:
  "manifest_version_ok 2 (Inr (Some (''{\"harmonics_version\"'' @ '':'' @ '' '' @ [CHR 0x22] @ dec 3 @ ''.1\"}''))) = Inr False"
proof -
  have "manifest_version_ok 2 (Inr (Some (''{\"harmonics_version\"'' @ '':'' @ '' '' @ [CHR 0x22] @ dec 3 @ ''.1\"}''))) = Inr (3 = (0 :: nat) \<or> int 3 = 2)"
  proof (rule manifest_version_exact [OF refl])
    show "find_from ''\"harmonics_version\"'' (''{\"harmonics_version\"'' @ '':'' @ '' '' @ [CHR 0x22] @ dec 3 @ ''.1\"}'') 0 = Some 1"
      by code_simp
    show "find_from '':'' (''{\"harmonics_version\"'' @ '':'' @ '' '' @ [CHR 0x22] @ dec 3 @ ''.1\"}'') 1
        = Some (length ''{\"harmonics_version\"'')"
      by code_simp
  qed (simp_all add: is_space_def is_digit_def)
  then show ?thesis by simp
qed

end
