(* ===== verification/Aggregator_Server.thy ===== *)
theory Aggregator_Server
  imports Prelude
begin

text \<open>
  The life of the connections of \<open>ProofAggregatorServer\<close>
  (\<open>include/neuropet/proof_aggregator.hpp\<close>): starting, accepting, connecting, hanging
  up, failed sends and stopping. What the messages do is in \<open>Proof_Aggregator\<close>. The
  operating system hands out a descriptor number that is not open; which connection a number stands
  for is the ghost field \<open>opened\<close>, and \<open>handlers\<close> are the detached
  \<open>handle_client\<close> threads, each with its descriptor number and the connection it was
  started for. The constructor's port and the stop flag of a failed \<open>accept\<close> have no
  effect on this state.
\<close>

section \<open>State and operations\<close>

record agg_server =
  running :: bool
  server_fd :: "nat option"
  bound_port :: u16
  clients :: "nat list"
  accepting :: bool
  handlers :: "(nat \<times> nat) list"
  opened :: "nat \<rightharpoonup> nat"
  connections :: nat

definition fresh_server :: agg_server where
  "fresh_server = \<lparr>running = False, server_fd = None, bound_port = 0, clients = [], accepting = False,
     handlers = [], opened = Map.empty, connections = 0\<rparr>"

definition open_fd :: "nat \<Rightarrow> agg_server \<Rightarrow> agg_server" where
  "open_fd fd s = s\<lparr>opened := (opened s)(fd \<mapsto> connections s), connections := Suc (connections s)\<rparr>"

definition close_fd :: "nat \<Rightarrow> agg_server \<Rightarrow> agg_server" where
  \<comment> \<open>closing a number that is not open does nothing\<close>
  "close_fd fd s = s\<lparr>opened := (opened s)(fd := None)\<rparr>"

definition stop_server :: "agg_server \<Rightarrow> agg_server" where
  "stop_server s =
     (if \<not> running s then s
      else let s = s\<lparr>running := False\<rparr>;
               s = (case server_fd s of None \<Rightarrow> s | Some fd \<Rightarrow> (close_fd fd s)\<lparr>server_fd := None\<rparr>);
               s = s\<lparr>accepting := False\<rparr>
           in (fold close_fd (clients s) s)\<lparr>clients := []\<rparr>)"

definition start_server :: "nat option \<Rightarrow> bool \<Rightarrow> bool \<Rightarrow> u16 \<Rightarrow> agg_server \<Rightarrow> agg_server" where
  \<comment> \<open>with the answers of \<open>socket\<close>, \<open>bind\<close>, \<open>listen\<close> and \<open>getsockname\<close>\<close>
  "start_server sock bind_ok listen_ok p s =
     (let s = (stop_server s)\<lparr>running := True\<rparr> in
      case sock of
        None \<Rightarrow> s\<lparr>server_fd := None, running := False\<rparr>
      | Some fd \<Rightarrow>
          let s = (open_fd fd s)\<lparr>server_fd := Some fd\<rparr> in
          if \<not> bind_ok then (close_fd fd s)\<lparr>running := False\<rparr>
          else if \<not> listen_ok then (close_fd fd s)\<lparr>running := False\<rparr>
          else s\<lparr>bound_port := p, accepting := True\<rparr>)"

definition add_client :: "nat \<Rightarrow> agg_server \<Rightarrow> agg_server" where
  \<comment> \<open>the descriptor is registered and its thread is detached\<close>
  "add_client fd s = s\<lparr>clients := clients s @ [fd], handlers := handlers s @ [(fd, connections s - 1)]\<rparr>"

definition connect_peer :: "nat option \<Rightarrow> bool \<Rightarrow> bool \<Rightarrow> agg_server \<Rightarrow> bool \<times> agg_server" where
  \<comment> \<open>with the answers of \<open>socket\<close>, \<open>inet_pton\<close> and \<open>connect\<close>\<close>
  "connect_peer sock host_ok connect_ok s =
     (case sock of
        None \<Rightarrow> (False, s)
      | Some fd \<Rightarrow>
          let s = open_fd fd s in
          if \<not> host_ok then (False, close_fd fd s)
          else if \<not> connect_ok then (False, close_fd fd s)
          else (True, add_client fd s))"

definition accept_client :: "nat \<Rightarrow> agg_server \<Rightarrow> agg_server" where
  "accept_client fd s = add_client fd (open_fd fd s)"

definition handler_end :: "nat \<Rightarrow> nat \<Rightarrow> agg_server \<Rightarrow> agg_server" where
  \<comment> \<open>the thread of connection \<open>k\<close> leaves its loop: it closes the number it was started with\<close>
  "handler_end fd k s =
     (let s = s\<lparr>clients := filter (\<lambda>c. c \<noteq> fd) (clients s)\<rparr>
      in (close_fd fd s)\<lparr>handlers := remove1 (fd, k) (handlers s)\<rparr>)"

definition broadcast_send :: "(nat \<Rightarrow> bool) \<Rightarrow> agg_server \<Rightarrow> agg_server" where
  \<comment> \<open>\<open>sent\<close> tells the descriptors on which \<open>send_proof\<close> succeeds; the others are closed and erased\<close>
  "broadcast_send sent s =
     (fold close_fd (filter (\<lambda>c. \<not> sent c) (clients s)) s)\<lparr>clients := filter sent (clients s)\<rparr>"

section \<open>Runs\<close>

datatype agg_event =
    Accept nat
  | Connect "nat option" bool bool
  | Hang_Up nat nat
  | Broadcast "nat list"
  | Start "nat option" bool bool u16
  | Stop

inductive agg_step :: "agg_event \<Rightarrow> agg_server \<Rightarrow> agg_server \<Rightarrow> bool" where
  accept: "running s \<Longrightarrow> opened s fd = None \<Longrightarrow> agg_step (Accept fd) s (accept_client fd s)"
| connect: "(\<And>fd. sock = Some fd \<Longrightarrow> opened s fd = None) \<Longrightarrow>
    agg_step (Connect sock h c) s (snd (connect_peer sock h c s))"
| hang_up: "(fd, k) \<in> set (handlers s) \<Longrightarrow> agg_step (Hang_Up fd k) s (handler_end fd k s)"
| broadcast: "agg_step (Broadcast failing) s (broadcast_send (\<lambda>c. c \<notin> set failing) s)"
| start: "(\<And>fd. sock = Some fd \<Longrightarrow> opened (stop_server s) fd = None) \<Longrightarrow>
    agg_step (Start sock b l p) s (start_server sock b l p s)"
| stop: "agg_step Stop s (stop_server s)"

inductive_cases agg_stepE: "agg_step e s t"
inductive_simps agg_step_simps: "agg_step (Accept fd) s t" "agg_step (Hang_Up fd k) s t" "agg_step (Broadcast ds) s t"
  "agg_step Stop s t" "agg_step (Start sock b l p) s t" "agg_step (Connect sock h c) s t"

fun agg_run :: "agg_event list \<Rightarrow> agg_server \<Rightarrow> agg_server \<Rightarrow> bool" where
  "agg_run [] s t \<longleftrightarrow> t = s"
| "agg_run (e # es) s t \<longleftrightarrow> (\<exists>u. agg_step e s u \<and> agg_run es u t)"

fun calm :: "agg_event \<Rightarrow> bool" where
  "calm (Broadcast failing) = (failing = [])"
| "calm (Start sock b l p) = False"
| "calm Stop = False"
| "calm _ = True"

section \<open>Isolation of connections\<close>

definition isolated :: "agg_server \<Rightarrow> bool" where
  \<comment> \<open>one thread per client, and every descriptor in use still stands for the connection it was opened for\<close>
  "isolated s \<longleftrightarrow> clients s = map fst (handlers s) \<and> distinct (map fst (handlers s)) \<and>
     (\<forall>fd k. (fd, k) \<in> set (handlers s) \<longrightarrow> opened s fd = Some k) \<and>
     (\<forall>fd. server_fd s = Some fd \<and> running s \<longrightarrow> fd \<notin> fst ` set (handlers s) \<and> fd \<in> dom (opened s)) \<and>
     (\<forall>k\<in>ran (opened s). k < connections s)"

lemma fold_close [simp]:
  "fold close_fd fds s = s\<lparr>opened := (\<lambda>fd. if fd \<in> set fds then None else opened s fd)\<rparr>"
  by (induction fds arbitrary: s) (auto simp: close_fd_def fun_eq_iff)

lemma isolatedD:
  assumes "isolated s"
  shows "clients s = map fst (handlers s)" and "distinct (map fst (handlers s))"
    and "(fd, k) \<in> set (handlers s) \<Longrightarrow> opened s fd = Some k"
    and "server_fd s = Some fd \<Longrightarrow> running s \<Longrightarrow> fd \<notin> fst ` set (handlers s) \<and> fd \<in> dom (opened s)"
    and "opened s fd = Some k \<Longrightarrow> k < connections s"
  using assms by (simp_all add: isolated_def ranI)

lemma isolatedI:
  assumes "clients s = map fst (handlers s)" and "distinct (map fst (handlers s))"
    and "\<And>fd k. (fd, k) \<in> set (handlers s) \<Longrightarrow> opened s fd = Some k"
    and "\<And>fd. server_fd s = Some fd \<Longrightarrow> running s \<Longrightarrow> fd \<notin> fst ` set (handlers s) \<and> fd \<in> dom (opened s)"
    and "\<And>fd k. opened s fd = Some k \<Longrightarrow> k < connections s"
  shows "isolated s"
  using assms by (simp add: isolated_def ran_def) blast

lemma remove1_handler:
  "distinct (map fst hs) \<Longrightarrow> (fd, k) \<in> set hs \<Longrightarrow> map fst (remove1 (fd, k) hs) = filter (\<lambda>c. c \<noteq> fd) (map fst hs)"
proof (induction hs)
  case (Cons h hs)
  have "filter (\<lambda>c. c \<noteq> fd) (map fst hs) = map fst hs" if "fd \<notin> fst ` set hs"
    using that by (auto simp: filter_id_conv)
  with Cons show ?case by (force simp: rev_image_eqI)
qed simp

lemma unused_fd: "isolated s \<Longrightarrow> opened s fd = None \<Longrightarrow> fd \<notin> fst ` set (handlers s)"
  using isolatedD(3) by fastforce

lemma add_isolated:
  assumes "isolated s" and "opened s fd = None"
  shows "isolated (add_client fd (open_fd fd s))"
proof (rule isolatedI)
  note d = isolatedD [OF assms(1)] and u = unused_fd [OF assms]
  show "clients (add_client fd (open_fd fd s)) = map fst (handlers (add_client fd (open_fd fd s)))"
    by (simp add: add_client_def open_fd_def d(1))
  show "distinct (map fst (handlers (add_client fd (open_fd fd s))))"
    using d(2) u by (simp add: add_client_def open_fd_def)
  show "opened (add_client fd (open_fd fd s)) c = Some k" if "(c, k) \<in> set (handlers (add_client fd (open_fd fd s)))" for c k
    using that d(3) u by (force simp: add_client_def open_fd_def)
  show "c \<notin> fst ` set (handlers (add_client fd (open_fd fd s))) \<and> c \<in> dom (opened (add_client fd (open_fd fd s)))"
    if "server_fd (add_client fd (open_fd fd s)) = Some c" "running (add_client fd (open_fd fd s))" for c
    using that d(4) [of c] assms(2) by (auto simp: add_client_def open_fd_def)
  show "k < connections (add_client fd (open_fd fd s))" if "opened (add_client fd (open_fd fd s)) c = Some k" for c k
    using that d(5) [of c k] by (auto simp: add_client_def open_fd_def split: if_splits)
qed

lemma open_close: "opened s fd = None \<Longrightarrow> isolated s \<Longrightarrow> isolated (close_fd fd (open_fd fd s))"
  by (rule isolatedI; use isolatedD [of s] unused_fd [of s fd] in
      \<open>force simp: close_fd_def open_fd_def less_Suc_eq split: if_splits\<close>)

lemma handler_end_isolated:
  assumes "isolated s" and h: "(fd, k) \<in> set (handlers s)"
  shows "isolated (handler_end fd k s)"
proof (rule isolatedI)
  note d = isolatedD [OF assms(1)]
  have r: "map fst (remove1 (fd, k) (handlers s)) = filter (\<lambda>c. c \<noteq> fd) (map fst (handlers s))"
    by (rule remove1_handler [OF d(2) h])
  then have s: "fst ` set (remove1 (fd, k) (handlers s)) = {c \<in> fst ` set (handlers s). c \<noteq> fd}"
    by (metis list.set_map set_filter)
  show "clients (handler_end fd k s) = map fst (handlers (handler_end fd k s))"
    by (simp add: handler_end_def close_fd_def Let_def d(1) r)
  show "distinct (map fst (handlers (handler_end fd k s)))"
    using d(2) by (simp add: handler_end_def close_fd_def Let_def r)
  show "opened (handler_end fd k s) c = Some l" if "(c, l) \<in> set (handlers (handler_end fd k s))" for c l
  proof -
    have m: "(c, l) \<in> set (remove1 (fd, k) (handlers s))" using that by (simp add: handler_end_def close_fd_def Let_def)
    then have "c \<noteq> fd" using s by force
    moreover have "(c, l) \<in> set (handlers s)" using m by (meson notin_set_remove1)
    ultimately show ?thesis using d(3) by (simp add: handler_end_def close_fd_def Let_def)
  qed
  show "c \<notin> fst ` set (handlers (handler_end fd k s)) \<and> c \<in> dom (opened (handler_end fd k s))"
    if "server_fd (handler_end fd k s) = Some c" "running (handler_end fd k s)" for c
    using that d(4) [of c] h s by (force simp: handler_end_def close_fd_def Let_def)
  show "l < connections (handler_end fd k s)" if "opened (handler_end fd k s) c = Some l" for c l
    using that d(5) [of c l] by (auto simp: handler_end_def close_fd_def Let_def split: if_splits)
qed

lemma calm_step: "agg_step e s t \<Longrightarrow> calm e \<Longrightarrow> isolated s \<Longrightarrow> isolated t"
proof (induction rule: agg_step.induct)
  case (connect sock s h c)
  then show ?case by (auto simp: connect_peer_def Let_def add_isolated open_close split: option.split)
next
  case (broadcast failing s)
  then have "broadcast_send (\<lambda>c. c \<notin> set failing) s = s" by (simp add: broadcast_send_def)
  with broadcast show ?case by simp
qed (simp_all add: accept_client_def add_isolated handler_end_isolated)

lemma calm_run: "agg_run es s t \<Longrightarrow> list_all calm es \<Longrightarrow> isolated s \<Longrightarrow> isolated t"
  by (induction es arbitrary: s) (auto dest: calm_step)

section \<open>Properties\<close>

lemma started_isolated: "isolated (start_server (Some fd) True True p fresh_server)"
  by (simp add: isolated_def start_server_def stop_server_def fresh_server_def open_fd_def)

text \<open>
  C36: As long as no send fails and nobody stops or restarts it, a started server keeps its
  connections apart: every client has exactly one thread, no descriptor number is used twice, and
  each thread holds the connection it was started for.
\<close>

theorem server_isolated:
  assumes "agg_run es (start_server (Some fd) True True p fresh_server) s" and "list_all calm es"
  shows "clients s = map fst (handlers s) \<and> distinct (clients s) \<and> list_all (\<lambda>(fd, k). opened s fd = Some k) (handlers s)"
  using isolatedD [OF calm_run [OF assms started_isolated]] by (auto simp: list_all_iff)

lemma server_isolated_witness:
  "let s = handler_end 4 1 (accept_client 5 (accept_client 4 (start_server (Some 3) True True 80 fresh_server)))
   in clients s = map fst (handlers s) \<and> distinct (clients s) \<and> list_all (\<lambda>(fd, k). opened s fd = Some k) (handlers s)"
proof -
  have "agg_run [Accept 4, Accept 5, Hang_Up 4 1] (start_server (Some 3) True True 80 fresh_server)
      (handler_end 4 1 (accept_client 5 (accept_client 4 (start_server (Some 3) True True 80 fresh_server))))"
    by (simp add: agg_step_simps) (simp add: accept_client_def add_client_def open_fd_def start_server_def stop_server_def fresh_server_def)
  then show ?thesis unfolding Let_def by (rule server_isolated) simp
qed

text \<open>
  One failed send can cut off a stranger: \<open>broadcast\<close> closes the descriptor of a client and leaves
  its thread, which closes the number again when it ends. When the number was given to a new
  client in between, that client is closed and forgotten while its own thread still waits on it.
\<close>

theorem failed_send_closes_stranger:
  assumes "isolated s" and "running s" and "(fd, k) \<in> set (handlers s)"
  shows "\<exists>t. agg_run [Broadcast [fd], Accept fd, Hang_Up fd k] s t \<and>
    (fd, connections s) \<in> set (handlers t) \<and> k \<noteq> connections s \<and> opened t fd = None \<and> fd \<notin> set (clients t)"
proof -
  note d = isolatedD [OF assms(1)]
  let ?b = "broadcast_send (\<lambda>c. c \<notin> set [fd]) s"
  have b: "running ?b" "opened ?b fd = None" "(fd, k) \<in> set (handlers ?b)" "connections ?b = connections s"
    using assms d(1) by (force simp: broadcast_send_def)+
  have k: "k < connections s" using d(5) [OF d(3) [OF assms(3)]] .
  have m: "(fd, connections s) \<in> set (remove1 (fd, k) (handlers (accept_client fd ?b)))"
  proof -
    have "(fd, connections s) \<in> set (handlers (accept_client fd ?b))"
      using b(4) by (simp add: accept_client_def add_client_def open_fd_def)
    then show ?thesis using k by simp
  qed
  have "agg_run [Broadcast [fd], Accept fd, Hang_Up fd k] s (handler_end fd k (accept_client fd ?b))"
    using b by (simp add: agg_step_simps) (simp add: accept_client_def add_client_def open_fd_def)
  moreover have "(fd, connections s) \<in> set (handlers (handler_end fd k (accept_client fd ?b)))"
    using m by (simp add: handler_end_def close_fd_def Let_def)
  moreover have "opened (handler_end fd k (accept_client fd ?b)) fd = None" "fd \<notin> set (clients (handler_end fd k (accept_client fd ?b)))"
    by (simp_all add: handler_end_def close_fd_def Let_def)
  ultimately show ?thesis using k by blast
qed

lemma failed_send_closes_stranger_witness:
  "\<exists>t. agg_run [Broadcast [4], Accept 4, Hang_Up 4 1]
      (accept_client 4 (start_server (Some 3) True True 80 fresh_server)) t \<and>
    (4, 2) \<in> set (handlers t) \<and> (1 :: nat) \<noteq> 2 \<and> opened t 4 = None \<and> 4 \<notin> set (clients t)"
proof -
  let ?s = "accept_client 4 (start_server (Some 3) True True 80 fresh_server)"
  have e: "start_server (Some 3) True True 80 fresh_server = \<lparr>running = True, server_fd = Some 3, bound_port = 80,
      clients = [], accepting = True, handlers = [], opened = [3 \<mapsto> 0], connections = 1\<rparr>"
    by (simp add: start_server_def stop_server_def fresh_server_def open_fd_def)
  have "isolated ?s" unfolding accept_client_def by (rule add_isolated [OF started_isolated]) (simp add: e)
  moreover have "running ?s" "(4, 1) \<in> set (handlers ?s)" "connections ?s = 2"
    by (simp_all add: e accept_client_def add_client_def open_fd_def)
  ultimately show ?thesis using failed_send_closes_stranger [of ?s 4 1] by simp
qed

text \<open>
  Stopping a running server closes its listening socket and all its clients, registered before
  or after; stopping it again, or destroying it, does nothing more.
\<close>

theorem stop_closes_all:
  assumes "running s"
  shows "clients (stop_server s) = [] \<and> server_fd (stop_server s) = None \<and> \<not> running (stop_server s) \<and>
    dom (opened (stop_server s)) = dom (opened s) - set (clients s) - set_option (server_fd s) \<and>
    stop_server (stop_server s) = stop_server s"
  using assms by (cases "server_fd s") (auto simp: stop_server_def close_fd_def Let_def split: if_splits)

text \<open>
  A server that could not bind its port leaks: the peers it connects to afterwards are registered
  and served, and neither \<open>stop\<close> nor the destructor closes them.
\<close>

theorem failed_start_leaks:
  assumes "opened s c = None" and "\<not> running s"
  shows "let t = snd (connect_peer (Some c) True True (start_server (Some fd) False l p s))
    in c \<in> set (clients t) \<and> stop_server t = t \<and> opened (stop_server t) c \<noteq> None"
  using assms by (simp add: connect_peer_def start_server_def stop_server_def add_client_def open_fd_def close_fd_def Let_def)

end
