(* ===== verification/Tools.thy ===== *)
theory Tools
  imports Proof_Aggregator Aggregator_Server Simulation Bridge_Cli
begin

text \<open>
  The remaining command-line programs under \<open>tools/\<close>: the proof tool, the two cache tools, the
  simulation and the aggregator server. Each is the function of its arguments and of what it finds
  outside; the result is the exit code with what it printed, or the exception that ends it.
\<close>

section \<open>Proof tool\<close>

datatype proof_output = Proof_Usage | Cannot_Open string | Proof_Lines StarkProof | Submitted bool

definition proof_main ::
    "(tensors \<Rightarrow> StarkProof res) \<Rightarrow> (string \<Rightarrow> u8 list option) \<Rightarrow> (string \<Rightarrow> u16 \<Rightarrow> string \<Rightarrow> bool) \<Rightarrow> string list \<Rightarrow>
     (int \<times> proof_output list) res" where
  \<comment> \<open>\<open>gen\<close> is the prover, \<open>post host port\<close> the HTTP request of \<open>OnchainProofVerifier\<close>\<close>
  "proof_main gen file post argv =
     (if length argv < 2 then Inr (1, [Proof_Usage])
      else case file (argv ! 1) of
          None \<Rightarrow> Inr (1, [Cannot_Open (argv ! 1)])
        | Some bytes \<Rightarrow>
            rbind (generate_stark_proof gen (new_validator 3 False) [map ucast bytes]) (\<lambda>(p, v).
            if length argv = 5 \<and> argv ! 2 = ''--submit'' then
              let (host, ps) = split_hostport (argv ! 3) in
              rbind (stoi ps) (\<lambda>port.
              Inr (0, [Proof_Lines p, Submitted (verifier_submit_proof (post host (word_of_int port)) (argv ! 4) (root p) (proof_field p))]))
            else Inr (0, [Proof_Lines p])))"

section \<open>Cache tools\<close>

type_synonym tree = "(string \<times> bool) list"  \<comment> \<open>paths, and whether they are directories\<close>

datatype cache_output = Cache_Usage | Not_Found string | Cache_Entry string | Removed string | Unknown_Command string

definition join_path :: "string \<Rightarrow> string \<Rightarrow> string" where
  "join_path dir name = (if dir = [] \<or> last dir = CHR ''/'' then dir @ name else dir @ ''/'' @ name)"

definition inside :: "string \<Rightarrow> string \<Rightarrow> bool" where
  "inside dir p \<longleftrightarrow> (let d = join_path dir [] in take (length d) p = d \<and> length d < length p)"

definition children :: "string \<Rightarrow> tree \<Rightarrow> string list" where
  "children dir t = filter (\<lambda>p. inside dir p \<and> CHR ''/'' \<notin> set (drop (length (join_path dir [])) p)) (map fst t)"

definition remove_all :: "string \<Rightarrow> tree \<Rightarrow> tree" where
  "remove_all dir t = filter (\<lambda>(p, is_dir). p \<noteq> dir \<and> \<not> inside dir p) t"

definition cache_command :: "string \<Rightarrow> string \<Rightarrow> tree \<Rightarrow> (int \<times> cache_output list \<times> tree) res" where
  "cache_command cache_dir cmd t =
     (if cmd = ''list'' then
        (case map_of t cache_dir of
           None \<Rightarrow> Inr (0, [Not_Found cache_dir], t)
         | Some is_dir \<Rightarrow> if \<not> is_dir then Inl (Thrown ''filesystem_error'') else Inr (0, map Cache_Entry (children cache_dir t), t))
      else if cmd = ''clear'' then
        (case map_of t cache_dir of
           None \<Rightarrow> Inr (0, [Not_Found cache_dir], t)
         | Some is_dir \<Rightarrow> Inr (0, [Removed cache_dir], remove_all cache_dir t))
      else Inr (1, [Unknown_Command cmd], t))"

definition cache_main :: "string option \<Rightarrow> string list \<Rightarrow> tree \<Rightarrow> (int \<times> cache_output list \<times> tree) res" where
  \<comment> \<open>\<open>env\<close> is \<open>HARMONICS_CACHE_DIR\<close>\<close>
  "cache_main env argv t =
     (if length argv < 2 then Inr (1, [Cache_Usage], t)
      else cache_command (case env of None \<Rightarrow> ''.harmonics/cache'' | Some d \<Rightarrow> d) (argv ! 1) t)"

definition graph_cache_main :: "string option \<Rightarrow> string list \<Rightarrow> tree \<Rightarrow> (int \<times> cache_output list \<times> tree) res" where
  "graph_cache_main env argv t =
     (if length argv < 2 then Inr (1, [Cache_Usage], t)
      else cache_command (join_path (case env of None \<Rightarrow> ''.harmonics/cache'' | Some d \<Rightarrow> d) ''kernels'') (argv ! 1) t)"

section \<open>Simulation tool\<close>

definition number_arg :: "string list \<Rightarrow> nat \<Rightarrow> u64 \<Rightarrow> u64 res" where
  "number_arg argv k dflt = (if length argv > k then stoul (argv ! k) else Inr dflt)"

definition battle_line :: "MatchResult \<Rightarrow> string" where
  "battle_line r = ''Battle '' @ dec (unat (battle_id r)) @ '': winner='' @ dec (unat (winner r)) @ '' loser='' @ dec (unat (loser r))"

definition simulation_main ::
    "nat \<Rightarrow> 't graph_fit \<Rightarrow> 'g generator \<Rightarrow> (u32 \<Rightarrow> 'g) \<Rightarrow> u32 \<Rightarrow> string list \<Rightarrow> string list res option" where
  \<comment> \<open>\<open>seeded\<close> is the constructor of the generator, \<open>entropy\<close> the draw of the random device\<close>
  "simulation_main fuel trainer R seeded entropy argv =
     continue_with (Some (
       rbind (number_arg argv 1 5) (\<lambda>creatures. rbind (number_arg argv 2 5) (\<lambda>steps.
       rbind (number_arg argv 3 3) (\<lambda>battles. rbind (number_arg argv 4 0) (\<lambda>seed.
       Inr (unat creatures, unat steps, unat battles, ucast seed :: u32))))))) (\<lambda>(creatures, steps, battles, seed).
     continue_with (run_simulation fuel trainer R creatures steps battles new_ledger
         (seeded (if seed \<noteq> 0 then seed else entropy))) (\<lambda>(l, g).
     Some (Inr (map battle_line (results l)))))"

section \<open>Aggregator server\<close>

fun aggregator_args :: "string list \<Rightarrow> u16 \<Rightarrow> int \<Rightarrow> (string \<times> u16) list \<Rightarrow> (u16 \<times> int \<times> (string \<times> u16) list) option res" where
  \<comment> \<open>port, seconds between statistics, peers; \<open>None\<close> is the usage message\<close>
  "aggregator_args [] port stats nodes = Inr (Some (port, stats, nodes))"
| "aggregator_args [a] port stats nodes = Inr None"
| "aggregator_args (a # b # rest) port stats nodes =
     (if a = ''--port'' then rbind (stoi b) (\<lambda>p. aggregator_args rest (word_of_int p) stats nodes)
      else if a = ''--connect'' then
        (case find_from '':'' b 0 of
           None \<Rightarrow> Inr None
         | Some pos \<Rightarrow> rbind (stoi (drop (pos + 1) b)) (\<lambda>p. aggregator_args rest port stats (nodes @ [(take pos b, word_of_int p)])))
      else if a = ''--stats'' then rbind (stoi b) (\<lambda>s. aggregator_args rest port s nodes)
      else Inr None)"

record agg_os =
  allocate :: "(nat \<rightharpoonup> nat) \<Rightarrow> nat option"
  binds :: "u16 \<Rightarrow> u16 option"
  parses_host :: "string \<Rightarrow> bool"
  answers :: "string \<Rightarrow> u16 \<Rightarrow> bool"

definition aggregator_boot :: "agg_os \<Rightarrow> u16 \<Rightarrow> (string \<times> u16) list \<Rightarrow> agg_server" where
  \<comment> \<open>\<open>start\<close> and the connections, up to the endless loop that prints statistics\<close>
  "aggregator_boot os port nodes =
     fold (\<lambda>(host, p) s. snd (connect_peer (allocate os (opened s)) (parses_host os host) (answers os host p) s)) nodes
       (start_server (allocate os (opened fresh_server)) (binds os port \<noteq> None) True
          (case binds os port of None \<Rightarrow> 0 | Some p \<Rightarrow> p) fresh_server)"

record console =
  slept :: "int list"
  printed :: "string list"
  srv :: agg_server

definition handle_sigint :: "agg_server option \<Rightarrow> agg_server option" where
  "handle_sigint server = map_option stop_server server"

definition stats_line :: "net_stats \<Rightarrow> string" where
  "stats_line st = ''[stats] sent='' @ dec (unat (proofs_sent st)) @ '' recv='' @ dec (unat (proofs_received st)) @
     '' bytes_sent='' @ dec (unat (bytes_sent st)) @ '' bytes_recv='' @ dec (unat (bytes_received st))"

definition stats_tick :: "bool \<Rightarrow> net_stats \<Rightarrow> int \<Rightarrow> console \<Rightarrow> console" where
  \<comment> \<open>one turn of the loop, during whose sleep the process is interrupted or not\<close>
  "stats_tick interrupted st interval c =
     \<lparr>slept = slept c @ [if interval > 0 then interval else 1],
      printed = printed c @ (if interval > 0 then [stats_line st] else []),
      srv = (if interrupted then the (handle_sigint (Some (srv c))) else srv c)\<rparr>"

partial_function (option) stats_loop ::
    "(nat \<Rightarrow> bool) \<Rightarrow> (nat \<Rightarrow> net_stats) \<Rightarrow> int \<Rightarrow> nat \<Rightarrow> console \<Rightarrow> console option" where
  \<comment> \<open>\<open>while (true)\<close>: which sleeps are interrupted, and the counters after each\<close>
  "stats_loop interrupts st interval k c =
     stats_loop interrupts st interval (Suc k) (stats_tick (interrupts k) (st k) interval c)"

definition aggregator_main ::
    "agg_os \<Rightarrow> (nat \<Rightarrow> bool) \<Rightarrow> (nat \<Rightarrow> net_stats) \<Rightarrow> string list \<Rightarrow> int res option" where
  \<comment> \<open>the exit code; \<open>None\<close> when the program does not return\<close>
  "aggregator_main os interrupts st argv =
     continue_with (Some (aggregator_args (drop 1 argv) 0 0 [])) (\<lambda>cfg.
       case cfg of
         None \<Rightarrow> Some (Inr 1)
       | Some (port, interval, nodes) \<Rightarrow>
           map_option (\<lambda>_. Inr 0) (stats_loop interrupts st interval 0
             \<lparr>slept = [], printed = [], srv = aggregator_boot os port nodes\<rparr>))"

section \<open>Lemmas\<close>

lemma map_of_remove_all: "map_of (remove_all dir t) p = (if p = dir \<or> inside dir p then None else map_of t p)"
  by (induction t) (auto simp: remove_all_def)

lemma generate_loss:
  "generate_stark_proof (zk_generate fp zgen) v [bytes] = Inr (p, v') \<Longrightarrow> loss p = f_zero"
  by (auto simp: generate_stark_proof_def zk_generate_def compute_loss_def Let_def res_simps)

lemma stoi_port: "stoi (dec (unat (p :: u16))) = Inr (int (unat p))"
proof -
  have "stoi (dec n) = Inr (int n)" if "n < 2 ^ 16" for n
    using that by (simp add: stoi_def parse_number_dec in_i32_def)
  moreover have "unat p < 2 ^ 16" using unsigned_less [of p, where ?'a = nat] by simp
  ultimately show ?thesis by blast
qed

lemma aggregator_args_connects:
  assumes "list_all (\<lambda>(h, p). CHR '':'' \<notin> set h) ps"
  shows "aggregator_args (concat (map (\<lambda>(h, p). [''--connect'', h @ '':'' @ dec (unat p)]) ps) @ rest) port stats nodes =
    aggregator_args rest port stats (nodes @ ps)"
  using assms
proof (induction ps arbitrary: nodes)
  case (Cons x ps)
  obtain h p where x: "x = (h, p)" by fastforce
  have "find_from '':'' (h @ '':'' @ dec (unat p)) 0 = Some (length h)"
    using Cons.prems x find_in_skip [of "CHR '':''" h "dec (unat p)" 0] by (simp add: find_from_def)
  then show ?case using Cons x stoi_port [of p] by simp
qed simp

definition alloc_contract :: "agg_os \<Rightarrow> bool" where
  \<comment> \<open>a new descriptor is not in use\<close>
  "alloc_contract os \<longleftrightarrow> (\<forall>m fd. allocate os m = Some fd \<longrightarrow> m fd = None)"

lemma start_isolated: "isolated (start_server sock b l p fresh_server)"
  by (cases sock) (auto simp: isolated_def start_server_def stop_server_def fresh_server_def open_fd_def close_fd_def Let_def)

lemma connects_isolated:
  assumes "alloc_contract os"
  shows "isolated s \<Longrightarrow>
    isolated (fold (\<lambda>(host, p) s. snd (connect_peer (allocate os (opened s)) (parses_host os host) (answers os host p) s)) ps s)"
proof (induction ps arbitrary: s)
  case (Cons x ps)
  obtain h p where x: "x = (h, p)" by fastforce
  have "isolated (snd (connect_peer (allocate os (opened s)) (parses_host os h) (answers os h p) s))"
    by (rule calm_step [OF agg_step.connect _ Cons.prems]) (use assms in \<open>auto simp: alloc_contract_def\<close>)
  then show ?case using Cons.IH x by simp
qed simp

lemma stats_loop_diverges: "stats_loop interrupts st interval k c = None"
proof -
  have "stats_loop interrupts st interval k c = Some d \<Longrightarrow> False" for d
    by (erule stats_loop.raw_induct [rotated]) blast
  then show ?thesis by (cases "stats_loop interrupts st interval k c") auto
qed

definition ticks :: "(nat \<Rightarrow> bool) \<Rightarrow> (nat \<Rightarrow> net_stats) \<Rightarrow> int \<Rightarrow> nat \<Rightarrow> console \<Rightarrow> console" where
  \<comment> \<open>the first \<open>n\<close> turns\<close>
  "ticks interrupts st interval n c = fold (\<lambda>k. stats_tick (interrupts k) (st k) interval) [0..<n] c"

lemma stop_server_stops: "\<not> running (stop_server s)"
proof -
  have "running (fold close_fd cs s) = running s" for cs and s :: agg_server
    by (induction cs arbitrary: s) (auto simp: close_fd_def)
  then show ?thesis by (auto simp: stop_server_def Let_def close_fd_def split: option.split)
qed

lemma ticks_stopped: "\<not> running (srv c) \<Longrightarrow> \<not> running (srv (ticks interrupts st interval n c))"
  by (induction n) (auto simp: ticks_def stats_tick_def handle_sigint_def stop_server_stops)

section \<open>Properties\<close>

text \<open>
  The proof tool proves nothing about training: it hands the prover one tensor, for which the
  loss is defined as 0, so every file gets a proof of loss 0; and its exit code is 0 whether the
  submission succeeded or not.
\<close>

theorem proof_tool_loss_zero:
  assumes "file (argv ! 1) = Some bytes" and "2 \<le> length argv" and "proof_main (zk_generate fp zgen) file post argv = Inr (code, out)"
  shows "code = 0 \<and> (\<exists>p more. out = Proof_Lines p # more \<and> loss p = f_zero)"
  using assms
  by (auto simp: proof_main_def res_simps Let_def split: if_splits prod.splits dest: generate_loss)

text \<open>
  Clearing a cache removes it and nothing else: afterwards it is not found, and every path that is
  not inside it is as before.
\<close>

theorem cache_clear_frame:
  assumes "map_of t dir = Some is_dir"
  shows "\<exists>t'. cache_command dir ''clear'' t = Inr (0, [Removed dir], t') \<and>
    cache_command dir ''list'' t' = Inr (0, [Not_Found dir], t') \<and>
    (\<forall>p. map_of t' p = (if p = dir \<or> inside dir p then None else map_of t p))"
  using assms by (simp add: cache_command_def map_of_remove_all)

text \<open>
  The aggregator server reads back its command line: a port, a statistics interval and any list
  of peers whose hosts have no colon are parsed to themselves.
\<close>

theorem aggregator_args_roundtrip:
  assumes "list_all (\<lambda>(h, p). CHR '':'' \<notin> set h) ps" and "n \<le> 2147483647"
  shows "aggregator_args ([''--port'', dec (unat port)] @ concat (map (\<lambda>(h, p). [''--connect'', h @ '':'' @ dec (unat p)]) ps) @
    [''--stats'', dec n]) 0 0 [] = Inr (Some (port, int n, ps))"
proof -
  have "stoi (dec n) = Inr (int n)" using assms(2) by (simp add: stoi_def parse_number_dec in_i32_def)
  then show ?thesis using stoi_port [of port] aggregator_args_connects [OF assms(1), of "[''--stats'', dec n]"] by simp
qed

text \<open>
  The server boots isolated: whatever the operating system answers, as long as it hands out unused
  descriptors, after start and all connections each client has one thread and its own descriptor.
\<close>

theorem aggregator_boot_isolated:
  assumes "alloc_contract os"
  shows "isolated (aggregator_boot os port nodes)"
  unfolding aggregator_boot_def
proof (rule connects_isolated [OF assms])
  show "isolated (start_server (allocate os (opened fresh_server)) (binds os port \<noteq> None) True
      (case binds os port of None \<Rightarrow> 0 | Some p \<Rightarrow> p) fresh_server)"
    by (rule start_isolated)
qed

text \<open>
  The aggregator server never returns once its arguments are read, also when it is interrupted: the
  handler stops the server, and the loop goes on. After the first interrupt the process keeps
  printing its counters without accepting or connecting to anyone.
\<close>

theorem aggregator_never_returns:
  assumes "aggregator_args (drop 1 argv) 0 0 [] = Inr (Some cfg)"
  shows "aggregator_main os interrupts st argv = None \<and>
    (\<forall>k n interval c. interrupts k \<and> k < n \<longrightarrow> \<not> running (srv (ticks interrupts st interval n c)) \<and>
       length (slept (ticks interrupts st interval n c)) = length (slept c) + n)"
proof -
  have "aggregator_main os interrupts st argv = None"
    using assms by (cases cfg) (simp add: aggregator_main_def stats_loop_diverges)
  moreover have "\<not> running (srv (ticks interrupts st interval n c))" if "interrupts k" "k < n" for k n interval c
    using that(2)
  proof (induction n)
    case (Suc n)
    with that(1) show ?case
      by (cases "k = n") (auto simp: ticks_def stats_tick_def handle_sigint_def stop_server_stops)
  qed simp
  moreover have "length (slept (ticks interrupts st interval n c)) = length (slept c) + n" for n interval c
    by (induction n) (simp_all add: ticks_def stats_tick_def)
  ultimately show ?thesis by blast
qed

text \<open>
  The simulation tool prints what happened: for counts that a generator and training can serve, it
  prints one line per battle, each naming two different creatures of the simulation.
\<close>

theorem simulation_tool_lines:
  assumes "rng_contract R" and "2 \<le> n" and "n < 2 ^ 32" and "s < 2 ^ 64" and "b < 2 ^ 64"
    and "fit_contract (trainer training_graph (ConstProducer f_one) (ConstProducer f_zero) learning_rate) norms"
  shows "\<exists>F rs. (\<forall>fuel\<ge>F. simulation_main fuel trainer R seeded entropy [prog, dec n, dec s, dec b] = Some (Inr (map battle_line rs))) \<and>
    length rs = b \<and> list_all (sensible n) rs"
proof -
  have u: "stoul (dec k) = Inr (of_nat k)" "unat (of_nat k :: u64) = k" if "k < 2 ^ 64" for k
    using that by (simp_all add: stoul_def parse_number_dec unsigned_of_nat take_bit_nat_eq_self)
  obtain F l g rs where "\<forall>fuel\<ge>F. run_simulation fuel trainer R n s b new_ledger (seeded entropy) = Some (Inr (l, g))"
      and rs: "results l = results new_ledger @ rs" "length rs = b" "list_all (sensible n) rs"
    using run_simulation_ok [OF assms(1-3), of trainer norms s b new_ledger "seeded entropy"] assms(6) by blast
  then have "\<forall>fuel\<ge>F. simulation_main fuel trainer R seeded entropy [prog, dec n, dec s, dec b] = Some (Inr (map battle_line rs))"
    using u(1,2) [of n] u(1,2) [of s] u(1,2) [of b] assms(3-5)
    by (auto simp: simulation_main_def number_arg_def new_ledger_def)
  with rs show ?thesis by blast
qed

end
