(* ===== verification/Spec2Isabelle.thy ===== *)
theory Spec2Isabelle
  imports Battle Battle_Animation Match_History Simulation Hatching Traits Eth_Encoding Int8_Kernel Gpu_Dispatch Int8_Spec
    Training Async_Matmul Training_Pipelines Disk_Cache Kernel_Cache Graph_Diff Float32 Proof_System Onchain Http_Client
    Chain_Clients Async_Clients Validator Chain_Queries Pouw_Chain Proof_Aggregator Bridge_Cli Marketplace Plugin_Loader Aggregator_Server Tools
begin

text \<open>
  A verification library for the C++ core of ChainBeasts, a game whose creatures are small neural
  networks: they are hatched from a seed, trained, rendered from a trait word, sent to fight, and
  their training is recorded on a proof-of-useful-work chain.

  \<^bold>\<open>How the program fits together.\<close> A creature is three INT8 networks
  (\<open>training.hpp\<close>) that are stored in files (\<open>int8_spec.hpp\<close>) and
  evaluated with the multiply of \<open>int8_kernel.hpp\<close>, on the processor or through a GPU
  function that a dispatch queue serves. Training runs on the Harmonics runtime over cached datasets
  and kernels (\<open>disk_cache_producer.hpp\<close>, \<open>kernel_cache.hpp\<close>). A validator
  (\<open>validator.hpp\<close>) proves a training step with a proof system
  (\<open>proof_system.hpp\<close>, \<open>zk_proof_system.cpp\<close>), publishes the proof to a
  network of aggregators (\<open>proof_aggregator.hpp\<close>), whose callbacks are attestations
  that the chain (\<open>pouw_chain.hpp\<close>) counts, and submits it to contracts
  (\<open>onchain_*.hpp\<close>) as ABI calldata (\<open>eth_encoding.hpp\<close>) over a small HTTP
  client (\<open>http_client.hpp\<close>). Battles (\<open>battle.hpp\<close>,
  \<open>battle_animation.hpp\<close>) are arranged by a matchmaker and recorded in ledgers
  (\<open>match_ledger.hpp\<close>, \<open>onchain_ledger.hpp\<close>).

  \<^bold>\<open>How it is modelled.\<close> A struct is a record, an enumeration or tagged union a
  datatype, an integer a word of its width; \<open>int\<close> arithmetic is checked, since its
  overflow is undefined, and so are shifts and accesses out of range. Code that can throw or has
  undefined behaviour returns \<open>'a res\<close>, a fault or a value; code that may not return
  has fuel or is a partial function into options, and that it returns is a theorem. Floats are the
  bits of IEEE single precision with their comparisons (\<open>Float32\<close>); rounding
  arithmetic, hashes, Harmonics, the loaded prover, sockets, files, the clock and the random number
  generator are arguments, with what the code relies on as named predicates
  (\<open>rng_contract\<close>, \<open>fit_contract\<close>, \<open>checkpoint_contract\<close>,
  \<open>shader_contract\<close>, \<open>alloc_contract\<close>), each met by a concrete instance in
  a witness.

  \<^bold>\<open>The theories\<close>, with the sources they model under
  \<open>src/include/neuropet\<close> unless another path is given:
  \<^item> \<open>Prelude\<close>: results and their laws, loops over results, vector accesses,
    decimal and hexadecimal text, searching in strings. \<open>Binary_IO\<close>,
    \<open>Sockets\<close>, \<open>Float32\<close>: streams of bytes, sockets and float comparisons
    that several components share.
  \<^item> \<open>Battle\<close>: creatures, items, board and the fight loop;
    \<open>Battle_Animation\<close>: the recorded fight and its replay; \<open>Matchmaking\<close>:
    \<open>match_ledger.hpp\<close>, \<open>arena.hpp\<close>, \<open>onchain_ledger.hpp\<close>,
    \<open>onchain_arena.hpp\<close> and the matchmaker of \<open>battle.hpp\<close>;
    \<open>Match_History\<close>: histories of calls on a matchmaker and an arena that may share
    their ledgers; \<open>Simulation\<close>: \<open>simulation.hpp\<close>.
  \<^item> \<open>Int8_Kernel\<close>: worker count, scalar and vector tiles and which of them a
    build has, row-parallel driver; \<open>Gpu_Dispatch\<close>: the GPU entry point and the queue;
    \<open>Async_Matmul\<close>: multiplies as tasks of the queue, with the client's data races as
    faults; \<open>Int8_Spec\<close>: network files; \<open>Training\<close>: model size, inference,
    metrics; \<open>Training_Pipelines\<close>: the training loops and checkpoints.
  \<^item> \<open>Disk_Cache\<close> and \<open>Kernel_Cache\<close>
    (\<open>src/include/harmonics\<close>), \<open>Graph_Diff\<close>
    (\<open>src/tools/graph_diff_cli.cpp\<close>).
  \<^item> \<open>Hatching\<close>: topology and genesis weights; \<open>Traits\<close>: the 128-bit
    trait word.
  \<^item> \<open>Eth_Encoding\<close>: ABI words; \<open>Onchain\<close>: the contract clients over
    any request function; \<open>Http_Client\<close>: requests, retries and responses;
    \<open>Chain_Clients\<close>: the transactions on the wire and what a node reads;
    \<open>Async_Clients\<close>: their asynchronous variants, interleaved;
    \<open>Chain_Queries\<close>: the queries on the wire and what a node answers;
    \<open>Bridge_Cli\<close>: \<open>src/tools/bridge_cli.cpp\<close>.
  \<^item> \<open>Proof_System\<close>: digests, losses, the Blake3 and the loaded proof system and
    its loader (also \<open>src/src/zk_proof_system.cpp\<close>); \<open>Validator\<close>;
    \<open>Pouw_Chain\<close>; \<open>Proof_Aggregator\<close>: store, wire format and gossip;
    \<open>Aggregator_Server\<close>: descriptors and threads of one server.
  \<^item> \<open>Marketplace\<close> and \<open>Plugin_Loader\<close>: the plugin listing with its
    regular expression, manifests and the directory scan; \<open>Tools\<close>: the other programs
    of \<open>src/tools\<close>.

  \<^bold>\<open>Interfaces.\<close> Where one part relies on another the contract is a locale that
  is interpreted on the model of the provider: a vector block (\<open>lane_block\<close>) gives a
  tile (\<open>tile_contract\<close>), which the row-parallel driver uses; the multiply of one row
  (\<open>gemm\<close>) and of any size (\<open>matmul_service\<close>); a static ABI type
  (\<open>abi_static\<close>); a ledger of battles (\<open>match_ledger\<close>, met in memory, over
  a remote chain and behind a pointer); a verifier of proofs, met by both proof systems, and a
  system that also generates them (\<open>checked_proofs\<close>, \<open>proof_system\<close>).
  Clients are proved once inside the locale and the properties use the interpretation.

  \<^bold>\<open>What is shown\<close>, by groups:
  \<^item> computation: all tile kernels compute the saturated product (the vector ones only up to
    128 columns, and wrongly beyond); inference of models up to 64 KiB whose layers fit together and
    are no wider than that computes the reference network in every build; a client of asynchronous
    multiplies that waits for a future before it touches the result sees the synchronous program;
    the dispatch queue loses no task and drains;
  \<^item> battles: a fight ends on boards without walls, is the abstract duel on an empty one, is
    safe on all (for creatures whose totals fit an \<open>int\<close> and whose power is not
    negative) and never ends on two documented ones; recordings replay;
  \<^item> bookkeeping: balances are sums of rewards, all of which the miner gets, the chain is a
    function of its history, accepted losses are the running minima of the valid ones, for both
    proof systems, quorums count calls, a matchmaker and an arena refine a first-in first-out queue
    whatever ledgers they share;
  \<^item> formats: the kernel cache is two maps; networks, traits, proofs on the wire and plugin
    listings are read back as they were written, graph differences without the contents of new
    layers; a network is accepted exactly when its file has the format, whatever its sizes and
    operations; and calldata decodes on the node;
  \<^item> communication: the retry loop, the response parser, the delivery of a checkpoint, a
    curriculum that is cached with its encoding, asynchronous calls that settle but may overtake
    each other, and the ways the network multiplies a message (a battle sent twice, gossip that
    never dies down, echoes that make a quorum, in this theory);
  \<^item> errors: undefined shifts, caches and recordings that are accepted wrongly, loops that
    never end.

  \<^bold>\<open>Bounds.\<close> A fight takes at most \<open>30 + 2 * (staminaA + staminaB)\<close>
  turns, a recorded one \<open>34 * (staminaA + staminaB) + 34\<close>, as xorshift never keeps its
  low bit for more than 33 draws; the 32-bit accumulator of a product is exact for inner dimensions
  up to 131071 (\<open>131071 * 128 * 128 < 2 ^ 31\<close>); counts of files are 32 bits wide; 70
  units of fuel suffice for every fight of the simulation, and its loop that draws an opponent ends
  because \<open>rng_contract\<close> rules out a generator that is stuck on one index: the
  simulation has the same result for all fuel from some number on, which depends on the generator;
  requests are retried three times from 100 ms; readers of a cache need one unit more than it has
  records.

  \<^bold>\<open>Not modelled.\<close> The \<open>std::async\<close> variants of the queries and of
  the plugin loader run the modelled functions in a thread of their own and share no state; object
  destructors other than those of the queue and the server; log messages, socket options; the
  configurations of the build without sockets; the recursion limit of \<open>std::regex\<close>;
  out-of-memory errors; signals that interrupt a system call. A data race is counted for every
  access to a result whose future has not been waited for, also where the mutex of the queue happens
  to order the two. Tests and benchmarks, contracts (Solidity), the web and mobile client, scripts
  and build files are not the C++ core.
\<close>

section \<open>Proofs, attestations and the chain\<close>

lemma chain_attests: "foldl chain_attest s rs = s\<lparr>validator := foldl attest (validator s) rs\<rparr>"
  by (induction rs arbitrary: s) (simp_all add: chain_attest_def)

definition echoed_chain :: "nat \<Rightarrow> nat \<Rightarrow> StarkProof \<Rightarrow> u32 \<Rightarrow> string \<Rightarrow> u32 \<Rightarrow> PoUWChain" where
  \<comment> \<open>a chain attached to the submitting server of two connected ones, with the proof's checkpoint
      pending, after \<open>2 k\<close> deliveries of the network\<close>
  "echoed_chain q k p c m en =
     foldl chain_attest (submit_checkpoint (new_chain q) c 0 (root p) m (loss p) en)
       (map root (callbacks (servers (echo k p) 0)))"

text \<open>
  C26: one miner finalizes its own checkpoint without anyone else checking it: two connected
  servers echo the miner's single proof, each echo is an attestation of the chain attached to the
  first server, and once they number the quorum the chain appends the block and pays the miner,
  although no second party ever attested; one echo earlier it still refuses.
\<close>

theorem echo_finalizes_checkpoint:
  "(if max 1 q \<le> Suc k
    then fst (finalize_checkpoint (echoed_chain q k p c m en) (root p)) \<and>
      map miner (chain (snd (finalize_checkpoint (echoed_chain q k p c m en) (root p)))) = [m] \<and>
      core_balance (snd (finalize_checkpoint (echoed_chain q k p c m en) (root p))) m = ucast en
    else finalize_checkpoint (echoed_chain q k p c m en) (root p) = (False, echoed_chain q k p c m en))"
proof -
  let ?s = "echoed_chain q k p c m en"
  have "count_list (replicate n (root p)) (root p) = n" for n by (induction n) auto
  then have quorum: "has_quorum (validator ?s) (root p) \<longleftrightarrow> max 1 q \<le> Suc k"
    using quorum_counts [of q False "replicate (Suc k) (root p)" "root p"] echo_state [of k p]
    by (simp add: echoed_chain_def chain_attests chain_attest_def submit_checkpoint_def new_chain_def)
  have s: "proven ?s = {}" "finalized ?s = {}" "chain ?s = []" "next_epoch ?s = Map.empty" "last_losses ?s = Map.empty"
    "core_map ?s = Map.empty"
    "pending_map ?s = [root p \<mapsto> \<lparr>p_creature = c, p_epoch = 0, p_miner = m, p_loss = loss p, p_energy = en\<rparr>]"
    by (simp_all add: echoed_chain_def chain_attests chain_attest_def submit_checkpoint_def new_chain_def)
  have "acceptable ?s (root p) it \<longleftrightarrow> max 1 q \<le> Suc k \<and> pending_map ?s (root p) = Some it" for it
    unfolding acceptable_def quorum by (auto simp: s epoch_of_def worse_def)
  then show ?thesis
    by (auto simp: finalize_iff s append_block_def Let_def credit_def core_balance_def CORE_PER_ENERGY_def)
qed

end
